(* ===== verification/Prelude.thy ===== *)
theory Prelude
  imports Complex_Main "HOL-Library.Multiset"
begin

text \<open>
  Shared vocabulary of the FP-Growth development: the names of the model's types,
  the collections of facts the component theories feed, and generic lemmas on
  lists, sums and maps that several components use.
  Items are the dense integer ids of the Go type \<open>Item int\<close>; counts and ids never
  go negative in the code, so both are \<open>nat\<close> (a count reaching \<open>2^63\<close> would need
  more transactions than a file can hold; overflow is not modelled).
\<close>

type_synonym item = nat
type_synonym itemset = "item list"
type_synonym token = string

named_theorems fp_simps "evaluation rules of the FP-Growth model"
named_theorems fp_inv "invariant preservation rules of the FP-Growth model"

text \<open>Lookup with a default, as Go reads a map at a missing key.\<close>

definition lookup_default :: "'b \<Rightarrow> ('a \<rightharpoonup> 'b) \<Rightarrow> 'a \<Rightarrow> 'b" where
  "lookup_default d m k = (case m k of None \<Rightarrow> d | Some v \<Rightarrow> v)"

text \<open>Weighted sums over lists, used for counts that the code accumulates.\<close>

lemma sum_list_map_filter_split:
  fixes f :: "'a \<Rightarrow> 'b::comm_monoid_add"
  shows "sum_list (map f xs) = sum_list (map f (filter P xs)) + sum_list (map f (filter (\<lambda>x. \<not> P x) xs))"
  by (induction xs) (auto simp: ac_simps)

lemma sum_list_map_cong_set:
  "(\<And>x. x \<in> set xs \<Longrightarrow> f x = g x) \<Longrightarrow> sum_list (map f xs) = sum_list (map g xs)"
  by (induction xs) auto

lemma sum_list_map_filter_if:
  "sum_list (map f (filter P xs)) = sum_list (map (\<lambda>x. if P x then f x else 0) xs)"
  by (induction xs) auto

lemma count_list_filter_if:
  "length (filter P xs) = sum_list (map (\<lambda>x. if P x then 1 else 0) xs)"
  by (induction xs) auto

lemma lookup_default_upd [simp]:
  "lookup_default d (m(k \<mapsto> v)) k' = (if k' = k then v else lookup_default d m k')"
  by (simp add: lookup_default_def)

lemma lookup_default_empty [simp]: "lookup_default d Map.empty k = d"
  by (simp add: lookup_default_def)

text \<open>Sums over a list with one element replaced (a worker's state changing in a pool).\<close>

lemma sum_list_map_update:
  fixes g :: "'a \<Rightarrow> 'b::comm_monoid_add"
  shows "k < length xs \<Longrightarrow> sum_list (map g (xs[k := v])) + g (xs ! k) = sum_list (map g xs) + g v"
proof (induction xs arbitrary: k)
  case Nil
  then show ?case by simp
next
  case (Cons x xs)
  then show ?case by (cases k) (simp_all add: ac_simps)
qed

lemma length_filter_update_plus:
  "k < length xs \<Longrightarrow>
   length (filter P (xs[k := v])) + (if P (xs ! k) then 1 else 0) =
   length (filter P xs) + (if P v then 1 else 0)"
  using sum_list_map_update [of k xs "\<lambda>x. if P x then 1 else (0::nat)" v]
  by (simp add: count_list_filter_if)

text \<open>Reading a successful run out of an evaluated \<open>case\<close>, without rewriting the
  (large) evaluated term again.\<close>

lemma sum_list_map_point:
  fixes g :: "'a \<Rightarrow> 'b::comm_monoid_add"
  assumes "distinct xs" and "\<And>n. n \<noteq> c \<Longrightarrow> g' n = g n" and "g' c = g c + d"
  shows "sum_list (map g' xs) = sum_list (map g xs) + (if c \<in> set xs then d else 0)"
  using assms(1)
proof (induction xs)
  case (Cons a xs)
  then show ?case by (cases "a = c") (auto simp: assms(2,3) ac_simps)
qed simp

lemma replicate_mset_add: "replicate_mset (m + n) x = replicate_mset m x + replicate_mset n x"
  by (induction m) simp_all

lemma mset_set_UN_list:
  assumes "distinct xs" and "\<And>x. x \<in> set xs \<Longrightarrow> finite (B x)"
    and "\<And>x y. x \<in> set xs \<Longrightarrow> y \<in> set xs \<Longrightarrow> x \<noteq> y \<Longrightarrow> B x \<inter> B y = {}"
  shows "mset_set (\<Union>x \<in> set xs. B x) = (\<Sum>x \<leftarrow> xs. mset_set (B x))"
  using assms
proof (induction xs)
  case (Cons a xs)
  have "B a \<inter> (\<Union>x \<in> set xs. B x) = {}" using Cons.prems by auto
  then show ?case using Cons by (simp add: mset_set_Union)
qed simp

lemma case_option_SomeE:
  "(case x of None \<Rightarrow> False | Some s \<Rightarrow> P s) \<Longrightarrow> (\<And>s. x = Some s \<Longrightarrow> P s \<Longrightarrow> Q) \<Longrightarrow> Q"
  by (cases x) auto

lemma case_sum_InrE:
  "(case x of Inl e \<Rightarrow> False | Inr (a, b, c) \<Rightarrow> P a b c) \<Longrightarrow>
   (\<And>a b c. x = Inr (a, b, c) \<Longrightarrow> P a b c \<Longrightarrow> Q) \<Longrightarrow> Q"
  by (cases x) auto

end
