(* ===== verification/Arguments.thy ===== *)
theory Arguments
  imports Prelude
begin

text \<open>
  The command-line arguments and their validation (\<open>src/unnamed/part_000\<close>, the
  package's \<open>arguments.go\<close>): the \<open>Arguments\<close> struct, the three range errors and
  \<open>Arguments.Validate\<close>. The thresholds are Go \<open>float64\<close> values; the model keeps of
  IEEE 754 exactly what \<open>Validate\<close> observes: a finite value (an exact rational, rounding
  is not modelled), the two infinities and NaN, with Go's comparison operators, under
  which every ordered comparison with NaN is false and \<open>NaN != x\<close> is true.
\<close>

datatype float64 = Fin rat | NaN | PosInf | NegInf

text \<open>Go's \<open><\<close> on \<open>float64\<close> (IEEE 754 ordered comparison).\<close>

fun f64_lt :: "float64 \<Rightarrow> float64 \<Rightarrow> bool" where
  "f64_lt NaN _ = False"
| "f64_lt _ NaN = False"
| "f64_lt (Fin x) (Fin y) = (x < y)"
| "f64_lt (Fin x) PosInf = True"
| "f64_lt (Fin x) NegInf = False"
| "f64_lt PosInf _ = False"
| "f64_lt NegInf y = (y \<noteq> NegInf)"

text \<open>Go's \<open>==\<close> on \<open>float64\<close>: NaN equals nothing, itself included.\<close>

fun f64_eq :: "float64 \<Rightarrow> float64 \<Rightarrow> bool" where
  "f64_eq (Fin x) (Fin y) = (x = y)"
| "f64_eq PosInf PosInf = True"
| "f64_eq NegInf NegInf = True"
| "f64_eq _ _ = False"

datatype arm_error =
    ErrMinSupportOutOfRange
  | ErrMinConfidenceOutOfRange
  | ErrMinLiftOutOfRange
  | ErrIO string

record Arguments =
  Input :: string
  Output :: string
  MinSupport :: float64
  MinConfidence :: float64
  MinLift :: float64
  ItemsetsPath :: string

text \<open>\<open>func (args Arguments) Validate() error\<close>: \<open>None\<close> is Go's \<open>nil\<close>.\<close>

definition Validate :: "('a) Arguments_scheme \<Rightarrow> arm_error option" where
  "Validate args =
     (if f64_lt (MinSupport args) (Fin 0) \<or> f64_lt (Fin 1) (MinSupport args)
      then Some ErrMinSupportOutOfRange
      else if f64_lt (MinConfidence args) (Fin 0) \<or> f64_lt (Fin 1) (MinConfidence args)
      then Some ErrMinConfidenceOutOfRange
      else if \<not> f64_eq (MinLift args) (Fin 0) \<and> f64_lt (MinLift args) (Fin 1)
      then Some ErrMinLiftOutOfRange
      else None)"

text \<open>A threshold in the range the spec documents: a finite value in \<open>[lo, hi]\<close>.\<close>

definition in_unit :: "float64 \<Rightarrow> bool" where
  "in_unit x = (case x of Fin r \<Rightarrow> 0 \<le> r \<and> r \<le> 1 | _ \<Rightarrow> False)"

definition lift_ok :: "float64 \<Rightarrow> bool" where
  "lift_ok x = (case x of Fin r \<Rightarrow> r = 0 \<or> 1 \<le> r | PosInf \<Rightarrow> True | _ \<Rightarrow> False)"

lemma f64_lt_Fin_iff [simp]:
  "f64_lt (Fin x) (Fin y) \<longleftrightarrow> x < y"
  by simp

lemma in_unit_Fin [simp]: "in_unit (Fin r) \<longleftrightarrow> 0 \<le> r \<and> r \<le> 1"
  by (simp add: in_unit_def)

lemma lift_ok_Fin [simp]: "lift_ok (Fin r) \<longleftrightarrow> r = 0 \<or> 1 \<le> r"
  by (simp add: lift_ok_def)

text \<open>On a value that is not NaN, the two comparisons \<open>Validate\<close> makes reject exactly
  what lies outside \<open>[0, 1]\<close>.\<close>

lemma f64_unit_check:
  "x \<noteq> NaN \<Longrightarrow> (f64_lt x (Fin 0) \<or> f64_lt (Fin 1) x) \<longleftrightarrow> \<not> in_unit x"
  by (cases x) (auto simp: in_unit_def)

lemma f64_lift_check:
  "x \<noteq> NaN \<Longrightarrow> (\<not> f64_eq x (Fin 0) \<and> f64_lt x (Fin 1)) \<longleftrightarrow> \<not> lift_ok x"
  by (cases x) (auto simp: lift_ok_def)

text \<open>
  Claim C8: for thresholds that are numbers (finite or infinite, not NaN), \<open>Validate\<close>
  implements the documented contract: the first threshold out of its range, in the order
  support, confidence, lift, is reported, and \<open>nil\<close> is returned exactly when
  \<open>MinSupport\<close> and \<open>MinConfidence\<close> lie in \<open>[0, 1]\<close> and \<open>MinLift\<close> is 0 or at least 1.
\<close>

theorem Validate_contract:
  assumes "MinSupport a \<noteq> NaN" and "MinConfidence a \<noteq> NaN" and "MinLift a \<noteq> NaN"
  shows "Validate a =
    (if \<not> in_unit (MinSupport a) then Some ErrMinSupportOutOfRange
     else if \<not> in_unit (MinConfidence a) then Some ErrMinConfidenceOutOfRange
     else if \<not> lift_ok (MinLift a) then Some ErrMinLiftOutOfRange
     else None)"
  using assms by (simp add: Validate_def f64_unit_check f64_lift_check)

theorem Validate_contract_witness:
  "Validate \<lparr>Input = ''in.csv'', Output = ''out.csv'', MinSupport = Fin (1/2),
      MinConfidence = Fin (1/2), MinLift = Fin (1/2), ItemsetsPath = []\<rparr>
     = Some ErrMinLiftOutOfRange"
proof -
  let ?a = "\<lparr>Input = ''in.csv'', Output = ''out.csv'', MinSupport = Fin (1/2),
      MinConfidence = Fin (1/2), MinLift = Fin (1/2), ItemsetsPath = []\<rparr>"
  have "Validate ?a =
    (if \<not> in_unit (MinSupport ?a) then Some ErrMinSupportOutOfRange
     else if \<not> in_unit (MinConfidence ?a) then Some ErrMinConfidenceOutOfRange
     else if \<not> lift_ok (MinLift ?a) then Some ErrMinLiftOutOfRange
     else None)"
    by (rule Validate_contract) simp_all
  then show ?thesis by simp
qed

text \<open>
  NaN passes every check of \<open>Validate\<close>: a NaN threshold is accepted although it
  lies in no range the spec allows (the comparisons \<open>< 0.0\<close>, \<open>> 1.0\<close> and \<open>< 1.0\<close>
  are all false on NaN, and \<open>!= 0.0\<close> is true).
\<close>

lemma Validate_NaN_example:
  "Validate \<lparr>Input = inp, Output = outp, MinSupport = NaN, MinConfidence = NaN,
      MinLift = NaN, ItemsetsPath = p\<rparr> = None
   \<and> \<not> in_unit NaN \<and> \<not> lift_ok NaN"
  by (simp add: Validate_def in_unit_def lift_ok_def)

end
