(* ===== verification/Float64.thy ===== *)
theory Float64
  imports Arguments
begin

text \<open>
  IEEE 754 binary64 arithmetic as Go performs it on \<open>float64\<close>. A finite double is a
  rational \<open>m * 2^e\<close> with \<open>|m| < 2^53\<close> and \<open>e \<ge> -1074\<close>; \<open>f64_round\<close> maps a
  rational to a nearest such value, ties to the even mantissa (round to nearest even, the
  mode of every Go float operation): with \<open>e = max (\<lfloor>log2 |x|\<rfloor> - 52) (-1074)\<close>, it is
  \<open>x / 2^e\<close> rounded half to even, times \<open>2^e\<close>. A result of magnitude \<open>2^1024\<close> or
  more is an infinity. \<open>f64_mul\<close> and \<open>f64_div\<close> are Go's \<open>*\<close> and \<open>/\<close>,
  \<open>f64_ceil\<close> is \<open>math.Ceil\<close>, \<open>f64_of_nat\<close> is the conversion \<open>float64(n)\<close> and
  \<open>go_int\<close> the conversion \<open>int(x)\<close> (truncation; a NaN, an infinity or a value out of
  the \<open>int64\<close> range gives the minimum \<open>int64\<close>, as on amd64). The sign of zero is not
  modelled: no result of the program depends on it.
\<close>

definition round_half_even :: "rat \<Rightarrow> int" where
  "round_half_even x =
     (let f = \<lfloor>x\<rfloor>; d = x - of_int f
      in if d < 1/2 then f else if 1/2 < d then f + 1 else if even f then f else f + 1)"

function lg2 :: "int \<Rightarrow> nat" where
  "lg2 n = (if n < 2 then 0 else Suc (lg2 (n div 2)))"
  by auto
termination by (relation "measure nat") auto

declare lg2.simps [simp del]

text \<open>\<open>\<lfloor>log2 x\<rfloor>\<close> of a positive rational.\<close>

definition flog2 :: "rat \<Rightarrow> int" where
  "flog2 x =
     (if 1 \<le> x then int (lg2 \<lfloor>x\<rfloor>)
      else (let c = \<lceil>1 / x\<rceil> in - int (if c \<le> 1 then 0 else Suc (lg2 (c - 1)))))"

definition f64_exp :: "rat \<Rightarrow> int" where
  "f64_exp x = max (flog2 \<bar>x\<bar> - 52) (-1074)"

definition f64_round :: "rat \<Rightarrow> rat" where
  "f64_round x =
     (if x = 0 then 0 else of_int (round_half_even (x / 2 powi f64_exp x)) * 2 powi f64_exp x)"

definition f64_of_rat :: "rat \<Rightarrow> float64" where
  "f64_of_rat x =
     (let r = f64_round x in if 2 ^ 1024 \<le> \<bar>r\<bar> then (if 0 < r then PosInf else NegInf) else Fin r)"

definition f64_of_nat :: "nat \<Rightarrow> float64" where
  "f64_of_nat n = f64_of_rat (of_nat n)"

fun f64_mul :: "float64 \<Rightarrow> float64 \<Rightarrow> float64" where
  "f64_mul (Fin a) (Fin b) = f64_of_rat (a * b)"
| "f64_mul PosInf (Fin b) = (if b = 0 then NaN else if 0 < b then PosInf else NegInf)"
| "f64_mul NegInf (Fin b) = (if b = 0 then NaN else if 0 < b then NegInf else PosInf)"
| "f64_mul (Fin a) PosInf = (if a = 0 then NaN else if 0 < a then PosInf else NegInf)"
| "f64_mul (Fin a) NegInf = (if a = 0 then NaN else if 0 < a then NegInf else PosInf)"
| "f64_mul PosInf PosInf = PosInf"
| "f64_mul NegInf NegInf = PosInf"
| "f64_mul PosInf NegInf = NegInf"
| "f64_mul NegInf PosInf = NegInf"
| "f64_mul x y = NaN"

fun f64_div :: "float64 \<Rightarrow> float64 \<Rightarrow> float64" where
  "f64_div (Fin a) (Fin b) =
     (if b \<noteq> 0 then f64_of_rat (a / b) else if a = 0 then NaN else if 0 < a then PosInf else NegInf)"
| "f64_div PosInf (Fin b) = (if b < 0 then NegInf else PosInf)"
| "f64_div NegInf (Fin b) = (if b < 0 then PosInf else NegInf)"
| "f64_div (Fin a) PosInf = Fin 0"
| "f64_div (Fin a) NegInf = Fin 0"
| "f64_div x y = NaN"

fun f64_ceil :: "float64 \<Rightarrow> float64" where
  "f64_ceil (Fin r) = Fin (of_int \<lceil>r\<rceil>)"
| "f64_ceil x = x"

fun go_int :: "float64 \<Rightarrow> int" where
  "go_int (Fin r) =
     (if - (2 ^ 63) \<le> r \<and> r < 2 ^ 63 then (if 0 \<le> r then \<lfloor>r\<rfloor> else \<lceil>r\<rceil>) else - (2 ^ 63))"
| "go_int x = - (2 ^ 63)"

subsection \<open>Rounding half to even\<close>

lemma round_half_even_bound: "\<bar>of_int (round_half_even x) - x\<bar> \<le> 1/2"
proof -
  have "of_int \<lfloor>x\<rfloor> \<le> x" "x < of_int \<lfloor>x\<rfloor> + 1" by linarith+
  then show ?thesis by (auto simp: round_half_even_def Let_def)
qed

lemma round_half_even_nonneg: "0 \<le> x \<Longrightarrow> 0 \<le> round_half_even x"
  by (auto simp: round_half_even_def Let_def)

lemma round_half_even_int [simp]: "round_half_even (of_int k) = k"
  by (simp add: round_half_even_def)

lemma round_half_even_numeral [simp]: "round_half_even (numeral n) = numeral n"
  using round_half_even_int [of "numeral n"] by simp

lemma round_half_even_neg_numeral [simp]: "round_half_even (- numeral n) = - numeral n"
  using round_half_even_int [of "- numeral n"] by simp

lemma round_half_even_floor: "\<lfloor>x\<rfloor> \<le> round_half_even x \<and> round_half_even x \<le> \<lfloor>x\<rfloor> + 1"
  by (auto simp: round_half_even_def Let_def)

lemma round_half_even_mono:
  assumes "x \<le> y"
  shows "round_half_even x \<le> round_half_even y"
proof (cases "\<lfloor>x\<rfloor> < \<lfloor>y\<rfloor>")
  case True
  then show ?thesis using round_half_even_floor [of x] round_half_even_floor [of y] by linarith
next
  case False
  with floor_mono [OF assms] have eq: "\<lfloor>x\<rfloor> = \<lfloor>y\<rfloor>" by simp
  with assms have "x - of_int \<lfloor>x\<rfloor> \<le> y - of_int \<lfloor>y\<rfloor>" by simp
  with eq show ?thesis by (auto simp: round_half_even_def Let_def)
qed

lemma round_half_even_nearest:
  "\<bar>of_int (round_half_even x) - x\<bar> \<le> \<bar>of_int j - x\<bar>"
proof (cases "j = round_half_even x")
  case False
  then have "1 \<le> \<bar>of_int j - of_int (round_half_even x) :: rat\<bar>"
    by (metis of_int_abs of_int_diff of_int_1_le_iff zero_less_abs_iff eq_iff_diff_eq_0 int_one_le_iff_zero_less)
  with round_half_even_bound [of x] show ?thesis by linarith
qed simp

subsection \<open>The binary logarithm\<close>

lemma lg2_bounds: "0 < n \<Longrightarrow> 2 ^ lg2 n \<le> n \<and> n < 2 ^ Suc (lg2 n)"
proof (induction n rule: lg2.induct)
  case (1 n)
  show ?case
  proof (cases "n < 2")
    case True
    with "1.prems" show ?thesis by (simp add: lg2.simps)
  next
    case False
    then have "0 < n div 2" by simp
    with "1.IH" False have ih: "2 ^ lg2 (n div 2) \<le> n div 2" "n div 2 < 2 ^ Suc (lg2 (n div 2))" by simp_all
    have l: "lg2 n = Suc (lg2 (n div 2))" using False by (subst lg2.simps) simp
    have a: "n < 2 * (n div 2 + 1)" "2 * (n div 2) \<le> n" by presburger+
    have "2 * (n div 2 + 1) \<le> 2 * 2 ^ Suc (lg2 (n div 2))" using ih(2) by simp
    with a l have "n < 2 ^ Suc (lg2 n)" by simp
    moreover have "2 ^ lg2 n \<le> n" using ih(1) a(2) l by simp
    ultimately show ?thesis by simp
  qed
qed

lemma powi_2_pos [simp]: "0 < (2::rat) powi k"
  by (simp add: power_int_def)

lemma powi_2_of_nat: "(2::rat) powi int n = 2 ^ n"
  by (simp add: power_int_def)

lemma powi_2_neg: "(2::rat) powi (- int n) = 1 / 2 ^ n"
  by (simp add: power_int_def inverse_eq_divide power_one_over)

lemma powi_2_add: "(2::rat) powi (a + b) = 2 powi a * 2 powi b"
  by (simp add: power_int_add)

lemma powi_2_mono: "a \<le> b \<Longrightarrow> (2::rat) powi a \<le> 2 powi b"
  by (rule power_int_increasing) simp_all

lemma powi_2_strict_mono: "a < b \<Longrightarrow> (2::rat) powi a < 2 powi b"
  by (rule power_int_strict_increasing) simp_all

lemma powi_2_less_iff: "(2::rat) powi a < 2 powi b \<longleftrightarrow> a < b"
  using powi_2_strict_mono powi_2_mono by (meson not_le)

lemma flog2_bounds:
  assumes "0 < x"
  shows "2 powi flog2 x \<le> x \<and> x < 2 powi (flog2 x + 1)"
proof (cases "1 \<le> x")
  case True
  let ?f = "\<lfloor>x\<rfloor>"
  have f: "0 < ?f" using True by linarith
  have fx: "of_int ?f \<le> x" "x < of_int ?f + 1" by linarith+
  have b: "2 ^ lg2 ?f \<le> ?f" "?f + 1 \<le> 2 ^ Suc (lg2 ?f)" using lg2_bounds [OF f] by simp_all
  have "(of_int (2 ^ lg2 ?f) :: rat) \<le> of_int ?f" using b(1) by (simp only: of_int_le_iff)
  then have r1: "(2::rat) ^ lg2 ?f \<le> of_int ?f" by simp
  have "(of_int (?f + 1) :: rat) \<le> of_int (2 ^ Suc (lg2 ?f))" using b(2) by (simp only: of_int_le_iff)
  then have r2: "of_int ?f + 1 \<le> (2::rat) ^ Suc (lg2 ?f)" by simp
  have e: "flog2 x = int (lg2 ?f)" using True by (simp add: flog2_def)
  have p1: "(2::rat) powi int (lg2 ?f) = 2 ^ lg2 ?f" by (rule powi_2_of_nat)
  have p2: "(2::rat) powi (int (lg2 ?f) + 1) = 2 ^ Suc (lg2 ?f)"
    using powi_2_of_nat [of "Suc (lg2 ?f)"] by (simp add: add.commute)
  show ?thesis unfolding e p1 p2 using fx r1 r2 by linarith
next
  case False
  let ?c = "\<lceil>1 / x\<rceil>"
  have gt: "1 < 1 / x" using False assms by simp
  have c2: "2 \<le> ?c" using gt by linarith
  have cx: "1 / x \<le> of_int ?c" "of_int ?c - 1 < 1 / x" by linarith+
  let ?j = "Suc (lg2 (?c - 1))"
  have c1: "0 < ?c - 1" using c2 by arith
  have b: "2 ^ lg2 (?c - 1) \<le> ?c - 1" "?c \<le> 2 ^ ?j" using lg2_bounds [OF c1] by simp_all
  have "(of_int (2 ^ lg2 (?c - 1)) :: rat) \<le> of_int (?c - 1)" using b(1) by (simp only: of_int_le_iff)
  then have b1: "(2::rat) ^ lg2 (?c - 1) \<le> of_int ?c - 1" by simp
  have "(of_int ?c :: rat) \<le> of_int (2 ^ ?j)" using b(2) by (simp only: of_int_le_iff)
  then have b2: "of_int ?c \<le> (2::rat) ^ ?j" by simp
  have "1 / x \<le> 2 ^ ?j" using cx b2 by linarith
  then have lo: "1 / 2 ^ ?j \<le> x" using assms by (simp add: field_simps)
  have "2 ^ lg2 (?c - 1) < 1 / x" using cx b1 by linarith
  then have hi: "x < 1 / 2 ^ lg2 (?c - 1)" using assms by (simp add: field_simps)
  have e: "flog2 x = - int ?j" using False c2 by (simp add: flog2_def Let_def)
  have p1: "(2::rat) powi (- int ?j) = 1 / 2 ^ ?j" by (rule powi_2_neg)
  have "- int ?j + 1 = - int (lg2 (?c - 1))" by simp
  then have p2: "(2::rat) powi (- int ?j + 1) = 1 / 2 ^ lg2 (?c - 1)" using powi_2_neg by metis
  show ?thesis unfolding e p1 p2 using lo hi by simp
qed

lemma flog2_mono:
  assumes "0 < x" and "x \<le> y"
  shows "flog2 x \<le> flog2 y"
proof (rule ccontr)
  assume "\<not> flog2 x \<le> flog2 y"
  then have "flog2 y + 1 \<le> flog2 x" by simp
  then have "2 powi (flog2 y + 1) \<le> (2::rat) powi flog2 x" by (rule powi_2_mono)
  with flog2_bounds [OF assms(1)] flog2_bounds [of y] assms show False by auto
qed

lemma flog2_less:
  assumes "0 < x" and "x < 2 powi k"
  shows "flog2 x < k"
proof -
  have "2 powi flog2 x < (2::rat) powi k" using flog2_bounds [OF assms(1)] assms(2) by linarith
  then show ?thesis by (simp add: powi_2_less_iff)
qed

subsection \<open>Properties of the rounding\<close>

lemma powi_2_diff: "(2::rat) powi a = 2 powi (a - b) * 2 powi b"
  using powi_2_add [of "a - b" b] by simp

lemma powi_2_nat: "0 \<le> k \<Longrightarrow> (2::rat) powi k = of_int (2 ^ nat k)"
  using powi_2_of_nat [of "nat k"] by simp

lemma f64_round_exact:
  assumes m: "\<bar>m\<bar> < 2 ^ 53" and e: "-1074 \<le> e"
  shows "f64_round (of_int m * 2 powi e) = of_int m * 2 powi e"
proof (cases "m = 0")
  case False
  define x where "x = of_int m * (2::rat) powi e"
  define E where "E = f64_exp x"
  have ax: "\<bar>x\<bar> = of_int \<bar>m\<bar> * 2 powi e" by (simp add: x_def abs_mult)
  have "of_int \<bar>m\<bar> < (2::rat) powi 53" using m by (simp add: powi_2_nat)
  then have "\<bar>x\<bar> < 2 powi 53 * 2 powi e" unfolding ax by simp
  then have "\<bar>x\<bar> < 2 powi (53 + e)" by (simp add: powi_2_add)
  moreover have "0 < \<bar>x\<bar>" using False by (simp add: x_def)
  ultimately have "flog2 \<bar>x\<bar> < 53 + e" by (intro flog2_less)
  then have E: "E \<le> e" using e by (simp add: E_def f64_exp_def)
  have pd: "(2::rat) powi e = 2 powi (e - E) * 2 powi E" by (rule powi_2_diff)
  define k where "k = m * 2 ^ nat (e - E)"
  have q: "x / 2 powi E = of_int k"
    using E by (simp add: x_def k_def pd powi_2_nat)
  have x0: "x \<noteq> 0" using False by (simp add: x_def)
  have "f64_round x = of_int k * 2 powi E"
    using x0 q by (simp add: f64_round_def E_def [symmetric])
  also have "\<dots> = x" using q by (simp add: field_simps)
  finally show ?thesis by (simp add: x_def)
qed (simp add: f64_round_def)

lemma f64_round_of_nat [simp]: "n < 2 ^ 53 \<Longrightarrow> f64_round (of_nat n) = of_nat n"
  using f64_round_exact [of "int n" 0] by simp

lemma f64_round_nonneg: "0 \<le> x \<Longrightarrow> 0 \<le> f64_round x"
  by (simp add: f64_round_def round_half_even_nonneg)

lemma f64_exp_mono: "0 < x \<Longrightarrow> x \<le> y \<Longrightarrow> f64_exp x \<le> f64_exp y"
  using flog2_mono [of x y] by (simp add: f64_exp_def)

lemma f64_round_mono:
  assumes x: "0 \<le> x" and xy: "x \<le> y"
  shows "f64_round x \<le> f64_round y"
proof (cases "x = 0")
  case True
  then show ?thesis using f64_round_nonneg [of y] xy by (simp add: f64_round_def)
next
  case False
  then have x0: "0 < x" using x by simp
  with xy have y0: "0 < y" by simp
  let ?ex = "f64_exp x" and ?ey = "f64_exp y"
  have rx: "f64_round x = of_int (round_half_even (x / 2 powi ?ex)) * 2 powi ?ex"
    using x0 by (simp add: f64_round_def)
  have ry: "f64_round y = of_int (round_half_even (y / 2 powi ?ey)) * 2 powi ?ey"
    using y0 by (simp add: f64_round_def)
  have le: "?ex \<le> ?ey" by (rule f64_exp_mono [OF x0 xy])
  show ?thesis
  proof (cases "?ex = ?ey")
    case True
    have "x / 2 powi ?ex \<le> y / 2 powi ?ex" using xy by (simp add: divide_right_mono)
    then have "round_half_even (x / 2 powi ?ex) \<le> round_half_even (y / 2 powi ?ex)"
      by (rule round_half_even_mono)
    then show ?thesis unfolding rx ry True by simp
  next
    case False
    with le have lt: "?ex < ?ey" by simp
    then have ey: "?ey = flog2 y - 52" using y0 by (auto simp: f64_exp_def abs_of_pos)
    have "2 powi (?ey + 52) \<le> y" using flog2_bounds [OF y0] ey by (simp add: f64_exp_def abs_of_pos y0)
    then have "2 powi 52 \<le> y / 2 powi ?ey" by (simp add: powi_2_add field_simps)
    then have "of_int (2 ^ 52) \<le> y / 2 powi ?ey" by (simp add: powi_2_nat)
    then have "2 ^ 52 \<le> round_half_even (y / 2 powi ?ey)"
      using round_half_even_mono [of "of_int (2 ^ 52)"] by simp
    then have "(2::rat) powi 52 * 2 powi ?ey \<le> f64_round y"
      unfolding ry by (simp add: powi_2_nat)
    then have ylo: "2 powi (?ey + 52) \<le> f64_round y" by (simp add: powi_2_add)
    have "flog2 x - 52 \<le> ?ex" using x0 by (simp add: f64_exp_def abs_of_pos)
    then have "x < 2 powi (?ex + 53)"
      using flog2_bounds [OF x0] powi_2_mono [of "flog2 x + 1" "?ex + 53"] by (simp add: abs_of_pos x0)
    then have "x / 2 powi ?ex < of_int (2 ^ 53)" by (simp add: powi_2_add powi_2_nat field_simps)
    then have "round_half_even (x / 2 powi ?ex) \<le> 2 ^ 53"
      using round_half_even_mono [of "x / 2 powi ?ex" "of_int (2 ^ 53)"] by simp
    then have "f64_round x \<le> (2::rat) powi 53 * 2 powi ?ex"
      unfolding rx by (simp add: powi_2_nat)
    then have "f64_round x \<le> 2 powi (?ex + 53)" by (simp add: powi_2_add)
    moreover have "(2::rat) powi (?ex + 53) \<le> 2 powi (?ey + 52)" using lt by (intro powi_2_mono) simp
    ultimately show ?thesis using ylo by linarith
  qed
qed

lemma f64_round_scaled:
  assumes "x \<noteq> 0"
  shows "f64_round x - x =
           (of_int (round_half_even (x / 2 powi f64_exp x)) - x / 2 powi f64_exp x) * 2 powi f64_exp x"
  using assms by (simp add: f64_round_def algebra_simps)

lemma f64_round_grid:
  assumes "x \<noteq> 0"
  shows "\<bar>f64_round x - x\<bar> \<le> \<bar>of_int j * 2 powi f64_exp x - x\<bar>"
proof -
  define p where "p = (2::rat) powi f64_exp x"
  define q where "q = x / p"
  have p: "0 < p" by (simp add: p_def)
  have "of_int j * p - x = (of_int j - q) * p" using p by (simp add: q_def algebra_simps)
  then show ?thesis
    using f64_round_scaled [OF assms] round_half_even_nearest [of q j] p
    by (simp add: p_def [symmetric] q_def [symmetric] abs_mult)
qed

lemma f64_round_error: "\<bar>f64_round x - x\<bar> \<le> 2 powi f64_exp x / 2"
proof (cases "x = 0")
  case False
  have "\<bar>f64_round x - x\<bar> =
      \<bar>of_int (round_half_even (x / 2 powi f64_exp x)) - x / 2 powi f64_exp x\<bar> * 2 powi f64_exp x"
    using f64_round_scaled [OF False] by (simp add: abs_mult)
  also have "\<dots> \<le> 1/2 * 2 powi f64_exp x"
    using round_half_even_bound by (intro mult_right_mono) simp_all
  finally show ?thesis by simp
qed (simp add: f64_round_def)

lemma f64_round_error_unit:
  assumes "0 < x" and "x \<le> 1"
  shows "\<bar>f64_round x - x\<bar> \<le> 1 / 2 ^ 53"
proof -
  have "x < 2 powi 1" using assms by simp
  with flog2_less [OF assms(1)] have "flog2 x < 1" by simp
  then have "f64_exp x \<le> - int 52" using assms(1) by (simp add: f64_exp_def)
  then have "(2::rat) powi f64_exp x \<le> 2 powi (- int 52)" by (rule powi_2_mono)
  then have "(2::rat) powi f64_exp x / 2 \<le> 1 / 2 ^ 53" by (simp add: powi_2_neg)
  with f64_round_error [of x] show ?thesis by linarith
qed

lemma f64_round_of_int: "\<bar>m\<bar> < 2 ^ 53 \<Longrightarrow> f64_round (of_int m) = of_int m"
  using f64_round_exact [of m 0] by simp

lemma f64_round_numeral [simp]: "numeral k < (2::int) ^ 53 \<Longrightarrow> f64_round (numeral k) = numeral k"
  using f64_round_of_int [of "numeral k"] by simp

lemma f64_round_one [simp]: "f64_round 1 = 1"
  using f64_round_of_int [of 1] by simp

lemma f64_round_zero [simp]: "f64_round 0 = 0"
  by (simp add: f64_round_def)

lemma f64_of_rat_fixed: "f64_round x = x \<Longrightarrow> \<bar>x\<bar> < 2 ^ 1024 \<Longrightarrow> f64_of_rat x = Fin x"
  by (simp add: f64_of_rat_def)

lemma pow2_53_less_1024: "(2::rat) ^ 53 < 2 ^ 1024"
  by (rule power_strict_increasing) simp_all

lemma f64_of_nat_small [simp]: "n < 2 ^ 53 \<Longrightarrow> f64_of_nat n = Fin (of_nat n)"
proof -
  assume n: "n < 2 ^ 53"
  then have "(of_nat n :: rat) < 2 ^ 53" by (metis of_nat_less_iff of_nat_numeral of_nat_power)
  then have "\<bar>of_nat n :: rat\<bar> < 2 ^ 1024" using pow2_53_less_1024 by simp
  with f64_round_of_nat [OF n] show ?thesis unfolding f64_of_nat_def by (rule f64_of_rat_fixed)
qed

lemma f64_of_rat_one [simp]: "f64_of_rat 1 = Fin 1"
  by (simp add: f64_of_rat_def)

lemma f64_of_rat_zero [simp]: "f64_of_rat 0 = Fin 0"
  by (simp add: f64_of_rat_def)

lemma f64_of_rat_dyadic:
  "\<bar>m\<bar> < 2 ^ 53 \<Longrightarrow> k \<le> 1074 \<Longrightarrow> f64_of_rat (of_int m / 2 ^ k) = Fin (of_int m / 2 ^ k)"
proof -
  assume m: "\<bar>m\<bar> < 2 ^ 53" and k: "k \<le> 1074"
  have p: "(2::rat) powi (- int k) = 1 / 2 ^ k" by (rule powi_2_neg)
  have e: "-1074 \<le> - int k" using k by simp
  have r: "f64_round (of_int m / 2 ^ k) = of_int m / 2 ^ k"
    using f64_round_exact [OF m e] unfolding p by simp
  have "\<bar>of_int m / 2 ^ k\<bar> = (of_int \<bar>m\<bar> :: rat) / 2 ^ k" by simp
  also have "\<dots> \<le> of_int \<bar>m\<bar> / 1" by (rule divide_left_mono) simp_all
  also have "(of_int \<bar>m\<bar> :: rat) / 1 < of_int (2 ^ 53)" using m by (simp only: of_int_less_iff div_by_1)
  also have "(of_int (2 ^ 53) :: rat) < 2 ^ 1024" using pow2_53_less_1024 by simp
  finally show ?thesis by (rule f64_of_rat_fixed [OF r])
qed

lemma f64_div_nat:
  assumes "0 < n" "c \<le> n" "n < 2 ^ 53"
  shows "f64_div (f64_of_nat c) (f64_of_nat n) = Fin (f64_round (of_nat c / of_nat n))"
proof -
  let ?x = "of_nat c / (of_nat n :: rat)"
  have x: "0 \<le> ?x" "?x \<le> 1" using assms by simp_all
  have "f64_round ?x \<le> f64_round 1" using x by (rule f64_round_mono)
  then have "\<bar>f64_round ?x\<bar> < 2 ^ 1024" using f64_round_nonneg [OF x(1)] by simp
  with assms show ?thesis by (simp add: f64_of_rat_def)
qed

lemma go_int_of_int:
  assumes "- (2 ^ 63) \<le> c" "c < 2 ^ 63"
  shows "go_int (Fin (of_int c)) = c"
proof -
  have "(of_int (- (2 ^ 63)) :: rat) \<le> of_int c" "(of_int c :: rat) < of_int (2 ^ 63)"
    using assms by (simp_all only: of_int_le_iff of_int_less_iff)
  then show ?thesis by simp
qed

lemma f64_round_ceiling:
  assumes x: "0 \<le> x" and xn: "x \<le> of_int n" and n: "n < 2 ^ 53"
  shows "\<lceil>f64_round x\<rceil> \<le> \<lceil>x\<rceil> \<and> \<lceil>x\<rceil> \<le> \<lceil>f64_round x\<rceil> + 1"
proof -
  define k where "k = \<lceil>x\<rceil>"
  have k0: "0 \<le> k" using x by (simp add: k_def)
  have kn: "k \<le> n" using xn by (simp add: k_def ceiling_le)
  have "f64_round x \<le> f64_round (of_int k)" using x by (intro f64_round_mono) (simp_all add: k_def)
  also have "\<dots> = of_int k" using k0 kn n by (intro f64_round_of_int) simp
  finally have up: "\<lceil>f64_round x\<rceil> \<le> k" by (simp add: ceiling_le)
  have lo: "k \<le> \<lceil>f64_round x\<rceil> + 1"
  proof (cases "k = 0")
    case True
    then show ?thesis using f64_round_nonneg [OF x] by simp
  next
    case False
    then have k1: "0 \<le> k - 1" using k0 by simp
    have "of_int (k - 1) < x" unfolding k_def by linarith
    then have "f64_round (of_int (k - 1)) \<le> f64_round x" using k1 by (intro f64_round_mono) simp_all
    moreover have "f64_round (of_int (k - 1)) = of_int (k - 1)" using k1 kn n by (intro f64_round_of_int) simp
    ultimately have "of_int (k - 1) \<le> f64_round x" by simp
    then show ?thesis by linarith
  qed
  from up lo show ?thesis by (simp add: k_def)
qed

lemma f64_round_double:
  "\<exists>m e. \<bar>m\<bar> < 2 ^ 53 \<and> -1074 \<le> e \<and> f64_round x = of_int m * 2 powi e"
proof (cases "x = 0")
  case True
  then show ?thesis by (intro exI [of _ 0] exI [of _ 0]) (simp add: f64_round_def)
next
  case False
  define E where "E = f64_exp x"
  define r where "r = round_half_even (x / 2 powi E)"
  have E0: "-1074 \<le> E" by (simp add: E_def f64_exp_def)
  have ax: "0 < \<bar>x\<bar>" using False by simp
  have "\<bar>x\<bar> < 2 powi (flog2 \<bar>x\<bar> + 1)" using flog2_bounds [OF ax] by simp
  also have "\<dots> \<le> 2 powi (53 + E)" by (intro powi_2_mono) (simp add: E_def f64_exp_def)
  also have "\<dots> = 2 powi 53 * 2 powi E" by (rule powi_2_add)
  finally have "\<bar>x\<bar> / 2 powi E < 2 powi 53" by (simp add: divide_less_eq)
  then have "\<bar>x / 2 powi E\<bar> < 2 ^ 53" by (simp add: abs_divide powi_2_nat)
  then have q: "- (2 ^ 53) < x / 2 powi E" "x / 2 powi E < 2 ^ 53" by linarith+
  have r1: "r \<le> 2 ^ 53" using round_half_even_mono [of "x / 2 powi E" "2 ^ 53"] q(2) by (simp add: r_def)
  have r2: "- (2 ^ 53) \<le> r" using round_half_even_mono [of "- (2 ^ 53)" "x / 2 powi E"] q(1) by (simp add: r_def)
  have fr: "f64_round x = of_int r * 2 powi E" using False by (simp add: f64_round_def r_def E_def)
  show ?thesis
  proof (cases "\<bar>r\<bar> < 2 ^ 53")
    case True
    with E0 fr show ?thesis by blast
  next
    case False
    with r1 r2 have "r = 2 ^ 53 \<or> r = - (2 ^ 53)" by auto
    then have "of_int r * (2::rat) powi E = of_int (r div 2) * 2 powi (E + 1) \<and> \<bar>r div 2\<bar> < 2 ^ 53"
      by (auto simp: powi_2_add)
    with E0 fr show ?thesis by (intro exI [of _ "r div 2"] exI [of _ "E + 1"]) simp
  qed
qed

subsection \<open>Correctness of the rounding\<close>

text \<open>
  Claim C24: \<open>f64_round\<close> rounds to a nearest double. For every rational \<open>x\<close> and
  every finite double \<open>m \<cdot> 2^e\<close> (\<open>|m| < 2^53\<close>, \<open>e \<ge> -1074\<close>), the rounded
  value is at least as close to \<open>x\<close> as that double, as IEEE 754 round-to-nearest
  requires of every Go float64 operation.
\<close>

theorem f64_round_nearest:
  assumes m: "\<bar>m\<bar> < 2 ^ 53" and e: "-1074 \<le> e"
  shows "(\<exists>m' e'. \<bar>m'\<bar> < 2 ^ 53 \<and> -1074 \<le> e' \<and> f64_round x = of_int m' * 2 powi e') \<and>
         \<bar>f64_round x - x\<bar> \<le> \<bar>of_int m * 2 powi e - x\<bar>"
proof (cases "x = 0")
  case True
  then show ?thesis using f64_round_double [of x] by (simp add: f64_round_def)
next
  case False
  define E where "E = f64_exp x"
  show ?thesis
  proof (cases "E \<le> e")
    case True
    have eq: "of_int m * (2::rat) powi e = of_int (m * 2 ^ nat (e - E)) * 2 powi E"
      using True powi_2_diff [of e E] by (simp add: powi_2_nat)
    show ?thesis unfolding eq E_def using f64_round_double [of x] f64_round_grid [OF False] by blast
  next
    case lt: False
    then have E: "E = flog2 \<bar>x\<bar> - 52" using e by (simp add: E_def f64_exp_def)
    have ax: "0 < \<bar>x\<bar>" using False by simp
    have lo: "2 powi (E + 52) \<le> \<bar>x\<bar>" using flog2_bounds [OF ax] by (simp add: E)
    have "of_int \<bar>m\<bar> < (2::rat) powi 53" using m by (simp add: powi_2_nat)
    then have "of_int \<bar>m\<bar> * 2 powi e < (2::rat) powi 53 * 2 powi e" by simp
    also have "\<dots> = 2 powi (53 + e)" by (simp add: powi_2_add)
    also have "\<dots> \<le> 2 powi (E + 52)" using lt by (intro powi_2_mono) simp
    finally have d: "\<bar>of_int m * 2 powi e\<bar> < (2::rat) powi (E + 52)" by (simp add: abs_mult)
    define j :: int where "j = (if 0 < x then 2 ^ 52 else - (2 ^ 52))"
    have jp: "of_int j * 2 powi E = (if 0 < x then 1 else -1) * (2::rat) powi (E + 52)"
      by (simp add: j_def powi_2_add powi_2_nat)
    have "\<bar>of_int j * 2 powi E - x\<bar> \<le> \<bar>of_int m * 2 powi e - x\<bar>"
      unfolding jp using lo d by (cases "0 < x") (auto simp: abs_if split: if_splits)
    then show ?thesis using f64_round_grid [OF False, of j] f64_round_double [of x] by (simp add: E_def)
  qed
qed

theorem f64_round_nearest_witness:
  "\<bar>3602879701896397 :: int\<bar> < 2 ^ 53 \<and> -1074 \<le> (-55 :: int) \<and>
   (\<exists>m' e'. \<bar>m'\<bar> < (2::int) ^ 53 \<and> -1074 \<le> e' \<and> f64_round (1/10) = of_int m' * 2 powi e') \<and>
   \<bar>f64_round (1/10) - 1/10\<bar> \<le> \<bar>of_int 3602879701896397 * 2 powi (-55) - (1/10 :: rat)\<bar>"
  using f64_round_nearest [of 3602879701896397 "-55" "1/10"] by simp

end
