(* ===== verification/Reader.thy ===== *)
theory Reader
  imports Arguments
begin

text \<open>
  The input side of both passes (\<open>src/arm.go\<close>, \<open>countItems\<close> and
  \<open>generateFrequentItemsets\<close>): the file is opened with \<open>os.Open\<close>, read line by line
  with a \<open>bufio.Scanner\<close>, and each line is cut at commas with \<open>strings.Split\<close>.
  The passes see a file as an \<open>input_file\<close>: either the error \<open>os.Open\<close> returned,
  or the lines the scanner yielded followed by the error \<open>scanner.Err()\<close> reports
  (\<open>None\<close> for a clean end of file). \<open>openScan\<close> computes it from the bytes of the
  file as \<open>bufio.Scanner\<close> with \<open>ScanLines\<close> does (Go's library \<open>bufio/scan.go\<close>,
  which the sources call): newline-terminated lines, a trailing carriage return dropped,
  a last line without newline kept, and \<open>ErrTooLong\<close> on a line of 64 KiB or more.
  Both passes read the same file value: the model assumes the file does not change
  between them.
\<close>

datatype input_file =
    OpenFailed string
  | Opened "string list" "string option"

text \<open>\<open>strings.Split(s, sep)\<close> for a one-byte separator: the pieces between the
  separators, so \<open>n\<close> separators give \<open>n + 1\<close> pieces and the empty line one empty piece.\<close>

fun split_sep :: "char \<Rightarrow> string \<Rightarrow> string list" where
  "split_sep c [] = [[]]"
| "split_sep c (x # xs) =
     (if x = c then [] # split_sep c xs
      else (case split_sep c xs of w # ws \<Rightarrow> (x # w) # ws | [] \<Rightarrow> [[x]]))"

text \<open>\<open>strings.Join(ws, sep)\<close>.\<close>

fun join_sep :: "char \<Rightarrow> string list \<Rightarrow> string" where
  "join_sep c [] = []"
| "join_sep c [w] = w"
| "join_sep c (w # ws) = w @ c # join_sep c ws"

text \<open>The tokens of one transaction line.\<close>

definition lineTokens :: "string \<Rightarrow> token list" where
  "lineTokens l = split_sep (CHR '','') l"

text \<open>\<open>bufio.Scanner\<close> with its default split function \<open>ScanLines\<close> and buffer limit
  \<open>MaxScanTokenSize = 64 * 1024\<close>. A token is the bytes before the next newline, or before
  the end of the data for a last line without one, with one trailing carriage return
  removed (\<open>dropCR\<close>). A line and its newline must fit in the buffer: when
  \<open>maxTokenSize\<close> bytes hold no newline, \<open>Scan\<close> fails with \<open>ErrTooLong\<close> (an
  \<open>os.File\<close> reports the end of file only by a read of zero bytes, so this holds for a
  last line too). \<open>scanLines\<close> returns the tokens and whether the scan stopped on
  \<open>ErrTooLong\<close>.\<close>

definition maxTokenSize :: nat where
  "maxTokenSize = 64 * 1024"

definition ErrTooLong :: string where
  "ErrTooLong = ''bufio.Scanner: token too long''"

definition dropCR :: "string \<Rightarrow> string" where
  "dropCR l = (if l \<noteq> [] \<and> last l = CHR 0x0D then butlast l else l)"

function scanLines :: "string \<Rightarrow> string list \<times> bool" where
  "scanLines s =
     (if s = [] then ([], False)
      else (let l = takeWhile (\<lambda>c. c \<noteq> CHR ''\<newline>'') s
            in if maxTokenSize \<le> length l then ([], True)
               else (let (ls, tooLong) = scanLines (drop (Suc (length l)) s) in (dropCR l # ls, tooLong))))"
  by auto
termination by (relation "measure length") auto

declare scanLines.simps [simp del]

text \<open>A file as the operating system gives it: the error of \<open>os.Open\<close>, or the bytes read
  followed by the error of the read that ended the data (\<open>None\<close> for the end of file).
  After a read error the scanner still yields the bytes read before it, the last line
  without its newline included.\<close>

datatype os_file =
    NoFile string
  | FileData string "string option"

definition openScan :: "os_file \<Rightarrow> input_file" where
  "openScan f =
     (case f of
        NoFile e \<Rightarrow> OpenFailed e
      | FileData bytes readErr \<Rightarrow>
          (case scanLines bytes of
             (ls, True) \<Rightarrow> Opened ls (Some ErrTooLong)
           | (ls, False) \<Rightarrow> Opened ls readErr))"

text \<open>The text of a list of lines, each ended by a newline.\<close>

definition unlines :: "string list \<Rightarrow> string" where
  "unlines ls = concat (map (\<lambda>l. l @ ''\<newline>'') ls)"

lemma split_sep_not_Nil [simp]: "split_sep c s \<noteq> []"
  by (induction s) (auto split: list.splits)

lemma split_sep_Cons_other:
  "x \<noteq> c \<Longrightarrow> split_sep c (x # xs) = (x # hd (split_sep c xs)) # tl (split_sep c xs)"
  by (cases "split_sep c xs") auto

lemma join_sep_split_sep [simp]: "join_sep c (split_sep c s) = s"
proof (induction s)
  case Nil
  then show ?case by simp
next
  case (Cons x xs)
  obtain w ws where sp: "split_sep c xs = w # ws"
    using split_sep_not_Nil by (cases "split_sep c xs") auto
  show ?case
  proof (cases "x = c")
    case True
    with Cons sp show ?thesis by simp
  next
    case False
    with Cons sp show ?thesis by (cases ws) simp_all
  qed
qed

lemma split_sep_no_sep: "c \<notin> set w \<Longrightarrow> split_sep c w = [w]"
  by (induction w) auto

lemma split_sep_pieces: "w \<in> set (split_sep c s) \<Longrightarrow> c \<notin> set w"
proof (induction s arbitrary: w)
  case Nil
  then show ?case by simp
next
  case (Cons x xs)
  then show ?case
    by (cases "split_sep c xs") (auto split: if_splits)
qed

lemma split_sep_append_sep:
  "c \<notin> set w \<Longrightarrow> split_sep c (w @ c # s) = w # split_sep c s"
  by (induction w) (auto simp: split_sep_Cons_other)

lemma split_sep_last_piece:
  "c \<notin> set f \<Longrightarrow> \<exists>v ws. split_sep c (w @ c # f) = v # ws @ [f]"
proof (induction w)
  case Nil
  then show ?case by (intro exI [of _ "[]"]) (simp add: split_sep_no_sep)
next
  case (Cons x w)
  then obtain v ws where e: "split_sep c (w @ c # f) = v # ws @ [f]" by blast
  show ?case
  proof (cases "x = c")
    case True
    with e show ?thesis by (intro exI [of _ "[]"] exI [of _ "v # ws"]) simp
  next
    case False
    with e show ?thesis by (intro exI [of _ "x # v"] exI [of _ ws]) simp
  qed
qed

lemma split_sep_join_sep:
  "ws \<noteq> [] \<Longrightarrow> (\<forall>w \<in> set ws. c \<notin> set w) \<Longrightarrow> split_sep c (join_sep c ws) = ws"
proof (induction ws)
  case Nil
  then show ?case by simp
next
  case (Cons w ws)
  show ?case
  proof (cases ws)
    case Nil
    with Cons.prems show ?thesis by (simp add: split_sep_no_sep)
  next
    case (Cons v vs)
    have "join_sep c (w # ws) = w @ c # join_sep c ws"
      using Cons by simp
    with Cons.IH Cons.prems \<open>ws = v # vs\<close> show ?thesis
      by (simp add: split_sep_append_sep)
  qed
qed

subsection \<open>The line scanner\<close>

lemma scanLines_Nil [simp]: "scanLines [] = ([], False)"
  by (simp add: scanLines.simps)

lemma scanLines_line:
  assumes "CHR ''\<newline>'' \<notin> set l" and "length l < maxTokenSize"
  shows "scanLines (l @ CHR ''\<newline>'' # s) = (dropCR l # fst (scanLines s), snd (scanLines s))"
proof -
  have tw: "takeWhile (\<lambda>c. c \<noteq> CHR ''\<newline>'') (l @ CHR ''\<newline>'' # s) = l"
    using assms(1) by (induction l) auto
  show ?thesis using assms(2) by (subst scanLines.simps) (simp add: tw split_def Let_def)
qed

lemma scanLines_last:
  assumes "CHR ''\<newline>'' \<notin> set l" and "l \<noteq> []" and "length l < maxTokenSize"
  shows "scanLines l = ([dropCR l], False)"
proof -
  have tw: "takeWhile (\<lambda>c. c \<noteq> CHR ''\<newline>'') l = l"
    using assms(1) by (auto simp: takeWhile_eq_all_conv)
  show ?thesis using assms by (subst scanLines.simps) (simp add: tw)
qed

lemma scanLines_too_long:
  assumes "maxTokenSize \<le> length (takeWhile (\<lambda>c. c \<noteq> CHR ''\<newline>'') s)"
  shows "scanLines s = ([], True)"
  using assms by (subst scanLines.simps) (auto simp: maxTokenSize_def)

lemma dropCR_id: "l = [] \<or> last l \<noteq> CHR 0x0D \<Longrightarrow> dropCR l = l"
  by (auto simp: dropCR_def)

lemma scanLines_unlines:
  assumes "\<forall>l \<in> set ls. CHR ''\<newline>'' \<notin> set l \<and> length l < maxTokenSize"
  shows "scanLines (unlines ls @ s) = (map dropCR ls @ fst (scanLines s), snd (scanLines s))"
  using assms
proof (induction ls)
  case Nil
  then show ?case by (simp add: unlines_def)
next
  case (Cons l ls)
  then have "scanLines (unlines (l # ls) @ s) =
      (dropCR l # fst (scanLines (unlines ls @ s)), snd (scanLines (unlines ls @ s)))"
    using scanLines_line [of l "unlines ls @ s"] by (simp add: unlines_def)
  with Cons show ?case by simp
qed

lemma openScan_unlines:
  assumes "\<forall>l \<in> set ls. CHR ''\<newline>'' \<notin> set l \<and> length l < maxTokenSize"
  shows "openScan (FileData (unlines ls @ s) e) =
           (if snd (scanLines s) then Opened (map dropCR ls @ fst (scanLines s)) (Some ErrTooLong)
            else Opened (map dropCR ls @ fst (scanLines s)) e)"
  using scanLines_unlines [OF assms, of s] by (simp add: openScan_def split: prod.splits bool.splits)

lemma openScan_too_long:
  assumes "\<forall>l \<in> set ls. CHR ''\<newline>'' \<notin> set l \<and> length l < maxTokenSize"
    and "maxTokenSize \<le> length (takeWhile (\<lambda>c. c \<noteq> CHR ''\<newline>'') s)"
  shows "openScan (FileData (unlines ls @ s) e) = Opened (map dropCR ls) (Some ErrTooLong)"
  using openScan_unlines [OF assms(1), of s e] scanLines_too_long [OF assms(2)] by simp

subsection \<open>Properties of the scanner\<close>

text \<open>
  Claim C21: the scanner yields the lines of the file. For a file of newline-terminated
  lines followed by a last line without newline (possibly empty), none of them 64 KiB
  long, the scanner yields every line with one trailing carriage return removed, the last
  one only when it is not empty, and then reports the error of the read that ended the
  data.
\<close>

theorem openScan_lines:
  assumes "\<forall>l \<in> set (last_line # ls). CHR ''\<newline>'' \<notin> set l \<and> length l < maxTokenSize"
  shows "openScan (FileData (unlines ls @ last_line) e) =
           Opened (map dropCR (ls @ (if last_line = [] then [] else [last_line]))) e"
proof (cases "last_line = []")
  case True
  with assms openScan_unlines [of ls "[]" e] show ?thesis by simp
next
  case False
  with assms have "scanLines last_line = ([dropCR last_line], False)" by (intro scanLines_last) simp_all
  with False assms show ?thesis by (simp add: openScan_unlines)
qed

theorem openScan_lines_witness:
  "openScan (FileData (unlines [''a,b'' @ [CHR 0x0D], ''c''] @ ''d'') None) = Opened [''a,b'', ''c'', ''d''] None"
  using openScan_lines [of "''d''" "[''a,b'' @ [CHR 0x0D], ''c'']" None]
  by (simp add: maxTokenSize_def dropCR_def)

end
