(* ===== verification/ItemCount.thy ===== *)
theory ItemCount
  imports Prelude
begin

text \<open>
  The frequency counter \<open>itemCount\<close> (spec section 3, "ItemCount"; its Go file is not
  under \<open>src/\<close>, so it is modelled from the spec): a map from items to counts with
  \<open>makeCounts\<close>, \<open>increment\<close> and \<open>get\<close>, where \<open>get\<close> of an unknown item is 0.
  The FP-tree keeps one as its per-item \<open>counts\<close> and pass 1 keeps one as the global
  \<open>frequency\<close>.
\<close>

type_synonym itemCount = "item \<rightharpoonup> nat"

definition makeCounts :: itemCount where
  "makeCounts = Map.empty"

definition get :: "itemCount \<Rightarrow> item \<Rightarrow> nat" where
  "get c i = lookup_default 0 c i"

definition increment :: "itemCount \<Rightarrow> item \<Rightarrow> nat \<Rightarrow> itemCount" where
  "increment c i n = c(i \<mapsto> get c i + n)"

text \<open>Incrementing every item of a list once, in order (the callback of pass 1).\<close>

definition increment_all :: "itemCount \<Rightarrow> item list \<Rightarrow> nat \<Rightarrow> itemCount" where
  "increment_all c its n = fold (\<lambda>i c. increment c i n) its c"

lemma get_makeCounts [simp]: "get makeCounts i = 0"
  by (simp add: get_def makeCounts_def)

lemma get_increment [simp]:
  "get (increment c i n) j = (if j = i then get c i + n else get c j)"
  by (simp add: get_def increment_def)

lemma get_increment_all:
  "get (increment_all c its n) j = get c j + n * count_list its j"
  by (induction its arbitrary: c) (simp_all add: increment_all_def)

lemma get_increment_all_distinct [simp]:
  "distinct its \<Longrightarrow> get (increment_all c its n) j = get c j + (if j \<in> set its then n else 0)"
  by (induction its arbitrary: c) (auto simp: increment_all_def)

lemma increment_all_Nil [simp]: "increment_all c [] n = c"
  by (simp add: increment_all_def)

end
