(* ===== verification/Itemizer.thy ===== *)
theory Itemizer
  imports Prelude
begin

text \<open>
  The item interner \<open>Itemizer\<close> (spec sections 3, 4.1 and scenario 6; its Go file is not
  under \<open>src/\<close>, so it is modelled from the spec). It maps tokens to dense ids in
  first-seen order and back, and offers the three operations the drivers call:
  \<open>forEachItem\<close> (pass 1: call back once per distinct non-empty token of a
  transaction, interning it), \<open>filter\<close> (pass 2: the ids of the distinct non-empty
  tokens that pass a predicate, read-only once ids are frozen) and \<open>cmp\<close> (the
  tie-breaker of the frequency sort: Go's byte-wise \<open><\<close> on the item names).
  The callback of \<open>forEachItem\<close> is returned as the list of items it is called with,
  in call order; the caller folds its effect over that list.
\<close>

record Itemizer =
  strToItem :: "token \<rightharpoonup> item"
  itemToStr :: "token list"

definition newItemizer :: Itemizer where
  "newItemizer = \<lparr>strToItem = Map.empty, itemToStr = []\<rparr>"

text \<open>Get-or-make the id of a token: a fresh id is the number of ids given so far.\<close>

definition idOf :: "Itemizer \<Rightarrow> token \<Rightarrow> item \<times> Itemizer" where
  "idOf it s =
     (case strToItem it s of
        Some i \<Rightarrow> (i, it)
      | None \<Rightarrow> (let i = length (itemToStr it)
                 in (i, it\<lparr>strToItem := (strToItem it)(s \<mapsto> i), itemToStr := itemToStr it @ [s]\<rparr>)))"

text \<open>\<open>toStr\<close>: the name of an id; an unknown id reads as Go's zero string.\<close>

definition toStr :: "Itemizer \<Rightarrow> item \<Rightarrow> token" where
  "toStr it i = (if i < length (itemToStr it) then itemToStr it ! i else [])"

fun forEach_loop :: "Itemizer \<Rightarrow> item list \<Rightarrow> token list \<Rightarrow> Itemizer \<times> item list" where
  "forEach_loop it seen [] = (it, seen)"
| "forEach_loop it seen (t # ts) =
     (if t = [] then forEach_loop it seen ts
      else (case idOf it t of (i, it') \<Rightarrow>
              if i \<in> set seen then forEach_loop it' seen ts
              else forEach_loop it' (seen @ [i]) ts))"

definition forEachItem :: "Itemizer \<Rightarrow> token list \<Rightarrow> Itemizer \<times> item list" where
  "forEachItem it ts = forEach_loop it [] ts"

fun filter_loop :: "Itemizer \<Rightarrow> (item \<Rightarrow> bool) \<Rightarrow> item list \<Rightarrow> token list \<Rightarrow> item list" where
  "filter_loop it p acc [] = acc"
| "filter_loop it p acc (t # ts) =
     (case strToItem it t of
        None \<Rightarrow> filter_loop it p acc ts
      | Some i \<Rightarrow> if t = [] \<or> i \<in> set acc \<or> \<not> p i then filter_loop it p acc ts
                  else filter_loop it p (acc @ [i]) ts)"

definition itemizer_filter :: "Itemizer \<Rightarrow> token list \<Rightarrow> (item \<Rightarrow> bool) \<Rightarrow> item list" where
  "itemizer_filter it ts p = filter_loop it p [] ts"

text \<open>Go's \<open><\<close> on strings: lexicographic on the bytes.\<close>

fun go_str_less :: "string \<Rightarrow> string \<Rightarrow> bool" where
  "go_str_less [] ys = (ys \<noteq> [])"
| "go_str_less (x # xs) [] = False"
| "go_str_less (x # xs) (y # ys) =
     ((of_char x :: nat) < of_char y \<or> x = y \<and> go_str_less xs ys)"

definition cmp :: "Itemizer \<Rightarrow> item \<Rightarrow> item \<Rightarrow> bool" where
  "cmp it a b = go_str_less (toStr it a) (toStr it b)"

text \<open>
  The interner's invariant (as for a pointer map): the names are distinct, each name's
  id is its position, every id the map gives is a position, and the empty token is
  never interned.
\<close>

definition itemizer_ok :: "Itemizer \<Rightarrow> bool" where
  "itemizer_ok it \<longleftrightarrow>
     distinct (itemToStr it) \<and> [] \<notin> set (itemToStr it) \<and>
     (\<forall>i < length (itemToStr it). strToItem it (itemToStr it ! i) = Some i) \<and>
     (\<forall>s i. strToItem it s = Some i \<longrightarrow> i < length (itemToStr it) \<and> itemToStr it ! i = s)"

text \<open>\<open>it'\<close> extends \<open>it\<close>: no id is forgotten or reassigned.\<close>

definition itemizer_le :: "Itemizer \<Rightarrow> Itemizer \<Rightarrow> bool" where
  "itemizer_le it it' \<longleftrightarrow> strToItem it \<subseteq>\<^sub>m strToItem it' \<and>
     take (length (itemToStr it)) (itemToStr it') = itemToStr it"

lemma itemizer_ok_new [simp]: "itemizer_ok newItemizer"
  by (simp add: itemizer_ok_def newItemizer_def)

lemma itemizer_le_refl [simp]: "itemizer_le it it"
  by (simp add: itemizer_le_def)

lemma itemizer_le_trans:
  "itemizer_le a b \<Longrightarrow> itemizer_le b c \<Longrightarrow> itemizer_le a c"
  unfolding itemizer_le_def
  by (metis (no_types, lifting) map_le_trans length_take take_take)

lemma itemizer_ok_inj:
  "itemizer_ok it \<Longrightarrow> strToItem it s = Some i \<Longrightarrow> strToItem it t = Some i \<Longrightarrow> s = t"
  unfolding itemizer_ok_def by metis

lemma itemizer_ok_toStr:
  "itemizer_ok it \<Longrightarrow> strToItem it s = Some i \<Longrightarrow> toStr it i = s"
  by (auto simp: itemizer_ok_def toStr_def)

lemma itemizer_ok_toStr_ne:
  "itemizer_ok it \<Longrightarrow> strToItem it s = Some i \<Longrightarrow> toStr it i \<noteq> []"
  unfolding itemizer_ok_def toStr_def by (metis nth_mem)

lemma idOf_known:
  "strToItem it s = Some i \<Longrightarrow> idOf it s = (i, it)"
  by (simp add: idOf_def)

lemma idOf_ok:
  assumes "itemizer_ok it" and "s \<noteq> []" and "idOf it s = (i, it')"
  shows "itemizer_ok it' \<and> strToItem it' s = Some i \<and> itemizer_le it it'"
proof (cases "strToItem it s")
  case None
  have notin: "s \<notin> set (itemToStr it)"
    using assms(1) None by (auto simp: itemizer_ok_def in_set_conv_nth)
  have i: "i = length (itemToStr it)"
    and it': "it' = it\<lparr>strToItem := (strToItem it)(s \<mapsto> i), itemToStr := itemToStr it @ [s]\<rparr>"
    using assms(3) None by (auto simp: idOf_def Let_def)
  have "itemizer_ok it'"
    using assms(1,2) notin unfolding it' i itemizer_ok_def
    by (auto simp: nth_append less_Suc_eq)
  moreover have "itemizer_le it it'"
    using None unfolding it' i itemizer_le_def by (auto simp: map_le_def)
  ultimately show ?thesis by (simp add: it')
next
  case (Some j)
  then show ?thesis using assms(1,3) by (auto simp: idOf_def)
qed

lemma itemizer_le_known:
  "itemizer_le it it' \<Longrightarrow> strToItem it s = Some i \<Longrightarrow> strToItem it' s = Some i"
  by (auto simp: itemizer_le_def map_le_def dom_def)

text \<open>What one call of \<open>forEachItem\<close> does: it keeps the invariant, interns every
  non-empty token, and calls back exactly once for each distinct one of them.\<close>

lemma forEach_loop_spec:
  assumes "itemizer_ok it" and "distinct seen" and "forEach_loop it seen ts = (it', out)"
  shows "itemizer_ok it' \<and> itemizer_le it it' \<and> distinct out \<and>
         (\<forall>t \<in> set ts. t \<noteq> [] \<longrightarrow> t \<in> dom (strToItem it')) \<and>
         set out = set seen \<union> {i. \<exists>t \<in> set ts. t \<noteq> [] \<and> strToItem it' t = Some i}"
  using assms
proof (induction it seen ts rule: forEach_loop.induct)
  case (1 it seen)
  then show ?case by simp
next
  case (2 it seen t ts)
  show ?case
  proof (cases "t = []")
    case True
    with "2.IH"(1) "2.prems" show ?thesis by auto
  next
    case False
    obtain i it1 where io: "idOf it t = (i, it1)" by fastforce
    from idOf_ok [OF "2.prems"(1) False io]
    have ok1: "itemizer_ok it1" and ti: "strToItem it1 t = Some i" and le1: "itemizer_le it it1"
      by auto
    show ?thesis
    proof (cases "i \<in> set seen")
      case True
      with "2.prems"(3) False io have run: "forEach_loop it1 seen ts = (it', out)" by simp
      from "2.IH"(2) [OF False io [symmetric] True ok1 "2.prems"(2) run]
      have ih: "itemizer_ok it' \<and> itemizer_le it1 it' \<and> distinct out \<and>
         (\<forall>t \<in> set ts. t \<noteq> [] \<longrightarrow> t \<in> dom (strToItem it')) \<and>
         set out = set seen \<union> {i. \<exists>t \<in> set ts. t \<noteq> [] \<and> strToItem it' t = Some i}" .
      have "strToItem it' t = Some i" using ih ti itemizer_le_known by blast
      with ih True le1 show ?thesis by (auto intro: itemizer_le_trans)
    next
      case notin: False
      with "2.prems"(3) False io have run: "forEach_loop it1 (seen @ [i]) ts = (it', out)" by simp
      have "distinct (seen @ [i])" using "2.prems"(2) notin by simp
      from "2.IH"(3) [OF False io [symmetric] notin ok1 this run]
      have ih: "itemizer_ok it' \<and> itemizer_le it1 it' \<and> distinct out \<and>
         (\<forall>t \<in> set ts. t \<noteq> [] \<longrightarrow> t \<in> dom (strToItem it')) \<and>
         set out = set (seen @ [i]) \<union> {i. \<exists>t \<in> set ts. t \<noteq> [] \<and> strToItem it' t = Some i}" .
      have "strToItem it' t = Some i" using ih ti itemizer_le_known by blast
      with ih False le1 show ?thesis by (auto intro: itemizer_le_trans)
    qed
  qed
qed

text \<open>\<open>filter\<close> on a frozen interner: the distinct ids of the known non-empty tokens
  that pass the predicate.\<close>

lemma filter_loop_spec:
  "distinct acc \<Longrightarrow>
   distinct (filter_loop it p acc ts) \<and>
   set (filter_loop it p acc ts) =
     set acc \<union> {i. \<exists>t \<in> set ts. t \<noteq> [] \<and> strToItem it t = Some i \<and> p i}"
  by (induction it p acc ts rule: filter_loop.induct) (auto split: option.splits)

lemma itemizer_filter_spec:
  "distinct (itemizer_filter it ts p) \<and>
   set (itemizer_filter it ts p) = {i. \<exists>t \<in> set ts. t \<noteq> [] \<and> strToItem it t = Some i \<and> p i}"
  using filter_loop_spec [of "[]" it p ts] by (simp add: itemizer_filter_def)

subsection \<open>Go's string order is a strict total order\<close>

lemma go_str_less_irrefl [simp]: "\<not> go_str_less xs xs"
  by (induction xs) auto

lemma go_str_less_trans:
  "go_str_less xs ys \<Longrightarrow> go_str_less ys zs \<Longrightarrow> go_str_less xs zs"
proof (induction xs arbitrary: ys zs)
  case Nil
  then show ?case by (cases ys; cases zs) auto
next
  case (Cons x xs)
  then show ?case by (cases ys; cases zs) auto
qed

lemma go_str_less_total:
  "xs \<noteq> ys \<Longrightarrow> go_str_less xs ys \<or> go_str_less ys xs"
proof (induction xs arbitrary: ys)
  case Nil
  then show ?case by (cases ys) auto
next
  case (Cons x xs)
  then show ?case
    by (cases ys) (auto simp: linorder_neq_iff dest: arg_cong [where f = "of_char :: char \<Rightarrow> nat"])
qed

lemma go_str_less_asym: "go_str_less xs ys \<Longrightarrow> \<not> go_str_less ys xs"
  using go_str_less_trans go_str_less_irrefl by blast

text \<open>Hence \<open>cmp\<close> is a strict total order on the ids an interner has given.\<close>

lemma cmp_total:
  assumes "itemizer_ok it" and "a < length (itemToStr it)" and "b < length (itemToStr it)"
    and "a \<noteq> b"
  shows "cmp it a b \<or> cmp it b a"
proof -
  have "itemToStr it ! a \<noteq> itemToStr it ! b"
    using assms by (simp add: itemizer_ok_def nth_eq_iff_index_eq)
  then show ?thesis
    using assms(2,3) go_str_less_total by (simp add: cmp_def toStr_def)
qed

lemma cmp_irrefl [simp]: "\<not> cmp it a a"
  by (simp add: cmp_def)

lemma cmp_trans: "cmp it a b \<Longrightarrow> cmp it b c \<Longrightarrow> cmp it a c"
  unfolding cmp_def by (rule go_str_less_trans)

end
