(* ===== verification/Pass1.thy ===== *)
theory Pass1
  imports Reader ItemCount Itemizer
begin

text \<open>
  Pass 1, \<open>countItems\<close> (\<open>src/arm.go\<close> lines 120-144; the same loop, with
  \<open>check\<close> panics in place of returned errors, is \<open>countItems\<close> in
  \<open>src/unnamed/part_001\<close>). For each scanned line it increments
  \<open>numTransactions\<close> and, through \<open>itemizer.forEachItem\<close>, increments
  \<open>frequency\<close> once for each distinct non-empty token of the line. An \<open>os.Open\<close>
  error or a scanner error is returned as the function's error.
\<close>

text \<open>The scanning loop: the state is the interner, the counter and
  \<open>numTransactions\<close>.\<close>

fun countLines :: "Itemizer \<Rightarrow> itemCount \<Rightarrow> nat \<Rightarrow> string list \<Rightarrow> Itemizer \<times> itemCount \<times> nat" where
  "countLines it freq n [] = (it, freq, n)"
| "countLines it freq n (l # ls) =
     (case forEachItem it (lineTokens l) of
        (it', items) \<Rightarrow> countLines it' (increment_all freq items 1) (Suc n) ls)"

definition countItems :: "input_file \<Rightarrow> arm_error + (Itemizer \<times> itemCount \<times> nat)" where
  "countItems f =
     (case f of
        OpenFailed e \<Rightarrow> Inl (ErrIO e)
      | Opened ls err \<Rightarrow>
          (case countLines newItemizer makeCounts 0 ls of
             (it, freq, n) \<Rightarrow>
               (case err of Some e \<Rightarrow> Inl (ErrIO e) | None \<Rightarrow> Inr (it, freq, n))))"

text \<open>The number of lines whose tokens contain \<open>s\<close>: the support of the item named
  \<open>s\<close> in the sense of the spec.\<close>

definition lines_with :: "string list \<Rightarrow> token \<Rightarrow> nat" where
  "lines_with ls s = length (filter (\<lambda>l. s \<in> set (lineTokens l)) ls)"

lemma lines_with_Nil [simp]: "lines_with [] s = 0"
  by (simp add: lines_with_def)

lemma lines_with_Cons [simp]:
  "lines_with (l # ls) s = (if s \<in> set (lineTokens l) then Suc (lines_with ls s) else lines_with ls s)"
  by (simp add: lines_with_def)

text \<open>One line of pass 1: the interner grows, and the counter gains 1 at the final id
  of each token of the line and nothing elsewhere.\<close>

lemma forEachItem_line:
  assumes ok: "itemizer_ok it" and run: "forEachItem it ts = (it1, items)"
    and le: "itemizer_le it1 it'" and ok': "itemizer_ok it'"
  shows "itemizer_ok it1 \<and> itemizer_le it it1 \<and> distinct items \<and>
    (\<forall>t \<in> set ts. t \<noteq> [] \<longrightarrow> t \<in> dom (strToItem it1)) \<and>
    (\<forall>s i. strToItem it' s = Some i \<longrightarrow> (i \<in> set items \<longleftrightarrow> s \<in> set ts)) \<and>
    (\<forall>i. (\<forall>s. strToItem it' s \<noteq> Some i) \<longrightarrow> i \<notin> set items)"
proof -
  have spec: "itemizer_ok it1 \<and> itemizer_le it it1 \<and> distinct items \<and>
         (\<forall>t \<in> set ts. t \<noteq> [] \<longrightarrow> t \<in> dom (strToItem it1)) \<and>
         set items = {i. \<exists>t \<in> set ts. t \<noteq> [] \<and> strToItem it1 t = Some i}"
    using forEach_loop_spec [OF ok _ run [unfolded forEachItem_def]] by simp
  have mem: "i \<in> set items \<longleftrightarrow> (\<exists>t \<in> set ts. t \<noteq> [] \<and> strToItem it' t = Some i)" for i
  proof
    assume "i \<in> set items"
    then obtain t where "t \<in> set ts" "t \<noteq> []" "strToItem it1 t = Some i" using spec by auto
    then show "\<exists>t \<in> set ts. t \<noteq> [] \<and> strToItem it' t = Some i"
      using le itemizer_le_known by blast
  next
    assume "\<exists>t \<in> set ts. t \<noteq> [] \<and> strToItem it' t = Some i"
    then obtain t where t: "t \<in> set ts" "t \<noteq> []" "strToItem it' t = Some i" by blast
    then obtain j where j: "strToItem it1 t = Some j" using spec by blast
    then have "strToItem it' t = Some j" using le itemizer_le_known by blast
    with t j show "i \<in> set items" using spec by auto
  qed
  have nonempty: "strToItem it' s = Some i \<Longrightarrow> s \<noteq> []" for s i
    using ok' itemizer_ok_toStr itemizer_ok_toStr_ne by metis
  have by_name: "i \<in> set items \<longleftrightarrow> s \<in> set ts" if si: "strToItem it' s = Some i" for s i
  proof
    assume "i \<in> set items"
    then obtain t where "t \<in> set ts" "strToItem it' t = Some i" using mem by blast
    with si show "s \<in> set ts" using itemizer_ok_inj [OF ok'] by metis
  next
    assume "s \<in> set ts"
    with si nonempty [OF si] show "i \<in> set items" using mem by blast
  qed
  have unnamed: "i \<notin> set items" if "\<forall>s. strToItem it' s \<noteq> Some i" for i
    using that mem by blast
  from spec by_name unnamed show ?thesis by simp
qed

lemma countLines_spec:
  assumes "itemizer_ok it" and "countLines it freq n ls = (it', freq', n')"
  shows "n' = n + length ls \<and> itemizer_ok it' \<and> itemizer_le it it' \<and>
    (\<forall>l \<in> set ls. \<forall>t \<in> set (lineTokens l). t \<noteq> [] \<longrightarrow> t \<in> dom (strToItem it')) \<and>
    (\<forall>s i. strToItem it' s = Some i \<longrightarrow> get freq' i = get freq i + lines_with ls s) \<and>
    (\<forall>i. (\<forall>s. strToItem it' s \<noteq> Some i) \<longrightarrow> get freq' i = get freq i)"
  using assms
proof (induction it freq n ls rule: countLines.induct)
  case (1 it freq n)
  then show ?case by simp
next
  case (2 it freq n l ls)
  obtain it1 items where fe: "forEachItem it (lineTokens l) = (it1, items)" by fastforce
  with "2.prems" have run: "countLines it1 (increment_all freq items 1) (Suc n) ls = (it', freq', n')"
    by simp
  have ok1: "itemizer_ok it1"
    using forEach_loop_spec [OF "2.prems"(1) _ fe [unfolded forEachItem_def]] by simp
  note IH = "2.IH" [OF fe [symmetric] ok1 run]
  have line: "itemizer_ok it1 \<and> itemizer_le it it1 \<and> distinct items \<and>
    (\<forall>t \<in> set (lineTokens l). t \<noteq> [] \<longrightarrow> t \<in> dom (strToItem it1)) \<and>
    (\<forall>s i. strToItem it' s = Some i \<longrightarrow> (i \<in> set items \<longleftrightarrow> s \<in> set (lineTokens l))) \<and>
    (\<forall>i. (\<forall>s. strToItem it' s \<noteq> Some i) \<longrightarrow> i \<notin> set items)"
    using forEachItem_line [OF "2.prems"(1) fe] IH by blast
  have dom1: "\<forall>t \<in> set (lineTokens l). t \<noteq> [] \<longrightarrow> t \<in> dom (strToItem it')"
    using line IH itemizer_le_known by blast
  from IH line dom1 show ?case
    by (auto intro: itemizer_le_trans)
qed

text \<open>Pass 1 interns nothing but the tokens it reads.\<close>

lemma idOf_dom:
  "idOf it t = (i, it1) \<Longrightarrow> dom (strToItem it1) \<subseteq> insert t (dom (strToItem it))"
  by (auto simp: idOf_def Let_def split: option.splits)

lemma forEach_loop_dom:
  "forEach_loop it seen ts = (it', out) \<Longrightarrow> dom (strToItem it') \<subseteq> dom (strToItem it) \<union> set ts"
proof (induction it seen ts rule: forEach_loop.induct)
  case (1 it seen)
  then show ?case by simp
next
  case (2 it seen t ts)
  show ?case
  proof (cases "t = []")
    case True
    with "2.IH"(1) "2.prems" show ?thesis by auto
  next
    case False
    obtain i it1 where io: "idOf it t = (i, it1)" by fastforce
    have d1: "dom (strToItem it1) \<subseteq> insert t (dom (strToItem it))"
      using io by (rule idOf_dom)
    show ?thesis
    proof (cases "i \<in> set seen")
      case True
      with "2.prems" False io have "forEach_loop it1 seen ts = (it', out)" by simp
      from "2.IH"(2) [OF False io [symmetric] True this] d1 show ?thesis by auto
    next
      case notin: False
      with "2.prems" False io have "forEach_loop it1 (seen @ [i]) ts = (it', out)" by simp
      from "2.IH"(3) [OF False io [symmetric] notin this] d1 show ?thesis by auto
    qed
  qed
qed

lemma countLines_dom:
  "countLines it freq n ls = (it', freq', n') \<Longrightarrow>
   dom (strToItem it') \<subseteq> dom (strToItem it) \<union> (\<Union>l \<in> set ls. set (lineTokens l))"
proof (induction it freq n ls rule: countLines.induct)
  case (1 it freq n)
  then show ?case by simp
next
  case (2 it freq n l ls)
  obtain it1 items where fe: "forEachItem it (lineTokens l) = (it1, items)" by fastforce
  have d1: "dom (strToItem it1) \<subseteq> dom (strToItem it) \<union> set (lineTokens l)"
    using forEach_loop_dom fe by (simp add: forEachItem_def)
  from "2.prems" fe have "countLines it1 (increment_all freq items 1) (Suc n) ls = (it', freq', n')"
    by simp
  from "2.IH" [OF fe [symmetric] this] d1 show ?case by auto
qed

text \<open>
  Claim C4: pass 1 counts each item once per transaction that contains it. On a file read
  without error, \<open>countItems\<close> returns \<open>numTransactions\<close> equal to the number of
  lines, an interner that has interned exactly the non-empty tokens of the file, and a
  frequency that is, for every interned token, the number of lines containing it, and 0
  for every id the interner never gave (spec section 8, first invariant, and scenario 6).
\<close>

theorem countItems_frequency:
  "\<exists>it freq. countItems (Opened ls None) = Inr (it, freq, length ls) \<and> itemizer_ok it \<and>
     (\<forall>s. s \<noteq> [] \<longrightarrow> (s \<in> dom (strToItem it) \<longleftrightarrow> (\<exists>l \<in> set ls. s \<in> set (lineTokens l)))) \<and>
     (\<forall>s i. strToItem it s = Some i \<longrightarrow> get freq i = lines_with ls s) \<and>
     (\<forall>i. i \<notin> ran (strToItem it) \<longrightarrow> get freq i = 0)"
proof -
  obtain it freq n where run: "countLines newItemizer makeCounts 0 ls = (it, freq, n)"
    by (cases "countLines newItemizer makeCounts 0 ls") auto
  note spec = countLines_spec [OF itemizer_ok_new run]
  have n: "n = length ls" and ok: "itemizer_ok it"
    and cov: "\<forall>l \<in> set ls. \<forall>t \<in> set (lineTokens l). t \<noteq> [] \<longrightarrow> t \<in> dom (strToItem it)"
    and cnt: "\<forall>s i. strToItem it s = Some i \<longrightarrow> get freq i = lines_with ls s"
    and zero: "\<forall>i. (\<forall>s. strToItem it s \<noteq> Some i) \<longrightarrow> get freq i = 0"
    using spec by simp_all
  have dom: "dom (strToItem it) \<subseteq> (\<Union>l \<in> set ls. set (lineTokens l))"
    using countLines_dom [OF run] by (simp add: newItemizer_def)
  have res: "countItems (Opened ls None) = Inr (it, freq, length ls)"
    using run n by (simp add: countItems_def)
  have iff: "s \<in> dom (strToItem it) \<longleftrightarrow> (\<exists>l \<in> set ls. s \<in> set (lineTokens l))"
    if "s \<noteq> []" for s
    using that cov dom by blast
  have unnamed: "get freq i = 0" if "i \<notin> ran (strToItem it)" for i
    using that zero by (simp add: ran_def)
  show ?thesis
    using res ok iff cnt unnamed by blast
qed

text \<open>The claim at spec scenario 1: the item \<open>a\<close> occurs in all four lines.\<close>

theorem countItems_frequency_witness:
  "\<exists>it freq. countItems (Opened [''a,b,c'', ''a,b'', ''a,c'', ''a''] None) = Inr (it, freq, 4) \<and>
     (\<forall>i. strToItem it ''a'' = Some i \<longrightarrow> get freq i = 4) \<and> ''a'' \<in> dom (strToItem it)"
proof -
  let ?ls = "[''a,b,c'', ''a,b'', ''a,c'', ''a'']"
  have w: "lines_with ?ls ''a'' = 4" and occ: "\<exists>l \<in> set ?ls. ''a'' \<in> set (lineTokens l)"
    by (simp_all add: lines_with_def lineTokens_def)
  from countItems_frequency [of ?ls] obtain it freq where
    r: "countItems (Opened ?ls None) = Inr (it, freq, length ?ls)" and
    d: "\<forall>s. s \<noteq> [] \<longrightarrow> (s \<in> dom (strToItem it) \<longleftrightarrow> (\<exists>l \<in> set ?ls. s \<in> set (lineTokens l)))" and
    c: "\<forall>s i. strToItem it s = Some i \<longrightarrow> get freq i = lines_with ?ls s"
    by blast
  have r4: "countItems (Opened ?ls None) = Inr (it, freq, 4)"
    using r by simp
  have a_dom: "''a'' \<in> dom (strToItem it)"
    using d [rule_format, of "''a''"] occ by simp
  have a_cnt: "\<forall>i. strToItem it ''a'' = Some i \<longrightarrow> get freq i = 4"
    using c w by simp
  show ?thesis
    using r4 a_dom a_cnt by blast
qed

text \<open>A successful pass 1 read the whole file without error, and its interner is
  well formed.\<close>

lemma countItems_ok:
  assumes "countItems f = Inr (it, freq, n)"
  shows "itemizer_ok it \<and> (\<exists>ls. f = Opened ls None)"
proof (cases f)
  case (OpenFailed e)
  with assms show ?thesis by (simp add: countItems_def)
next
  case (Opened ls err)
  obtain it' freq' n' where run: "countLines newItemizer makeCounts 0 ls = (it', freq', n')"
    by (cases "countLines newItemizer makeCounts 0 ls") auto
  with assms Opened have "it' = it" and "err = None"
    by (auto simp: countItems_def split: option.splits)
  with countLines_spec [OF itemizer_ok_new run] Opened show ?thesis by simp
qed

text \<open>The definitions a concrete run of pass 1 unfolds, for evaluation by \<open>simp\<close>.\<close>

lemmas pass1_eval = countItems_def forEachItem_def idOf_def newItemizer_def lineTokens_def
  makeCounts_def increment_all_def increment_def get_def lookup_default_def

end
