(* ===== verification/FPTree.thy ===== *)
theory FPTree
  imports ItemCount
begin

text \<open>
  The FP-tree (spec sections 3, 4.2 and 9; its Go file is not under \<open>src/\<close>, so the
  tree is modelled from the spec). As the spec's design note prescribes, the tree is an
  arena: a list of nodes addressed by their index, the root at index 0, and the
  \<open>parent\<close>, \<open>children\<close> and \<open>nextInHeader\<close> references are indices. The header
  table \<open>itemList\<close> maps an item to the newest node of that item; the nodes of an item
  are chained from there through \<open>nextInHeader\<close>. \<open>counts\<close> is the per-item total.
  \<open>Insert\<close> walks from the root, adding the weight to every node it passes (the root
  included), creating a missing child at the head of its item's header chain.
  The two pointer walks of the code (the header chain, the parent chain) are loops that
  would not end on a cyclic structure; the model runs them with fuel equal to the number
  of nodes, and running out (or a dangling index) is \<open>None\<close>.
\<close>

record fpNode =
  nitem :: "item option"
  ncount :: nat
  nparent :: "nat option"
  nchildren :: "item \<rightharpoonup> nat"
  nnext :: "nat option"

record fpTree =
  nodes :: "fpNode list"
  itemList :: "item \<rightharpoonup> nat"
  counts :: itemCount

definition rootNode :: fpNode where
  "rootNode = \<lparr>nitem = None, ncount = 0, nparent = None, nchildren = Map.empty, nnext = None\<rparr>"

definition newTree :: fpTree where
  "newTree = \<lparr>nodes = [rootNode], itemList = Map.empty, counts = makeCounts\<rparr>"

text \<open>\<open>n.count += w\<close>.\<close>

definition add_count :: "fpTree \<Rightarrow> nat \<Rightarrow> nat \<Rightarrow> fpTree" where
  "add_count t n w =
     t\<lparr>nodes := (nodes t)[n := (nodes t ! n)\<lparr>ncount := ncount (nodes t ! n) + w\<rparr>]\<rparr>"

text \<open>The child of \<open>cur\<close> for item \<open>i\<close>, created when absent: the new node gets the
  next free index, \<open>cur\<close> as parent, the old head of \<open>itemList[i]\<close> as
  \<open>nextInHeader\<close>, and becomes the new head.\<close>

definition getChild :: "fpTree \<Rightarrow> nat \<Rightarrow> item \<Rightarrow> nat \<times> fpTree" where
  "getChild t cur i =
     (case nchildren (nodes t ! cur) i of
        Some c \<Rightarrow> (c, t)
      | None \<Rightarrow>
          (let c = length (nodes t);
               nd = \<lparr>nitem = Some i, ncount = 0, nparent = Some cur, nchildren = Map.empty,
                     nnext = itemList t i\<rparr>;
               ns = (nodes t)[cur := (nodes t ! cur)\<lparr>nchildren := (nchildren (nodes t ! cur))(i \<mapsto> c)\<rparr>]
           in (c, t\<lparr>nodes := ns @ [nd], itemList := (itemList t)(i \<mapsto> c)\<rparr>)))"

fun insert_from :: "fpTree \<Rightarrow> nat \<Rightarrow> item list \<Rightarrow> nat \<Rightarrow> fpTree" where
  "insert_from t cur [] w = t"
| "insert_from t cur (i # is) w =
     (case getChild t cur i of
        (c, t') \<Rightarrow> insert_from ((add_count t' c w)\<lparr>counts := increment (counts t') i w\<rparr>) c is w)"

definition Insert :: "fpTree \<Rightarrow> item list \<Rightarrow> nat \<Rightarrow> fpTree" where
  "Insert t path w = insert_from (add_count t 0 w) 0 path w"

text \<open>The header chain of an item, newest node first.\<close>

fun chain_fuel :: "fpNode list \<Rightarrow> nat \<Rightarrow> nat option \<Rightarrow> nat list option" where
  "chain_fuel ns f None = Some []"
| "chain_fuel ns 0 (Some n) = None"
| "chain_fuel ns (Suc f) (Some n) =
     (if n < length ns then map_option (Cons n) (chain_fuel ns f (nnext (ns ! n))) else None)"

definition headerNodes :: "fpTree \<Rightarrow> nat option \<Rightarrow> nat list option" where
  "headerNodes t head = chain_fuel (nodes t) (length (nodes t)) head"

text \<open>The items of the ancestors of a node, root excluded, top-down: the walk starts at
  the parent and prepends each item until it reaches the root.\<close>

fun up_fuel :: "fpNode list \<Rightarrow> nat \<Rightarrow> nat \<Rightarrow> item list \<Rightarrow> item list option" where
  "up_fuel ns 0 m acc = None"
| "up_fuel ns (Suc f) m acc =
     (if m < length ns then
        (case nparent (ns ! m) of
           None \<Rightarrow> Some acc
         | Some p \<Rightarrow> up_fuel ns f p (case nitem (ns ! m) of None \<Rightarrow> acc | Some i \<Rightarrow> i # acc))
      else None)"

definition prefixPath :: "fpTree \<Rightarrow> nat \<Rightarrow> item list option" where
  "prefixPath t n =
     (if n < length (nodes t) then
        (case nparent (nodes t ! n) of
           None \<Rightarrow> Some []
         | Some p \<Rightarrow> up_fuel (nodes t) (length (nodes t)) p [])
      else None)"

end
