(* ===== verification/Patterns.thy ===== *)
theory Patterns
  imports Prelude
begin

text \<open>
  Frequent itemsets of a multiset of transactions, independently of any tree: the support
  of an itemset (the number of transactions containing it), the conditional pattern base
  of an item (the part before the item of every transaction containing it), and
  \<open>mined M P m\<close>, the multiset of all non-empty itemsets with support above \<open>m\<close>, each
  once, extended by the prefix \<open>P\<close> and paired with its support. When every transaction
  is sorted by an asymmetric relation \<open>lt\<close>, the frequent itemsets split by their last
  item in that order, and those ending in \<open>x\<close> are \<open>{x}\<close> and \<open>x\<close> added to the frequent
  itemsets of the conditional pattern base of \<open>x\<close> (\<open>mined_split\<close>): one level of
  the FP-Growth recursion.
\<close>

text \<open>The support of an itemset in a multiset of transactions, and the conditional pattern
  base of an item: the prefix before the item of every transaction that contains it.\<close>

definition supp :: "item list multiset \<Rightarrow> item set \<Rightarrow> nat" where
  "supp M S = size (filter_mset (\<lambda>p. S \<subseteq> set p) M)"

definition cond_db :: "item list multiset \<Rightarrow> item \<Rightarrow> item list multiset" where
  "cond_db M x = image_mset (takeWhile (\<lambda>y. y \<noteq> x)) (filter_mset (\<lambda>p. x \<in> set p) M)"

definition freq_sets :: "item list multiset \<Rightarrow> nat \<Rightarrow> item set set" where
  "freq_sets M m = {S. S \<noteq> {} \<and> m < supp M S}"

definition mined :: "item list multiset \<Rightarrow> item set \<Rightarrow> nat \<Rightarrow> (item set \<times> nat) multiset" where
  "mined M P m = image_mset (\<lambda>S. (P \<union> S, supp M S)) (mset_set (freq_sets M m))"

definition sorted_db :: "(item \<Rightarrow> item \<Rightarrow> bool) \<Rightarrow> item list multiset \<Rightarrow> bool" where
  "sorted_db lt M \<longleftrightarrow> (\<forall>p \<in># M. sorted_wrt lt p)"

definition db_size :: "item list multiset \<Rightarrow> nat" where
  "db_size M = sum_mset (image_mset length M)"

text \<open>\<open>x\<close> is the last item of \<open>S\<close> in the order \<open>lt\<close>; the frequent itemsets ending in
  \<open>x\<close>.\<close>

definition last_of :: "(item \<Rightarrow> item \<Rightarrow> bool) \<Rightarrow> item set \<Rightarrow> item \<Rightarrow> bool" where
  "last_of lt S x \<longleftrightarrow> x \<in> S \<and> (\<forall>y \<in> S. y \<noteq> x \<longrightarrow> lt y x)"

definition ends :: "(item \<Rightarrow> item \<Rightarrow> bool) \<Rightarrow> item list multiset \<Rightarrow> nat \<Rightarrow> item \<Rightarrow> item set set" where
  "ends lt M m x = {S \<in> freq_sets M m. last_of lt S x}"

lemma filter_replicate_mset:
  "filter_mset P (replicate_mset n a) = (if P a then replicate_mset n a else {#})"
  by (induction n) auto

lemma supp_add_replicate:
  "supp (M + replicate_mset w p) S = supp M S + (if S \<subseteq> set p then w else 0)"
  by (simp add: supp_def filter_replicate_mset)

lemma cond_db_add_replicate:
  "cond_db (M + replicate_mset w p) x =
     cond_db M x + (if x \<in> set p then replicate_mset w (takeWhile (\<lambda>y. y \<noteq> x) p) else {#})"
  by (simp add: cond_db_def filter_replicate_mset)

lemma supp_empty [simp]: "supp {#} S = 0"
  by (simp add: supp_def)

lemma supp_add_mset [simp]: "supp (add_mset p M) S = supp M S + (if S \<subseteq> set p then 1 else 0)"
  by (simp add: supp_def)

lemma supp_mono: "S \<subseteq> T \<Longrightarrow> supp M T \<le> supp M S"
  by (induction M) auto

lemma supp_pos: "0 < supp M S \<Longrightarrow> \<exists>p \<in># M. S \<subseteq> set p"
  by (induction M) (auto split: if_splits)

lemma cond_db_empty [simp]: "cond_db {#} x = {#}"
  by (simp add: cond_db_def)

lemma cond_db_add_mset [simp]:
  "cond_db (add_mset p M) x =
     (if x \<in> set p then add_mset (takeWhile (\<lambda>y. y \<noteq> x) p) (cond_db M x) else cond_db M x)"
  by (simp add: cond_db_def)

lemma size_cond_db: "size (cond_db M x) = supp M {x}"
  by (simp add: cond_db_def supp_def)

lemma finite_freq_sets: "finite (freq_sets M m)"
proof (rule finite_subset)
  show "freq_sets M m \<subseteq> Pow (\<Union>p \<in> set_mset M. set p)"
  proof
    fix S
    assume "S \<in> freq_sets M m"
    then have "0 < supp M S" by (simp add: freq_sets_def)
    then obtain p where "p \<in># M" "S \<subseteq> set p" using supp_pos by blast
    then show "S \<in> Pow (\<Union>p \<in> set_mset M. set p)" by auto
  qed
qed simp

lemma set_takeWhile_sorted:
  assumes "sorted_wrt lt p" and "asymp lt" and "x \<in> set p"
  shows "set (takeWhile (\<lambda>y. y \<noteq> x) p) = {y \<in> set p. lt y x}"
  using assms(1,3)
proof (induction p)
  case (Cons a p)
  show ?case
  proof (cases "a = x")
    case True
    have "\<not> lt y x" if "y \<in> set (a # p)" for y
      using that Cons.prems(1) True assms(2) by (auto dest: asympD)
    with True show ?thesis by auto
  next
    case False
    with Cons show ?thesis by auto
  qed
qed simp

lemma sorted_db_add_mset [simp]: "sorted_db lt (add_mset p M) \<longleftrightarrow> sorted_wrt lt p \<and> sorted_db lt M"
  by (simp add: sorted_db_def)

lemma sorted_db_cond: "sorted_db lt M \<Longrightarrow> sorted_db lt (cond_db M x)"
  by (induction M) auto

lemma supp_cond_db:
  assumes "sorted_db lt M" and "asymp lt"
  shows "supp (cond_db M x) S = (if \<forall>y \<in> S. lt y x then supp M (insert x S) else 0)"
  using assms(1)
proof (induction M)
  case (add p M)
  then have sp: "sorted_wrt lt p" and IH: "supp (cond_db M x) S = (if \<forall>y \<in> S. lt y x then supp M (insert x S) else 0)"
    by simp_all
  show ?case
  proof (cases "x \<in> set p")
    case True
    have "S \<subseteq> set (takeWhile (\<lambda>y. y \<noteq> x) p) \<longleftrightarrow> (\<forall>y \<in> S. lt y x) \<and> insert x S \<subseteq> set p"
      using set_takeWhile_sorted [OF sp assms(2) True] True by auto
    with True IH show ?thesis by auto
  next
    case False
    with IH show ?thesis by auto
  qed
qed simp

lemma db_size_cond: "db_size (cond_db M x) + supp M {x} \<le> db_size M"
proof (induction M)
  case (add p M)
  have "x \<in> set p \<Longrightarrow> length (takeWhile (\<lambda>y. y \<noteq> x) p) < length p"
    by (induction p) auto
  with add show ?case by (auto simp: db_size_def)
qed (simp add: db_size_def)

lemma sorted_wrt_last:
  "sorted_wrt lt q \<Longrightarrow> y \<in> set q \<Longrightarrow> y \<noteq> last q \<Longrightarrow> lt y (last q)"
proof -
  assume s: "sorted_wrt lt q" and y: "y \<in> set q" and ne: "y \<noteq> last q"
  then have q: "q = butlast q @ [last q]" by (metis append_butlast_last_id empty_iff list.set(1))
  have "y \<in> set (butlast q)" using y ne by (subst (asm) q) auto
  with s q show ?thesis by (metis sorted_wrt_append list.set_intros(1))
qed

lemma last_of_exists:
  assumes "sorted_db lt M" and "S \<in> freq_sets M m"
  shows "\<exists>x. last_of lt S x"
proof -
  have ne: "S \<noteq> {}" and pos: "0 < supp M S" using assms(2) by (auto simp: freq_sets_def)
  obtain p where p: "p \<in># M" and sub: "S \<subseteq> set p" using supp_pos [OF pos] by blast
  define q where "q = filter (\<lambda>y. y \<in> S) p"
  have sq: "sorted_wrt lt q" using assms(1) p by (simp add: q_def sorted_db_def sorted_wrt_filter)
  have setq: "set q = S" using sub by (auto simp: q_def)
  then have "q \<noteq> []" using ne by auto
  then have "last_of lt S (last q)"
    using sorted_wrt_last [OF sq] setq by (auto simp: last_of_def)
  then show ?thesis ..
qed

lemma last_of_unique: "asymp lt \<Longrightarrow> last_of lt S x \<Longrightarrow> last_of lt S y \<Longrightarrow> x = y"
  by (auto simp: last_of_def dest: asympD)

lemma cond_freq_before:
  assumes "sorted_db lt M" and "asymp lt" and "S' \<in> freq_sets (cond_db M x) m"
  shows "\<forall>y \<in> S'. lt y x"
proof (rule ccontr)
  assume notall: "\<not> (\<forall>y \<in> S'. lt y x)"
  have "supp (cond_db M x) S' = 0"
    unfolding supp_cond_db [OF assms(1,2)] using notall by (rule if_not_P)
  with assms(3) show False by (simp add: freq_sets_def)
qed

lemma freq_sets_split:
  assumes "sorted_db lt M" and "asymp lt"
  shows "freq_sets M m = (\<Union>x \<in> {x. m < supp M {x}}. ends lt M m x)"
proof
  show "freq_sets M m \<subseteq> (\<Union>x \<in> {x. m < supp M {x}}. ends lt M m x)"
  proof
    fix S
    assume S: "S \<in> freq_sets M m"
    obtain x where x: "last_of lt S x" using last_of_exists [OF assms(1) S] ..
    then have "supp M S \<le> supp M {x}" by (intro supp_mono) (simp add: last_of_def)
    with S x show "S \<in> (\<Union>x \<in> {x. m < supp M {x}}. ends lt M m x)"
      by (auto simp: ends_def freq_sets_def)
  qed
qed (auto simp: ends_def)

lemma ends_eq:
  assumes "sorted_db lt M" and "asymp lt" and "m < supp M {x}"
  shows "ends lt M m x = insert {x} (insert x ` freq_sets (cond_db M x) m)"
proof
  show "ends lt M m x \<subseteq> insert {x} (insert x ` freq_sets (cond_db M x) m)"
  proof
    fix S
    assume S: "S \<in> ends lt M m x"
    then have l: "last_of lt S x" and f: "S \<in> freq_sets M m" by (simp_all add: ends_def)
    show "S \<in> insert {x} (insert x ` freq_sets (cond_db M x) m)"
    proof (cases "S - {x} = {}")
      case True
      with l show ?thesis by (auto simp: last_of_def)
    next
      case False
      have before: "\<forall>y \<in> S - {x}. lt y x" using l by (auto simp: last_of_def)
      have ins: "insert x (S - {x}) = S" using l by (auto simp: last_of_def)
      have "supp (cond_db M x) (S - {x}) = supp M S"
        using supp_cond_db [OF assms(1,2), of x "S - {x}"] before ins by simp
      with f False have "S - {x} \<in> freq_sets (cond_db M x) m" by (simp add: freq_sets_def)
      with ins show ?thesis by blast
    qed
  qed
next
  show "insert {x} (insert x ` freq_sets (cond_db M x) m) \<subseteq> ends lt M m x"
  proof
    fix S
    assume "S \<in> insert {x} (insert x ` freq_sets (cond_db M x) m)"
    then show "S \<in> ends lt M m x"
    proof
      assume "S = {x}"
      with assms(3) show ?thesis by (simp add: ends_def freq_sets_def last_of_def)
    next
      assume "S \<in> insert x ` freq_sets (cond_db M x) m"
      then obtain S' where S': "S' \<in> freq_sets (cond_db M x) m" and S: "S = insert x S'" by blast
      have before: "\<forall>y \<in> S'. lt y x" by (rule cond_freq_before [OF assms(1,2) S'])
      have "supp M S = supp (cond_db M x) S'"
        using supp_cond_db [OF assms(1,2), of x S'] before S by simp
      with S' S before show ?thesis by (auto simp: ends_def freq_sets_def last_of_def)
    qed
  qed
qed

lemma image_mset_sum_list: "image_mset f (sum_list Ms) = sum_list (map (image_mset f) Ms)"
  by (induction Ms) simp_all

theorem mined_split:
  assumes "sorted_db lt M" and "asymp lt" and "distinct xs" and "set xs = {x. m < supp M {x}}"
  shows "mined M P m = (\<Sum>x \<leftarrow> xs. add_mset (P \<union> {x}, supp M {x}) (mined (cond_db M x) (P \<union> {x}) m))"
proof -
  let ?g = "\<lambda>S. (P \<union> S, supp M S)"
  have fin: "finite (ends lt M m x)" for x
    by (rule finite_subset [OF _ finite_freq_sets [of M m]]) (auto simp: ends_def)
  have disj: "ends lt M m x \<inter> ends lt M m y = {}" if "x \<noteq> y" for x y
    using that last_of_unique [OF assms(2)] by (auto simp: ends_def)
  have "mset_set (freq_sets M m) = (\<Sum>x \<leftarrow> xs. mset_set (ends lt M m x))"
    unfolding freq_sets_split [OF assms(1,2)] assms(4) [symmetric]
    using assms(3) fin disj by (intro mset_set_UN_list) auto
  then have "mined M P m = (\<Sum>x \<leftarrow> xs. image_mset ?g (mset_set (ends lt M m x)))"
    by (simp add: mined_def image_mset_sum_list comp_def)
  also have "\<dots> = (\<Sum>x \<leftarrow> xs. add_mset (P \<union> {x}, supp M {x}) (mined (cond_db M x) (P \<union> {x}) m))"
  proof (rule arg_cong [where f = sum_list], rule map_cong [OF refl])
    fix x
    assume "x \<in> set xs"
    then have fx: "m < supp M {x}" using assms(4) by simp
    let ?F = "freq_sets (cond_db M x) m"
    have notin: "x \<notin> S'" if "S' \<in> ?F" for S'
      using cond_freq_before [OF assms(1,2) that] assms(2) by (auto dest: asympD)
    have inj: "inj_on (insert x) ?F"
      by (rule inj_onI) (metis Diff_insert_absorb notin)
    have single: "{x} \<notin> insert x ` ?F"
    proof
      assume "{x} \<in> insert x ` ?F"
      then obtain S' where "S' \<in> ?F" "insert x S' = {x}" by blast
      with notin [of S'] show False by (auto simp: freq_sets_def)
    qed
    have "mset_set (ends lt M m x) = add_mset {x} (image_mset (insert x) (mset_set ?F))"
      unfolding ends_eq [OF assms(1,2) fx] image_mset_mset_set [OF inj]
      using single finite_freq_sets by simp
    moreover have "image_mset (?g \<circ> insert x) (mset_set ?F) = mined (cond_db M x) (P \<union> {x}) m"
      unfolding mined_def
    proof (rule image_mset_cong)
      fix S'
      assume "S' \<in># mset_set ?F"
      then have S': "S' \<in> ?F" using finite_freq_sets by simp
      have "supp M (insert x S') = supp (cond_db M x) S'"
        using supp_cond_db [OF assms(1,2), of x S'] cond_freq_before [OF assms(1,2) S'] by simp
      then show "(?g \<circ> insert x) S' = (P \<union> {x} \<union> S', supp (cond_db M x) S')" by auto
    qed
    ultimately show "image_mset ?g (mset_set (ends lt M m x)) =
        add_mset (P \<union> {x}, supp M {x}) (mined (cond_db M x) (P \<union> {x}) m)"
      by (simp add: image_mset.compositionality)
  qed
  finally show ?thesis .
qed

end
