(* ===== verification/TreeInv.thy ===== *)
theory TreeInv
  imports FPTree Patterns
begin

text \<open>
  The well-formedness invariant of the FP-tree arena and its abstraction. A tree is
  well formed (\<open>tree_wf\<close>) when the root is node 0 without item or parent, every other
  node has an item and a parent of smaller index, every child link points to a node with
  that parent and item, the header chain of every item runs through all the nodes of that
  item from the newest to the oldest (\<open>nextInHeader\<close> is the previous node of the same
  item, \<open>itemList\<close> the last one), and the items on the path from the root to any
  node are distinct. \<open>npath\<close> is that root-to-node path; \<open>hsum\<close> is the multiset of
  prefix paths of an item's nodes, each as often as the node's count: the conditional
  pattern base of the item. \<open>Insert\<close> preserves the invariant (\<open>tree_wf_Insert\<close>);
  \<open>represents t M\<close> says that \<open>t\<close> is a well-formed tree of the multiset \<open>M\<close> of
  inserted transactions (root count, header counts, conditional pattern bases, item
  nodes), and \<open>Insert t p w\<close> represents \<open>M\<close> plus \<open>w\<close> copies of \<open>p\<close>
  (\<open>represents_Insert\<close>). On a well-formed tree the header-chain and parent walks
  return with the fuel they are given (\<open>headerNodes_wf\<close>, \<open>prefixPath_wf\<close>).
\<close>

function npath :: "fpNode list \<Rightarrow> nat \<Rightarrow> item list" where
  "npath ns n =
     (if n < length ns then
        (case nparent (ns ! n) of
           None \<Rightarrow> []
         | Some p \<Rightarrow> (if p < n then npath ns p else []) @ (case nitem (ns ! n) of None \<Rightarrow> [] | Some i \<Rightarrow> [i]))
      else [])"
  by pat_completeness auto
termination by (relation "measure (\<lambda>(ns, n). n)") auto

declare npath.simps [simp del]

definition item_nodes :: "fpNode list \<Rightarrow> item \<Rightarrow> nat \<Rightarrow> nat list" where
  "item_nodes ns x k = filter (\<lambda>m. nitem (ns ! m) = Some x) [0..<k]"

definition prev_node :: "fpNode list \<Rightarrow> item \<Rightarrow> nat \<Rightarrow> nat option" where
  "prev_node ns x k = (if item_nodes ns x k = [] then None else Some (last (item_nodes ns x k)))"

definition root_ok :: "fpNode list \<Rightarrow> bool" where
  "root_ok ns \<longleftrightarrow> ns \<noteq> [] \<and> nitem (ns ! 0) = None \<and> nparent (ns ! 0) = None"

definition parents_ok :: "fpNode list \<Rightarrow> bool" where
  "parents_ok ns \<longleftrightarrow>
     (\<forall>n < length ns. 0 < n \<longrightarrow> nitem (ns ! n) \<noteq> None \<and> (\<exists>p. nparent (ns ! n) = Some p \<and> p < n))"

definition children_ok :: "fpNode list \<Rightarrow> bool" where
  "children_ok ns \<longleftrightarrow>
     (\<forall>n < length ns. \<forall>x c. nchildren (ns ! n) x = Some c \<longrightarrow>
        c < length ns \<and> nparent (ns ! c) = Some n \<and> nitem (ns ! c) = Some x)"

definition next_ok :: "fpNode list \<Rightarrow> bool" where
  "next_ok ns \<longleftrightarrow> (\<forall>n < length ns. \<forall>x. nitem (ns ! n) = Some x \<longrightarrow> nnext (ns ! n) = prev_node ns x n)"

definition paths_ok :: "fpNode list \<Rightarrow> bool" where
  "paths_ok ns \<longleftrightarrow> (\<forall>n < length ns. distinct (npath ns n))"

definition tree_wf :: "fpTree \<Rightarrow> bool" where
  "tree_wf t \<longleftrightarrow>
     root_ok (nodes t) \<and> parents_ok (nodes t) \<and> children_ok (nodes t) \<and> next_ok (nodes t) \<and>
     paths_ok (nodes t) \<and> (\<forall>x. itemList t x = prev_node (nodes t) x (length (nodes t)))"

definition hsum :: "fpNode list \<Rightarrow> item \<Rightarrow> item list multiset" where
  "hsum ns x = (\<Sum>n \<leftarrow> item_nodes ns x (length ns). replicate_mset (ncount (ns ! n)) (butlast (npath ns n)))"

text \<open>Two arenas of the same shape: same nodes, items, parents and header links; they
  may differ in counts and child maps.\<close>

definition same_shape :: "fpNode list \<Rightarrow> fpNode list \<Rightarrow> bool" where
  "same_shape ns ns' \<longleftrightarrow> length ns' = length ns \<and>
     (\<forall>n < length ns. nitem (ns' ! n) = nitem (ns ! n) \<and> nparent (ns' ! n) = nparent (ns ! n) \<and>
                      nnext (ns' ! n) = nnext (ns ! n))"

subsection \<open>Paths, header chains and arenas of the same shape\<close>

lemma npath_same_shape: "same_shape ns ns' \<Longrightarrow> npath ns' n = npath ns n"
proof (induction ns n rule: npath.induct)
  case (1 ns n)
  then show ?case
    by (subst (1 2) npath.simps) (auto simp: same_shape_def split: option.split)
qed

lemma npath_append: "n < length ns \<Longrightarrow> npath (ns @ ys) n = npath ns n"
proof (induction ns n rule: npath.induct)
  case (1 ns n)
  then show ?case
    by (subst (1 2) npath.simps) (auto simp: nth_append split: option.split)
qed

lemma npath_child:
  "n < length ns \<Longrightarrow> nparent (ns ! n) = Some p \<Longrightarrow> p < n \<Longrightarrow> nitem (ns ! n) = Some i \<Longrightarrow>
   npath ns n = npath ns p @ [i]"
  by (subst npath.simps) simp

lemma npath_root: "nparent (ns ! 0) = None \<Longrightarrow> npath ns 0 = []"
  by (subst npath.simps) simp

lemma item_nodes_same_shape:
  "same_shape ns ns' \<Longrightarrow> k \<le> length ns \<Longrightarrow> item_nodes ns' x k = item_nodes ns x k"
  unfolding item_nodes_def same_shape_def by (rule filter_cong) auto

lemma prev_node_same_shape:
  "same_shape ns ns' \<Longrightarrow> k \<le> length ns \<Longrightarrow> prev_node ns' x k = prev_node ns x k"
  by (simp add: prev_node_def item_nodes_same_shape)

lemma item_nodes_append:
  "k \<le> length ns \<Longrightarrow> item_nodes (ns @ ys) x k = item_nodes ns x k"
  unfolding item_nodes_def by (rule filter_cong) (auto simp: nth_append)

lemma item_nodes_Suc:
  "item_nodes ns x (Suc k) = item_nodes ns x k @ (if nitem (ns ! k) = Some x then [k] else [])"
  by (simp add: item_nodes_def)

lemma prev_node_snoc:
  "nitem (ns ! k) = Some x \<Longrightarrow> prev_node ns x (Suc k) = Some k"
  by (simp add: prev_node_def item_nodes_Suc)

lemma prev_node_snoc_other:
  "nitem (ns ! k) \<noteq> Some x \<Longrightarrow> prev_node ns x (Suc k) = prev_node ns x k"
  by (simp add: prev_node_def item_nodes_Suc)

lemma same_shape_refl [simp]: "same_shape ns ns"
  by (simp add: same_shape_def)

lemma same_shape_trans: "same_shape ns ns' \<Longrightarrow> same_shape ns' ns'' \<Longrightarrow> same_shape ns ns''"
  by (simp add: same_shape_def)

lemma same_shape_update:
  "nitem v = nitem (ns ! k) \<Longrightarrow> nparent v = nparent (ns ! k) \<Longrightarrow> nnext v = nnext (ns ! k) \<Longrightarrow>
   same_shape ns (ns[k := v])"
  by (cases "k < length ns") (auto simp: same_shape_def nth_list_update)

lemma same_shape_root_ok: "same_shape ns ns' \<Longrightarrow> root_ok ns' \<longleftrightarrow> root_ok ns"
  unfolding root_ok_def same_shape_def by (metis length_greater_0_conv)

lemma same_shape_oks:
  "same_shape ns ns' \<Longrightarrow>
   (root_ok ns' \<longleftrightarrow> root_ok ns) \<and> (parents_ok ns' \<longleftrightarrow> parents_ok ns) \<and>
   (next_ok ns' \<longleftrightarrow> next_ok ns) \<and> (paths_ok ns' \<longleftrightarrow> paths_ok ns)"
  using same_shape_root_ok [of ns ns']
  unfolding parents_ok_def next_ok_def paths_ok_def
  by (auto simp: same_shape_def npath_same_shape prev_node_same_shape [of ns ns'])

subsection \<open>Counting a visit: \<open>add_count\<close>\<close>

lemma nodes_add_count:
  "nodes (add_count t c w) = (nodes t)[c := (nodes t ! c)\<lparr>ncount := ncount (nodes t ! c) + w\<rparr>]"
  by (simp add: add_count_def)

lemma same_shape_add_count: "same_shape (nodes t) (nodes (add_count t c w))"
  unfolding nodes_add_count by (rule same_shape_update) simp_all

lemma children_ok_add_count: "children_ok (nodes t) \<Longrightarrow> children_ok (nodes (add_count t c w))"
  unfolding children_ok_def nodes_add_count
  by (cases "c < length (nodes t)") (auto simp: nth_list_update list_update_beyond)

lemma tree_wf_add_count: "tree_wf t \<Longrightarrow> tree_wf (add_count t c w)"
  using same_shape_oks [OF same_shape_add_count [of t c w]] children_ok_add_count [of t c w]
    prev_node_same_shape [OF same_shape_add_count [of t c w]] same_shape_add_count [of t c w]
  by (simp add: tree_wf_def same_shape_def add_count_def)

lemma ncount_add_count:
  "n < length (nodes t) \<Longrightarrow>
   ncount (nodes (add_count t c w) ! n) = ncount (nodes t ! n) + (if n = c then w else 0)"
  by (simp add: nodes_add_count nth_list_update)

lemma hsum_add_count:
  assumes "c < length (nodes t)"
  shows "hsum (nodes (add_count t c w)) x =
           hsum (nodes t) x + (if nitem (nodes t ! c) = Some x then replicate_mset w (butlast (npath (nodes t) c)) else {#})"
proof -
  let ?ns = "nodes t" and ?ns' = "nodes (add_count t c w)"
  have sh: "same_shape ?ns ?ns'" by (rule same_shape_add_count)
  have len: "length ?ns' = length ?ns" using sh by (simp add: same_shape_def)
  have in_iff: "c \<in> set (item_nodes ?ns x (length ?ns)) \<longleftrightarrow> nitem (?ns ! c) = Some x"
    using assms by (auto simp: item_nodes_def)
  have "hsum ?ns' x =
        (\<Sum>n \<leftarrow> item_nodes ?ns x (length ?ns). replicate_mset (ncount (?ns' ! n)) (butlast (npath ?ns n)))"
    unfolding hsum_def len item_nodes_same_shape [OF sh order.refl] npath_same_shape [OF sh] ..
  also have "\<dots> = hsum ?ns x + (if c \<in> set (item_nodes ?ns x (length ?ns))
                                  then replicate_mset w (butlast (npath ?ns c)) else {#})"
    unfolding hsum_def
  proof (rule sum_list_map_point)
    show "distinct (item_nodes ?ns x (length ?ns))" by (simp add: item_nodes_def)
  qed (simp_all add: nodes_add_count nth_list_update assms(1) replicate_mset_add)
  finally show ?thesis using in_iff by simp
qed

subsection \<open>Finding or creating a child: \<open>getChild\<close>\<close>

lemma wf_parent_less:
  "tree_wf t \<Longrightarrow> n < length (nodes t) \<Longrightarrow> nparent (nodes t ! n) = Some p \<Longrightarrow> p < n"
  unfolding tree_wf_def root_ok_def parents_ok_def
  by (metis gr0I option.distinct(1) option.inject)

lemma getChild_existing:
  assumes wf: "tree_wf t" and cur: "cur < length (nodes t)" and ch: "nchildren (nodes t ! cur) i = Some c"
  shows "getChild t cur i = (c, t) \<and> c < length (nodes t) \<and> nparent (nodes t ! c) = Some cur \<and>
         nitem (nodes t ! c) = Some i \<and> cur < c"
proof -
  have c: "c < length (nodes t) \<and> nparent (nodes t ! c) = Some cur \<and> nitem (nodes t ! c) = Some i"
    using wf cur ch by (auto simp: tree_wf_def children_ok_def)
  then have "cur < c" using wf_parent_less [OF wf] by blast
  with c ch show ?thesis by (simp add: getChild_def)
qed

lemma getChild_new:
  assumes wf: "tree_wf t" and cur: "cur < length (nodes t)" and fresh: "i \<notin> set (npath (nodes t) cur)"
    and none: "nchildren (nodes t ! cur) i = None"
  defines "c \<equiv> length (nodes t)"
  defines "ns1 \<equiv> (nodes t)[cur := (nodes t ! cur)\<lparr>nchildren := (nchildren (nodes t ! cur))(i \<mapsto> c)\<rparr>]"
  defines "nd \<equiv> \<lparr>nitem = Some i, ncount = 0, nparent = Some cur, nchildren = Map.empty, nnext = itemList t i\<rparr>"
  shows "getChild t cur i = (c, t\<lparr>nodes := ns1 @ [nd], itemList := (itemList t)(i \<mapsto> c)\<rparr>)"
    and "tree_wf (t\<lparr>nodes := ns1 @ [nd], itemList := (itemList t)(i \<mapsto> c)\<rparr>)"
    and "npath (ns1 @ [nd]) c = npath (nodes t) cur @ [i]"
    and "\<And>x. hsum (ns1 @ [nd]) x = hsum (nodes t) x"
    and "\<And>n. n < c \<Longrightarrow> nitem ((ns1 @ [nd]) ! n) = nitem (nodes t ! n) \<and>
                         ncount ((ns1 @ [nd]) ! n) = ncount (nodes t ! n)"
proof -
  let ?ns = "nodes t" and ?ns2 = "ns1 @ [nd]"
  show "getChild t cur i = (c, t\<lparr>nodes := ns1 @ [nd], itemList := (itemList t)(i \<mapsto> c)\<rparr>)"
    by (simp add: getChild_def none c_def ns1_def nd_def Let_def)
  have sh: "same_shape ?ns ns1" unfolding ns1_def by (rule same_shape_update) simp_all
  have len1: "length ns1 = c" by (simp add: ns1_def c_def)
  have at_old: "n < c \<Longrightarrow> ?ns2 ! n = ns1 ! n" for n by (simp add: nth_append len1)
  have at_new: "?ns2 ! c = nd" by (simp add: nth_append len1)
  have new_item: "nitem (?ns2 ! c) = Some i" unfolding at_new by (simp add: nd_def)
  have new_parent: "nparent (?ns2 ! c) = Some cur" unfolding at_new by (simp add: nd_def)
  have new_children: "nchildren (?ns2 ! c) = Map.empty" unfolding at_new by (simp add: nd_def)
  have new_next: "nnext (?ns2 ! c) = itemList t i" unfolding at_new by (simp add: nd_def)
  have old_shape: "n < c \<Longrightarrow> nitem (?ns2 ! n) = nitem (?ns ! n) \<and> nparent (?ns2 ! n) = nparent (?ns ! n) \<and>
      nnext (?ns2 ! n) = nnext (?ns ! n) \<and> ncount (?ns2 ! n) = ncount (?ns ! n)" for n
  proof -
    assume n: "n < c"
    then have "?ns2 ! n = ns1 ! n" by (rule at_old)
    with n cur show ?thesis by (simp add: ns1_def c_def nth_list_update)
  qed
  show "n < c \<Longrightarrow> nitem (?ns2 ! n) = nitem (?ns ! n) \<and> ncount (?ns2 ! n) = ncount (?ns ! n)" for n
    using old_shape by simp
  have npath_old: "n < c \<Longrightarrow> npath ?ns2 n = npath ?ns n" for n
    using npath_append [of n ns1 "[nd]"] npath_same_shape [OF sh] by (simp add: len1)
  have "cur < c" using cur by (simp add: c_def)
  then show np: "npath ?ns2 c = npath ?ns cur @ [i]"
    using npath_child [of c ?ns2 cur i] npath_old at_new by (simp add: len1 nd_def)
  have items_new: "item_nodes ?ns2 x (Suc c) = item_nodes ?ns x c @ (if x = i then [c] else [])" for x
  proof -
    have "item_nodes ?ns2 x c = item_nodes ?ns x c"
      using item_nodes_append [of c ns1 "[nd]" x] item_nodes_same_shape [OF sh, of c x]
      by (simp add: len1 c_def)
    then show ?thesis using item_nodes_Suc [of ?ns2 x c] by (simp add: new_item)
  qed
  have prev_old: "k \<le> c \<Longrightarrow> prev_node ?ns2 x k = prev_node ?ns x k" for x k
    using item_nodes_append [of k ns1 "[nd]" x] item_nodes_same_shape [OF sh, of k x]
    by (simp add: prev_node_def len1 c_def)
  show "hsum ?ns2 x = hsum ?ns x" for x
  proof -
    have "hsum ?ns2 x = (\<Sum>n \<leftarrow> item_nodes ?ns x c. replicate_mset (ncount (?ns2 ! n)) (butlast (npath ?ns2 n))) +
                        (if x = i then replicate_mset (ncount nd) (butlast (npath ?ns2 c)) else {#})"
      by (simp add: hsum_def len1 items_new at_new)
    also have "\<dots> = (\<Sum>n \<leftarrow> item_nodes ?ns x c. replicate_mset (ncount (?ns ! n)) (butlast (npath ?ns n)))"
    proof -
      have "replicate_mset (ncount (?ns2 ! n)) (butlast (npath ?ns2 n)) =
            replicate_mset (ncount (?ns ! n)) (butlast (npath ?ns n))" if "n \<in> set (item_nodes ?ns x c)" for n
      proof -
        from that have "n < c" by (simp add: item_nodes_def)
        then show ?thesis using old_shape [of n] npath_old [of n] by simp
      qed
      then show ?thesis by (simp add: at_new nd_def cong: map_cong)
    qed
    finally show ?thesis by (simp add: hsum_def c_def)
  qed
  have clen: "length ?ns = c" by (simp add: c_def)
  have wf': "root_ok ?ns \<and> parents_ok ?ns \<and> children_ok ?ns \<and> next_ok ?ns \<and> paths_ok ?ns \<and>
      (\<forall>x. itemList t x = prev_node ?ns x c)"
    using wf by (simp add: tree_wf_def c_def)
  have "root_ok ?ns2"
    using wf' old_shape [of 0] \<open>cur < c\<close> by (simp add: root_ok_def)
  moreover have "parents_ok ?ns2"
    using wf' old_shape \<open>cur < c\<close> at_new
    by (auto simp: parents_ok_def len1 nd_def less_Suc_eq clen)
  moreover have "children_ok ?ns2"
  proof (unfold children_ok_def, intro allI impI)
    fix n x c'
    assume n: "n < length ?ns2" and ch: "nchildren (?ns2 ! n) x = Some c'"
    show "c' < length ?ns2 \<and> nparent (?ns2 ! c') = Some n \<and> nitem (?ns2 ! c') = Some x"
    proof (cases "n = c")
      case True
      with ch show ?thesis by (simp add: new_children)
    next
      case False
      with n have "n < c" by (simp add: len1)
      show ?thesis
      proof (cases "n = cur \<and> x = i")
        case True
        have "?ns2 ! cur = ns1 ! cur" using \<open>cur < c\<close> by (rule at_old)
        then have "c' = c" using ch True cur by (simp add: ns1_def nth_list_update)
        then show ?thesis using True new_item new_parent by (simp add: len1)
      next
        case False
        have "?ns2 ! n = ns1 ! n" using \<open>n < c\<close> by (rule at_old)
        with ch False cur have "nchildren (?ns ! n) x = Some c'"
          by (auto simp: ns1_def nth_list_update split: if_splits)
        with wf' \<open>n < c\<close> have "c' < c \<and> nparent (?ns ! c') = Some n \<and> nitem (?ns ! c') = Some x"
          by (auto simp: children_ok_def c_def)
        with old_shape [of c'] show ?thesis by (simp add: len1)
      qed
    qed
  qed
  moreover have "next_ok ?ns2"
  proof (unfold next_ok_def, intro allI impI)
    fix n x
    assume n: "n < length ?ns2" and it: "nitem (?ns2 ! n) = Some x"
    show "nnext (?ns2 ! n) = prev_node ?ns2 x n"
    proof (cases "n = c")
      case True
      with it new_item have "x = i" by simp
      with True wf' show ?thesis by (simp add: new_next prev_old)
    next
      case False
      with n have "n < c" by (simp add: len1)
      with wf' it old_shape [of n] show ?thesis by (simp add: next_ok_def prev_old c_def)
    qed
  qed
  moreover have "paths_ok ?ns2"
  proof (unfold paths_ok_def, intro allI impI)
    fix n
    assume "n < length ?ns2"
    then have "n < c \<or> n = c" by (auto simp: len1)
    then show "distinct (npath ?ns2 n)"
    proof
      assume "n < c"
      with wf' show ?thesis by (simp add: paths_ok_def npath_old c_def)
    next
      assume "n = c"
      with wf' cur fresh show ?thesis by (simp add: paths_ok_def np)
    qed
  qed
  moreover have "((itemList t)(i \<mapsto> c)) x = prev_node ?ns2 x (length ?ns2)" for x
  proof (cases "x = i")
    case True
    then show ?thesis using prev_node_snoc [of ?ns2 c x] new_item by (simp add: len1)
  next
    case False
    then have "prev_node ?ns2 x (Suc c) = prev_node ?ns2 x c"
      by (intro prev_node_snoc_other) (simp add: new_item)
    with False wf' prev_old [of c x] show ?thesis by (simp add: len1)
  qed
  ultimately show "tree_wf (t\<lparr>nodes := ns1 @ [nd], itemList := (itemList t)(i \<mapsto> c)\<rparr>)"
    by (simp add: tree_wf_def)
qed

lemma getChild_props:
  assumes wf: "tree_wf t" and cur: "cur < length (nodes t)" and fresh: "i \<notin> set (npath (nodes t) cur)"
    and gc: "getChild t cur i = (c, t')"
  shows "tree_wf t' \<and> cur < c \<and> c < length (nodes t') \<and> nitem (nodes t' ! c) = Some i \<and>
         npath (nodes t') c = npath (nodes t) cur @ [i] \<and> (\<forall>x. hsum (nodes t') x = hsum (nodes t) x) \<and>
         counts t' = counts t \<and> length (nodes t) \<le> length (nodes t') \<and>
         (\<forall>n < length (nodes t). nitem (nodes t' ! n) = nitem (nodes t ! n) \<and>
                                 ncount (nodes t' ! n) = ncount (nodes t ! n))"
proof (cases "nchildren (nodes t ! cur) i")
  case (Some c0)
  note ex = getChild_existing [OF wf cur Some]
  with gc have eq: "c = c0" "t' = t" by simp_all
  have "npath (nodes t) c = npath (nodes t) cur @ [i]"
    using ex eq by (intro npath_child) simp_all
  with ex eq wf show ?thesis by simp
next
  case None
  note new = getChild_new [OF wf cur fresh None]
  have pair: "(c, t') = (length (nodes t), t\<lparr>nodes := (nodes t)[cur := (nodes t ! cur)\<lparr>nchildren := (nchildren (nodes t ! cur))(i \<mapsto> length (nodes t))\<rparr>] @
               [\<lparr>nitem = Some i, ncount = 0, nparent = Some cur, nchildren = Map.empty, nnext = itemList t i\<rparr>],
            itemList := (itemList t)(i \<mapsto> length (nodes t))\<rparr>)"
    using gc new(1) by metis
  from pair have eq: "c = length (nodes t)"
    "t' = t\<lparr>nodes := (nodes t)[cur := (nodes t ! cur)\<lparr>nchildren := (nchildren (nodes t ! cur))(i \<mapsto> length (nodes t))\<rparr>] @
               [\<lparr>nitem = Some i, ncount = 0, nparent = Some cur, nchildren = Map.empty, nnext = itemList t i\<rparr>],
            itemList := (itemList t)(i \<mapsto> length (nodes t))\<rparr>"
    by simp_all
  show ?thesis
    using new(2-5) cur unfolding eq by (simp add: nth_append)
qed

lemma tree_wf_counts [simp]: "tree_wf (t\<lparr>counts := v\<rparr>) = tree_wf t"
  by (simp add: tree_wf_def)

subsection \<open>The insertion walk\<close>

lemma insert_from_props:
  assumes "tree_wf t" and "cur < length (nodes t)" and "distinct (npath (nodes t) cur @ ps)"
  shows "tree_wf (insert_from t cur ps w) \<and>
    (\<forall>x. hsum (nodes (insert_from t cur ps w)) x =
         hsum (nodes t) x + (if x \<in> set ps then replicate_mset w (npath (nodes t) cur @ takeWhile (\<lambda>y. y \<noteq> x) ps)
                             else {#})) \<and>
    (\<forall>x. get (counts (insert_from t cur ps w)) x = get (counts t) x + (if x \<in> set ps then w else 0)) \<and>
    length (nodes t) \<le> length (nodes (insert_from t cur ps w)) \<and>
    (\<forall>n < length (nodes t). nitem (nodes (insert_from t cur ps w) ! n) = nitem (nodes t ! n)) \<and>
    ncount (nodes (insert_from t cur ps w) ! 0) = ncount (nodes t ! 0) \<and>
    (\<forall>x \<in> set ps. \<exists>n < length (nodes (insert_from t cur ps w)). nitem (nodes (insert_from t cur ps w) ! n) = Some x)"
  using assms
proof (induction "ps" arbitrary: t cur)
  case Nil
  then show ?case by simp
next
  case (Cons i ps)
  obtain c t' where gc: "getChild t cur i = (c, t')" by fastforce
  have fresh: "i \<notin> set (npath (nodes t) cur)" using Cons.prems(3) by simp
  note gp = getChild_props [OF Cons.prems(1,2) fresh gc]
  define t'' where "t'' = (add_count t' c w)\<lparr>counts := increment (counts t') i w\<rparr>"
  have step: "insert_from t cur (i # ps) w = insert_from t'' c ps w"
    by (simp add: gc t''_def)
  have sh: "same_shape (nodes t') (nodes t'')"
    by (simp add: t''_def same_shape_add_count)
  have len'': "length (nodes t'') = length (nodes t')"
    using sh by (simp add: same_shape_def)
  have wf'': "tree_wf t''" using gp by (simp add: t''_def tree_wf_add_count)
  have c'': "c < length (nodes t'')" using gp len'' by simp
  have np'': "npath (nodes t'') c = npath (nodes t) cur @ [i]"
    using gp npath_same_shape [OF sh] by simp
  have dist'': "distinct (npath (nodes t'') c @ ps)"
    using Cons.prems(3) np'' by simp
  note IH = Cons.IH [OF wf'' c'' dist'']
  have hs'': "hsum (nodes t'') x = hsum (nodes t) x + (if x = i then replicate_mset w (npath (nodes t) cur) else {#})" for x
    using hsum_add_count [of c t' w x] gp by (simp add: t''_def)
  have cnt'': "get (counts t'') x = get (counts t) x + (if x = i then w else 0)" for x
    using gp by (simp add: t''_def)
  have items'': "n < length (nodes t) \<Longrightarrow> nitem (nodes t'' ! n) = nitem (nodes t ! n)" for n
    using gp sh by (simp add: same_shape_def)
  have root'': "ncount (nodes t'' ! 0) = ncount (nodes t ! 0)"
  proof -
    have l0: "0 < length (nodes t)" using Cons.prems(2) by arith
    then have l0': "0 < length (nodes t')" using gp by linarith
    have "c \<noteq> 0" using gp by simp
    then have a: "ncount (nodes (add_count t' c w) ! 0) = ncount (nodes t' ! 0)"
      using ncount_add_count [OF l0', of c w] by simp
    have b: "ncount (nodes t' ! 0) = ncount (nodes t ! 0)" using gp l0 by blast
    show ?thesis by (simp add: t''_def a b)
  qed
  have new'': "nitem (nodes t'' ! c) = Some i" using gp sh c'' by (simp add: same_shape_def len'')
  have i_notin: "i \<notin> set ps" using Cons.prems(3) by simp
  show ?case
    unfolding step
  proof (intro conjI allI ballI)
    show "tree_wf (insert_from t'' c ps w)" using IH by simp
  next
    fix x
    show "hsum (nodes (insert_from t'' c ps w)) x =
      hsum (nodes t) x + (if x \<in> set (i # ps) then replicate_mset w (npath (nodes t) cur @ takeWhile (\<lambda>y. y \<noteq> x) (i # ps))
                          else {#})"
      using IH hs'' [of x] np'' i_notin by (auto simp: ac_simps)
  next
    fix x
    show "get (counts (insert_from t'' c ps w)) x = get (counts t) x + (if x \<in> set (i # ps) then w else 0)"
      using IH cnt'' [of x] i_notin by auto
  next
    show "length (nodes t) \<le> length (nodes (insert_from t'' c ps w))" using IH gp len'' by simp
  next
    fix n
    show "n < length (nodes t) \<longrightarrow> nitem (nodes (insert_from t'' c ps w) ! n) = nitem (nodes t ! n)"
      using IH items'' gp len'' by auto
  next
    show "ncount (nodes (insert_from t'' c ps w) ! 0) = ncount (nodes t ! 0)" using IH root'' by simp
  next
    fix x
    assume "x \<in> set (i # ps)"
    then have "x = i \<or> x \<in> set ps" by simp
    then show "\<exists>n < length (nodes (insert_from t'' c ps w)). nitem (nodes (insert_from t'' c ps w) ! n) = Some x"
    proof
      assume "x = i"
      have "c < length (nodes (insert_from t'' c ps w))" using IH c'' by linarith
      moreover have "nitem (nodes (insert_from t'' c ps w) ! c) = Some x" using IH c'' new'' \<open>x = i\<close> by simp
      ultimately show ?thesis by blast
    next
      assume "x \<in> set ps"
      then show ?thesis using IH by blast
    qed
  qed
qed

subsection \<open>The abstraction: the multiset of inserted transactions\<close>

definition represents :: "fpTree \<Rightarrow> item list multiset \<Rightarrow> bool" where
  "represents t M \<longleftrightarrow> tree_wf t \<and> ncount (nodes t ! 0) = size M \<and>
     (\<forall>x. get (counts t) x = supp M {x}) \<and> (\<forall>x. hsum (nodes t) x = cond_db M x) \<and>
     (\<forall>p \<in># M. distinct p) \<and>
     (\<forall>x. (\<exists>p \<in># M. x \<in> set p) \<longrightarrow> (\<exists>n < length (nodes t). nitem (nodes t ! n) = Some x))"

lemma represents_newTree: "represents newTree {#}"
proof -
  have "tree_wf newTree"
    by (simp add: tree_wf_def newTree_def rootNode_def root_ok_def parents_ok_def children_ok_def
                  next_ok_def paths_ok_def prev_node_def item_nodes_def npath_root)
  moreover have "hsum (nodes newTree) x = {#}" for x
    by (simp add: hsum_def item_nodes_def newTree_def rootNode_def)
  ultimately show ?thesis
    by (simp add: represents_def newTree_def rootNode_def supp_def cond_db_def)
qed

lemma represents_Insert:
  assumes rep: "represents t M" and dp: "distinct p"
  shows "represents (Insert t p w) (M + replicate_mset w p)"
proof -
  let ?t0 = "add_count t 0 w"
  have wf: "tree_wf t" and root: "ncount (nodes t ! 0) = size M"
    and cnt: "\<And>x. get (counts t) x = supp M {x}" and hs: "\<And>x. hsum (nodes t) x = cond_db M x"
    and dM: "\<forall>q \<in># M. distinct q"
    and its: "\<And>x. (\<exists>q \<in># M. x \<in> set q) \<Longrightarrow> (\<exists>n < length (nodes t). nitem (nodes t ! n) = Some x)"
    using rep by (auto simp: represents_def)
  have r: "root_ok (nodes t)" using wf by (simp add: tree_wf_def)
  then have l0: "0 < length (nodes t)" by (simp add: root_ok_def)
  have sh: "same_shape (nodes t) (nodes ?t0)" by (rule same_shape_add_count)
  have wf0: "tree_wf ?t0" using wf by (rule tree_wf_add_count)
  have len0: "length (nodes ?t0) = length (nodes t)" using sh by (simp add: same_shape_def)
  have np0: "npath (nodes ?t0) 0 = []"
    using r npath_same_shape [OF sh, of 0] npath_root [of "nodes t"] by (simp add: root_ok_def)
  have hs0: "hsum (nodes ?t0) x = hsum (nodes t) x" for x
    using hsum_add_count [OF l0, of w x] r by (simp add: root_ok_def)
  have props: "tree_wf (insert_from ?t0 0 p w) \<and>
    (\<forall>x. hsum (nodes (insert_from ?t0 0 p w)) x =
         hsum (nodes ?t0) x + (if x \<in> set p then replicate_mset w (npath (nodes ?t0) 0 @ takeWhile (\<lambda>y. y \<noteq> x) p)
                             else {#})) \<and>
    (\<forall>x. get (counts (insert_from ?t0 0 p w)) x = get (counts ?t0) x + (if x \<in> set p then w else 0)) \<and>
    length (nodes ?t0) \<le> length (nodes (insert_from ?t0 0 p w)) \<and>
    (\<forall>n < length (nodes ?t0). nitem (nodes (insert_from ?t0 0 p w) ! n) = nitem (nodes ?t0 ! n)) \<and>
    ncount (nodes (insert_from ?t0 0 p w) ! 0) = ncount (nodes ?t0 ! 0) \<and>
    (\<forall>x \<in> set p. \<exists>n < length (nodes (insert_from ?t0 0 p w)). nitem (nodes (insert_from ?t0 0 p w) ! n) = Some x)"
    using insert_from_props [OF wf0, of 0 p w] l0 len0 np0 dp by simp
  have c0: "counts ?t0 = counts t" by (simp add: add_count_def)
  have rc: "ncount (nodes ?t0 ! 0) = ncount (nodes t ! 0) + w"
    using ncount_add_count [OF l0, of 0 w] by simp
  have items_old: "n < length (nodes t) \<Longrightarrow> nitem (nodes ?t0 ! n) = nitem (nodes t ! n)" for n
    using sh by (simp add: same_shape_def)
  show ?thesis
    unfolding represents_def Insert_def
  proof (intro conjI allI impI ballI)
    show "tree_wf (insert_from ?t0 0 p w)" using props by simp
    show "ncount (nodes (insert_from ?t0 0 p w) ! 0) = size (M + replicate_mset w p)"
      using props rc root by simp
    fix x
    show "get (counts (insert_from ?t0 0 p w)) x = supp (M + replicate_mset w p) {x}"
      using props cnt [of x] c0 by (simp add: supp_add_replicate)
    show "hsum (nodes (insert_from ?t0 0 p w)) x = cond_db (M + replicate_mset w p) x"
      using props hs0 [of x] hs [of x] np0 by (simp add: cond_db_add_replicate)
  next
    fix q
    assume "q \<in># M + replicate_mset w p"
    then show "distinct q" using dM dp by (auto split: if_splits)
  next
    fix x
    assume "\<exists>q \<in># M + replicate_mset w p. x \<in> set q"
    then have "(\<exists>q \<in># M. x \<in> set q) \<or> x \<in> set p" by (auto split: if_splits)
    then show "\<exists>n < length (nodes (insert_from ?t0 0 p w)). nitem (nodes (insert_from ?t0 0 p w) ! n) = Some x"
    proof
      assume "\<exists>q \<in># M. x \<in> set q"
      then obtain n where "n < length (nodes t)" "nitem (nodes t ! n) = Some x" using its by blast
      then show ?thesis using props items_old len0 by (metis order_less_le_trans)
    next
      assume "x \<in> set p"
      then show ?thesis using props by blast
    qed
  qed
qed

subsection \<open>The pointer walks return on a well-formed tree\<close>

lemma chain_fuel_prev:
  assumes "next_ok ns" and "k \<le> length ns" and "k \<le> f"
  shows "chain_fuel ns f (prev_node ns x k) = Some (rev (item_nodes ns x k))"
  using assms(2,3)
proof (induction k arbitrary: f)
  case 0
  then show ?case by (simp add: prev_node_def item_nodes_def)
next
  case (Suc k)
  show ?case
  proof (cases "nitem (ns ! k) = Some x")
    case True
    obtain f' where f: "f = Suc f'" using Suc.prems by (cases f) auto
    have "nnext (ns ! k) = prev_node ns x k"
      using assms(1) Suc.prems True by (simp add: next_ok_def)
    then show ?thesis
      using Suc.IH [of f'] Suc.prems True f by (simp add: prev_node_snoc item_nodes_Suc)
  next
    case False
    then show ?thesis
      using Suc.IH [of f] Suc.prems by (simp add: prev_node_snoc_other item_nodes_Suc)
  qed
qed

lemma headerNodes_wf:
  "tree_wf t \<Longrightarrow> headerNodes t (itemList t x) = Some (rev (item_nodes (nodes t) x (length (nodes t))))"
  by (simp add: tree_wf_def headerNodes_def chain_fuel_prev)

lemma up_fuel_npath:
  assumes "root_ok ns" and "parents_ok ns" and "m < length ns" and "Suc m \<le> f"
  shows "up_fuel ns f m acc = Some (npath ns m @ acc)"
  using assms(3,4)
proof (induction m arbitrary: f acc rule: less_induct)
  case (less m)
  obtain f' where f: "f = Suc f'" using less.prems by (cases f) auto
  show ?case
  proof (cases "nparent (ns ! m)")
    case None
    then show ?thesis using less.prems f by (simp add: npath.simps)
  next
    case (Some p)
    have "m \<noteq> 0"
    proof
      assume "m = 0"
      with assms(1) Some show False by (simp add: root_ok_def)
    qed
    then obtain i where i: "nitem (ns ! m) = Some i" and pm: "p < m"
      using assms(2) less.prems Some by (auto simp: parents_ok_def)
    have "up_fuel ns f' p (i # acc) = Some (npath ns p @ i # acc)"
      using less.IH [of p f' "i # acc"] pm less.prems f by simp
    then show ?thesis
      using less.prems f Some i npath_child [of m ns p i] pm by simp
  qed
qed

lemma prefixPath_wf:
  assumes "tree_wf t" and "n < length (nodes t)" and "0 < n"
  shows "prefixPath t n = Some (butlast (npath (nodes t) n))"
proof -
  have r: "root_ok (nodes t)" and po: "parents_ok (nodes t)" using assms(1) by (simp_all add: tree_wf_def)
  obtain p i where p: "nparent (nodes t ! n) = Some p" "p < n" and i: "nitem (nodes t ! n) = Some i"
    using po assms(2,3) by (auto simp: parents_ok_def)
  have "up_fuel (nodes t) (length (nodes t)) p [] = Some (npath (nodes t) p)"
    using up_fuel_npath [OF r po, of p "length (nodes t)" "[]"] p assms(2) by simp
  then show ?thesis
    using p i assms(2) npath_child [of n "nodes t" p i] by (simp add: prefixPath_def)
qed

lemma tree_wf_newTree: "tree_wf newTree"
  using represents_newTree by (simp add: represents_def)

lemma tree_wf_Insert:
  assumes "tree_wf t" and "distinct p"
  shows "tree_wf (Insert t p w)"
proof -
  let ?t0 = "add_count t 0 w"
  have r: "root_ok (nodes t)" using assms(1) by (simp add: tree_wf_def)
  have sh: "same_shape (nodes t) (nodes ?t0)" by (rule same_shape_add_count)
  have l0: "0 < length (nodes ?t0)" using r sh by (simp add: root_ok_def same_shape_def)
  have np0: "npath (nodes ?t0) 0 = []"
    using r npath_same_shape [OF sh, of 0] npath_root [of "nodes t"] by (simp add: root_ok_def)
  show ?thesis
    using insert_from_props [OF tree_wf_add_count [OF assms(1)] l0, of p w] np0 assms(2)
    by (simp add: Insert_def)
qed

end
