(* ===== verification/FPGrowth.thy ===== *)
theory FPGrowth
  imports FPTree "HOL-Library.Monad_Syntax"
begin

text \<open>
  Conditional trees and the sequential FP-Growth recursion.
  \<open>frequentItemsInTree\<close> is \<open>src/unnamed/part_001\<close> lines 172-180: the items of the
  header table whose in-tree count is strictly greater than \<open>minCount\<close>. Go iterates
  the map \<open>tree.itemList\<close> in an unspecified order; the model iterates the items in the
  order their first node was created, and the results about mining are stated so that
  they do not depend on that order.
  \<open>makeConditionalTree\<close>, \<open>appendSorted\<close> and \<open>fpGrowth\<close> are not under \<open>src/\<close>
  and follow the spec (sections 4.3 and 9): the conditional tree of an item inserts,
  for each node of the item's header chain, the node's prefix path with the node's count
  as weight into a fresh tree; \<open>appendSorted\<close> inserts the item into the prefix in
  ascending id order, where the spec (section 9) re-sorts by the interner's \<open>cmp\<close>:
  the two differ only in the order of the items within an emitted itemset, and every
  theorem of the development compares itemsets as sets; \<open>fpGrowth\<close> emits, for each frequent item of the tree, the
  extended prefix with the conditional tree's root count, then mines the conditional
  tree. A failing walk (\<open>None\<close>) propagates: \<open>None\<close> means that the Go code would not
  return.
\<close>

primrec item_keys :: "fpNode list \<Rightarrow> item list" where
  "item_keys [] = []"
| "item_keys (n # ns) =
     (case nitem n of None \<Rightarrow> item_keys ns | Some i \<Rightarrow> i # item_keys ns)"

definition headerKeys :: "fpTree \<Rightarrow> item list" where
  "headerKeys t = rev (remdups (rev (item_keys (nodes t))))"

definition frequentItemsInTree :: "fpTree \<Rightarrow> nat \<Rightarrow> item list" where
  "frequentItemsInTree t minCount = filter (\<lambda>i. minCount < get (counts t) i) (headerKeys t)"

fun cond_loop :: "fpTree \<Rightarrow> fpTree \<Rightarrow> nat list \<Rightarrow> fpTree option" where
  "cond_loop t acc [] = Some acc"
| "cond_loop t acc (n # ns) =
     (case prefixPath t n of
        None \<Rightarrow> None
      | Some p \<Rightarrow> cond_loop t (Insert acc p (ncount (nodes t ! n))) ns)"

definition makeConditionalTree :: "fpTree \<Rightarrow> nat option \<Rightarrow> fpTree option" where
  "makeConditionalTree t head =
     (case headerNodes t head of None \<Rightarrow> None | Some ns \<Rightarrow> cond_loop t newTree ns)"

definition appendSorted :: "itemset \<Rightarrow> item \<Rightarrow> itemset" where
  "appendSorted prefix i = insort i prefix"

definition rootCount :: "fpTree \<Rightarrow> nat" where
  "rootCount t = ncount (nodes t ! 0)"

type_synonym itemsetWithCount = "itemset \<times> nat"

partial_function (option) mine_items ::
  "fpTree \<Rightarrow> itemset \<Rightarrow> nat \<Rightarrow> item list \<Rightarrow> itemsetWithCount list option" where
  "mine_items t prefix minCount items =
     (if items = [] then Some []
      else do {
        c \<leftarrow> makeConditionalTree t (itemList t (hd items));
        r1 \<leftarrow> mine_items c (appendSorted prefix (hd items)) minCount (frequentItemsInTree c minCount);
        r2 \<leftarrow> mine_items t prefix minCount (tl items);
        Some ((appendSorted prefix (hd items), rootCount c) # r1 @ r2)
      })"

declare mine_items.simps [code]

definition fpGrowth :: "fpTree \<Rightarrow> itemset \<Rightarrow> nat \<Rightarrow> itemsetWithCount list option" where
  "fpGrowth t prefix minCount = mine_items t prefix minCount (frequentItemsInTree t minCount)"

text \<open>Unfolding the recursion one item at a time.\<close>

lemma mine_items_Nil [simp]: "mine_items t p minCount [] = Some []"
  by (subst mine_items.simps) simp

lemma mine_items_Cons:
  "mine_items t p minCount (i # rest) =
     do {
       c \<leftarrow> makeConditionalTree t (itemList t i);
       r1 \<leftarrow> mine_items c (appendSorted p i) minCount (frequentItemsInTree c minCount);
       r2 \<leftarrow> mine_items t p minCount rest;
       Some ((appendSorted p i, rootCount c) # r1 @ r2)
     }"
  by (subst mine_items.simps) simp

lemma mine_items_Cons_Some:
  assumes "mine_items t p minCount (i # rest) = Some x"
  obtains c r1 r2 where "makeConditionalTree t (itemList t i) = Some c"
    and "mine_items c (appendSorted p i) minCount (frequentItemsInTree c minCount) = Some r1"
    and "mine_items t p minCount rest = Some r2"
    and "x = (appendSorted p i, rootCount c) # r1 @ r2"
  using assms by (auto simp: mine_items_Cons split: Option.bind_splits)

end
