(* ===== verification/Mining.thy ===== *)
theory Mining
  imports TreeInv FPGrowth
begin

text \<open>
  Correctness and termination of the sequential FP-Growth recursion on trees that
  represent a multiset of transactions (\<open>represents\<close>, theory \<open>TreeInv\<close>).
  \<open>frequentItemsInTree\<close> returns each item whose support is above \<open>minCount\<close> once;
  \<open>makeConditionalTree\<close> returns a tree representing the item's conditional pattern
  base, with the item's support as root count; so, when the transactions are sorted by an
  asymmetric order, \<open>mine_items\<close> returns (it does not diverge) and emits every
  non-empty itemset with support above \<open>minCount\<close> exactly once, with its support
  (\<open>mine_items_correct\<close>). The proof is by induction on the total length of the
  transactions, which every conditional pattern base decreases. By the same induction, no
  emitted itemset repeats an item when the prefix is disjoint from the transactions
  (\<open>mine_items_distinct\<close>).
\<close>

lemma item_keys_mem: "x \<in> set (item_keys ns) \<longleftrightarrow> (\<exists>nd \<in> set ns. nitem nd = Some x)"
  by (induction ns) (auto split: option.split)

lemma set_item_keys: "set (item_keys ns) = {x. \<exists>n < length ns. nitem (ns ! n) = Some x}"
proof -
  have "set (item_keys ns) = {x. \<exists>nd \<in> set ns. nitem nd = Some x}"
    using item_keys_mem by blast
  then show ?thesis by (auto simp: in_set_conv_nth) (metis nth_mem)
qed

lemma frequentItemsInTree_rep:
  assumes "represents t M"
  shows "distinct (frequentItemsInTree t m) \<and> set (frequentItemsInTree t m) = {x. m < supp M {x}}"
proof -
  have cnt: "\<And>x. get (counts t) x = supp M {x}"
    and its: "\<And>x. (\<exists>p \<in># M. x \<in> set p) \<Longrightarrow> (\<exists>n < length (nodes t). nitem (nodes t ! n) = Some x)"
    using assms by (auto simp: represents_def)
  have "m < supp M {x} \<Longrightarrow> x \<in> set (headerKeys t)" for x
  proof -
    assume "m < supp M {x}"
    then obtain p where "p \<in># M" "{x} \<subseteq> set p" using supp_pos [of M "{x}"] by auto
    then show ?thesis using its [of x] by (auto simp: headerKeys_def set_item_keys)
  qed
  then show ?thesis
    by (auto simp: frequentItemsInTree_def headerKeys_def cnt)
qed

lemma cond_loop_rep:
  assumes rep: "represents t M" and ns: "\<forall>n \<in> set ns. 0 < n \<and> n < length (nodes t)"
    and acc: "represents acc A"
  shows "\<exists>acc'. cond_loop t acc ns = Some acc' \<and>
           represents acc' (A + (\<Sum>n \<leftarrow> ns. replicate_mset (ncount (nodes t ! n)) (butlast (npath (nodes t) n))))"
  using ns acc
proof (induction ns arbitrary: acc A)
  case Nil
  then show ?case by simp
next
  case (Cons n ns)
  have wf: "tree_wf t" using rep by (simp add: represents_def)
  have n: "0 < n" "n < length (nodes t)" using Cons.prems(1) by simp_all
  have pp: "prefixPath t n = Some (butlast (npath (nodes t) n))" by (rule prefixPath_wf [OF wf n(2,1)])
  have "distinct (npath (nodes t) n)" using wf n by (simp add: tree_wf_def paths_ok_def)
  then have "distinct (butlast (npath (nodes t) n))" by (rule distinct_butlast)
  then have r1: "represents (Insert acc (butlast (npath (nodes t) n)) (ncount (nodes t ! n)))
      (A + replicate_mset (ncount (nodes t ! n)) (butlast (npath (nodes t) n)))"
    by (rule represents_Insert [OF Cons.prems(2)])
  from Cons.IH [OF _ r1] Cons.prems(1) obtain acc' where
    "cond_loop t (Insert acc (butlast (npath (nodes t) n)) (ncount (nodes t ! n))) ns = Some acc'"
    "represents acc' (A + replicate_mset (ncount (nodes t ! n)) (butlast (npath (nodes t) n)) +
       (\<Sum>n \<leftarrow> ns. replicate_mset (ncount (nodes t ! n)) (butlast (npath (nodes t) n))))"
    by auto
  with pp show ?case by (simp add: ac_simps)
qed

lemma makeConditionalTree_rep:
  assumes rep: "represents t M"
  shows "\<exists>c. makeConditionalTree t (itemList t x) = Some c \<and> represents c (cond_db M x)"
proof -
  have wf: "tree_wf t" and hs: "hsum (nodes t) x = cond_db M x" using rep by (simp_all add: represents_def)
  let ?ns = "rev (item_nodes (nodes t) x (length (nodes t)))"
  have root: "nitem (nodes t ! 0) = None" using wf by (simp add: tree_wf_def root_ok_def)
  have ns: "\<forall>n \<in> set ?ns. 0 < n \<and> n < length (nodes t)"
    using root by (auto simp: item_nodes_def intro: gr0I)
  obtain c where c: "cond_loop t newTree ?ns = Some c"
    and rc: "represents c ({#} + (\<Sum>n \<leftarrow> ?ns. replicate_mset (ncount (nodes t ! n)) (butlast (npath (nodes t) n))))"
    using cond_loop_rep [OF rep ns represents_newTree] by blast
  have "(\<Sum>n \<leftarrow> ?ns. replicate_mset (ncount (nodes t ! n)) (butlast (npath (nodes t) n))) = hsum (nodes t) x"
    by (simp add: hsum_def sum_list_rev rev_map [symmetric])
  with rc hs have "represents c (cond_db M x)" by simp
  with c show ?thesis by (simp add: makeConditionalTree_def headerNodes_wf [OF wf])
qed

lemma rootCount_rep: "represents c D \<Longrightarrow> rootCount c = size D"
  by (simp add: represents_def rootCount_def)

lemma set_appendSorted: "set (appendSorted p x) = set p \<union> {x}"
  by (simp add: appendSorted_def set_insort_key)

lemma mine_items_list:
  assumes rep: "represents t M"
    and IH: "\<And>x c P'. m < supp M {x} \<Longrightarrow> represents c (cond_db M x) \<Longrightarrow>
               \<exists>R. mine_items c P' m (frequentItemsInTree c m) = Some R \<and>
                   image_mset (\<lambda>(s, n). (set s, n)) (mset R) = mined (cond_db M x) (set P') m"
    and xs: "set xs \<subseteq> {x. m < supp M {x}}"
  shows "\<exists>R. mine_items t P m xs = Some R \<and>
           image_mset (\<lambda>(s, n). (set s, n)) (mset R) =
             (\<Sum>x \<leftarrow> xs. add_mset (set P \<union> {x}, supp M {x}) (mined (cond_db M x) (set P \<union> {x}) m))"
  using xs
proof (induction xs)
  case Nil
  then show ?case by simp
next
  case (Cons x xs)
  then have fx: "m < supp M {x}" and rest: "set xs \<subseteq> {x. m < supp M {x}}" by simp_all
  obtain c where c: "makeConditionalTree t (itemList t x) = Some c" and rc: "represents c (cond_db M x)"
    using makeConditionalTree_rep [OF rep] by blast
  obtain R1 where R1: "mine_items c (appendSorted P x) m (frequentItemsInTree c m) = Some R1"
    and m1: "image_mset (\<lambda>(s, n). (set s, n)) (mset R1) = mined (cond_db M x) (set P \<union> {x}) m"
    using IH [OF fx rc, of "appendSorted P x"] by (auto simp: set_appendSorted)
  obtain R2 where R2: "mine_items t P m xs = Some R2"
    and m2: "image_mset (\<lambda>(s, n). (set s, n)) (mset R2) =
               (\<Sum>x \<leftarrow> xs. add_mset (set P \<union> {x}, supp M {x}) (mined (cond_db M x) (set P \<union> {x}) m))"
    using Cons.IH [OF rest] by blast
  have "rootCount c = supp M {x}" using rootCount_rep [OF rc] by (simp add: size_cond_db)
  then show ?case
    using c R1 R2 m1 m2 by (simp add: mine_items_Cons set_appendSorted)
qed

theorem mine_items_correct:
  assumes "represents t M" and "sorted_db lt M" and "asymp lt"
  shows "\<exists>R. mine_items t P m (frequentItemsInTree t m) = Some R \<and>
           image_mset (\<lambda>(s, n). (set s, n)) (mset R) = mined M (set P) m"
  using assms(1,2)
proof (induction "db_size M" arbitrary: t M P rule: less_induct)
  case less
  have IH: "\<exists>R. mine_items c P' m (frequentItemsInTree c m) = Some R \<and>
              image_mset (\<lambda>(s, n). (set s, n)) (mset R) = mined (cond_db M x) (set P') m"
    if fx: "m < supp M {x}" and rc: "represents c (cond_db M x)" for x c P'
  proof (rule less.hyps)
    show "db_size (cond_db M x) < db_size M" using db_size_cond [of M x] fx by linarith
    show "sorted_db lt (cond_db M x)" using less.prems(2) by (rule sorted_db_cond)
  qed (rule rc)
  note fr = frequentItemsInTree_rep [OF less.prems(1), of m]
  obtain R where R: "mine_items t P m (frequentItemsInTree t m) = Some R"
    and mR: "image_mset (\<lambda>(s, n). (set s, n)) (mset R) =
       (\<Sum>x \<leftarrow> frequentItemsInTree t m. add_mset (set P \<union> {x}, supp M {x}) (mined (cond_db M x) (set P \<union> {x}) m))"
    using mine_items_list [OF less.prems(1) IH, of "frequentItemsInTree t m" P] fr by blast
  have "mined M (set P) m =
       (\<Sum>x \<leftarrow> frequentItemsInTree t m. add_mset (set P \<union> {x}, supp M {x}) (mined (cond_db M x) (set P \<union> {x}) m))"
    using mined_split [OF less.prems(2) assms(3)] fr by blast
  with R mR show ?case by simp
qed

subsection \<open>The emitted itemsets have no repeated item\<close>

lemma cond_db_disjoint:
  "\<forall>p \<in># M. set p \<inter> set P = {} \<Longrightarrow> \<forall>q \<in># cond_db M x. set q \<inter> set (appendSorted P x) = {}"
  by (auto simp: cond_db_def set_appendSorted dest: set_takeWhileD)

lemma distinct_appendSorted: "distinct P \<Longrightarrow> x \<notin> set P \<Longrightarrow> distinct (appendSorted P x)"
  by (simp add: appendSorted_def distinct_insort)

lemma mine_items_list_distinct:
  assumes rep: "represents t M" and disj: "\<forall>p \<in># M. set p \<inter> set P = {}" and dP: "distinct P"
    and IH: "\<And>x c P' R'. m < supp M {x} \<Longrightarrow> represents c (cond_db M x) \<Longrightarrow> distinct P' \<Longrightarrow>
               \<forall>q \<in># cond_db M x. set q \<inter> set P' = {} \<Longrightarrow>
               mine_items c P' m (frequentItemsInTree c m) = Some R' \<Longrightarrow> \<forall>r \<in> set R'. distinct (fst r)"
    and xs: "set xs \<subseteq> {x. m < supp M {x}}" and run: "mine_items t P m xs = Some R"
  shows "\<forall>r \<in> set R. distinct (fst r)"
  using xs run
proof (induction xs arbitrary: R)
  case Nil
  then show ?case by simp
next
  case (Cons x xs)
  then have fx: "m < supp M {x}" and rest: "set xs \<subseteq> {x. m < supp M {x}}" by simp_all
  obtain c r1 r2 where c: "makeConditionalTree t (itemList t x) = Some c"
    and r1: "mine_items c (appendSorted P x) m (frequentItemsInTree c m) = Some r1"
    and r2: "mine_items t P m xs = Some r2"
    and R: "R = (appendSorted P x, rootCount c) # r1 @ r2"
    using Cons.prems(2) by (rule mine_items_Cons_Some)
  have rc: "represents c (cond_db M x)"
    using makeConditionalTree_rep [OF rep, of x] c by auto
  obtain p where "p \<in># M" "x \<in> set p" using supp_pos [of M "{x}"] fx by auto
  then have "x \<notin> set P" using disj by blast
  then have dx: "distinct (appendSorted P x)" by (rule distinct_appendSorted [OF dP])
  have "\<forall>r \<in> set r1. distinct (fst r)"
    using IH [OF fx rc dx cond_db_disjoint [OF disj] r1] .
  moreover have "\<forall>r \<in> set r2. distinct (fst r)" using Cons.IH [OF rest r2] .
  ultimately show ?case using R dx by auto
qed

lemma mine_items_distinct:
  assumes "represents t M" and "\<forall>p \<in># M. set p \<inter> set P = {}" and "distinct P"
    and "mine_items t P m (frequentItemsInTree t m) = Some R"
  shows "\<forall>r \<in> set R. distinct (fst r)"
  using assms
proof (induction "db_size M" arbitrary: t M P R rule: less_induct)
  case less
  have IH: "\<forall>r \<in> set R'. distinct (fst r)"
    if fx: "m < supp M {x}" and rc: "represents c (cond_db M x)" and "distinct P'"
      and "\<forall>q \<in># cond_db M x. set q \<inter> set P' = {}"
      and "mine_items c P' m (frequentItemsInTree c m) = Some R'" for x c P' R'
  proof (rule less.hyps [OF _ rc that(4,3,5)])
    show "db_size (cond_db M x) < db_size M" using db_size_cond [of M x] fx by linarith
  qed
  have fr: "set (frequentItemsInTree t m) \<subseteq> {x. m < supp M {x}}"
    using frequentItemsInTree_rep [OF less.prems(1)] by blast
  from mine_items_list_distinct [OF less.prems(1,2,3) IH fr less.prems(4)] show ?case .
qed

end
