(* ===== verification/Pass2.thy ===== *)
theory Pass2
  imports Pass1 FPGrowth Float64
begin

text \<open>
  Pass 2, \<open>generateFrequentItemsets\<close> (\<open>src/arm.go\<close> lines 146-183): \<open>minCount\<close>
  is \<open>max(1, int(math.Ceil(minSupport * float64(numTransactions))))\<close>, with the
  float64 product rounded to nearest even (theory \<open>Float64\<close>); \<open>minCount_spec\<close> is
  the spec's exact \<open>\<lceil>minSupport \<cdot> N\<rceil>\<close>, which the code computes up to one; each line is filtered to its frequent
  items (\<open>frequency \<ge> minCount\<close>), skipped when none is left, sorted by
  decreasing frequency with \<open>cmp\<close> breaking ties (\<open>sort.SliceStable\<close>), and
  inserted with weight 1; the tree is then mined by \<open>fpGrowth\<close> with the empty prefix.
  \<open>sort.SliceStable\<close> is library code; any stable sort gives the same result, and the
  model uses stable insertion sort.
\<close>

fun ins_stable :: "('a \<Rightarrow> 'a \<Rightarrow> bool) \<Rightarrow> 'a \<Rightarrow> 'a list \<Rightarrow> 'a list" where
  "ins_stable lt x [] = [x]"
| "ins_stable lt x (y # ys) = (if lt y x then y # ins_stable lt x ys else x # y # ys)"

fun sort_stable :: "('a \<Rightarrow> 'a \<Rightarrow> bool) \<Rightarrow> 'a list \<Rightarrow> 'a list" where
  "sort_stable lt [] = []"
| "sort_stable lt (x # xs) = ins_stable lt x (sort_stable lt xs)"

definition minCount_spec :: "rat \<Rightarrow> nat \<Rightarrow> nat" where
  "minCount_spec minSupport numTransactions =
     nat (max 1 \<lceil>minSupport * of_nat numTransactions\<rceil>)"

text \<open>\<open>minCount\<close> as the code computes it from the float64 \<open>minSupport\<close>. A NaN or
  infinite product makes \<open>math.Ceil\<close> return it unchanged, and Go's conversion of a
  non-finite float64 to \<open>int\<close> yields the minimum \<open>int64\<close> on amd64 (0 for NaN on
  arm64), so \<open>max(1, ...)\<close> gives 1 on both targets when \<open>minSupport\<close> is NaN, the
  one non-finite value that \<open>Validate\<close> lets through.\<close>

definition minCountOf_f64 :: "float64 \<Rightarrow> nat \<Rightarrow> nat" where
  "minCountOf_f64 minSupport numTransactions =
     nat (max 1 (go_int (f64_ceil (f64_mul minSupport (f64_of_nat numTransactions)))))"

text \<open>The comparison closure of \<open>sort.SliceStable\<close> (arm.go lines 168-175).\<close>

definition freqLess :: "Itemizer \<Rightarrow> itemCount \<Rightarrow> item \<Rightarrow> item \<Rightarrow> bool" where
  "freqLess it freq a b =
     (if get freq a = get freq b then cmp it a b else get freq b < get freq a)"

definition frequentTransaction :: "Itemizer \<Rightarrow> itemCount \<Rightarrow> nat \<Rightarrow> string \<Rightarrow> item list" where
  "frequentTransaction it freq minCount l =
     sort_stable (freqLess it freq) (itemizer_filter it (lineTokens l) (\<lambda>i. minCount \<le> get freq i))"

fun buildTree :: "Itemizer \<Rightarrow> itemCount \<Rightarrow> nat \<Rightarrow> fpTree \<Rightarrow> string list \<Rightarrow> fpTree" where
  "buildTree it freq minCount t [] = t"
| "buildTree it freq minCount t (l # ls) =
     (let tr = frequentTransaction it freq minCount l
      in if tr = [] then buildTree it freq minCount t ls
         else buildTree it freq minCount (Insert t tr 1) ls)"

definition generateFrequentItemsets ::
  "input_file \<Rightarrow> float64 \<Rightarrow> Itemizer \<Rightarrow> itemCount \<Rightarrow> nat \<Rightarrow> (arm_error + itemsetWithCount list) option" where
  "generateFrequentItemsets f minSupport it freq numTransactions =
     (case f of
        OpenFailed e \<Rightarrow> Some (Inl (ErrIO e))
      | Opened ls err \<Rightarrow>
          (let minCount = minCountOf_f64 minSupport numTransactions;
               tree = buildTree it freq minCount newTree ls
           in case err of
                Some e \<Rightarrow> Some (Inl (ErrIO e))
              | None \<Rightarrow> map_option Inr (fpGrowth tree [] minCount)))"

subsection \<open>The minimum count\<close>

lemma minCountOf_f64_Fin:
  assumes s: "0 \<le> s" "s \<le> 1" and n: "n < 2 ^ 53"
  shows "minCountOf_f64 (Fin s) n = nat (max 1 \<lceil>f64_round (s * of_nat n)\<rceil>)"
proof -
  let ?x = "s * of_nat n"
  have x0: "0 \<le> ?x" using s by simp
  have xn: "?x \<le> of_int (int n)" using s by (simp add: mult_left_le_one_le)
  have r0: "0 \<le> f64_round ?x" using x0 by (rule f64_round_nonneg)
  have "f64_round ?x \<le> f64_round (of_int (int n))" using x0 xn by (rule f64_round_mono)
  also have "\<dots> = of_nat n" using n by (subst f64_round_of_int) simp_all
  finally have rn: "f64_round ?x \<le> of_nat n" .
  have "(of_nat n :: rat) < of_int (2 ^ 53)" using n by (metis of_int_of_nat_eq of_int_less_iff of_nat_less_iff of_nat_numeral of_nat_power of_int_numeral of_int_power)
  then have small: "f64_round ?x < 2 ^ 53" using rn by simp
  then have "\<bar>f64_round ?x\<bar> < 2 ^ 1024" using r0 pow2_53_less_1024 by simp
  then have m: "f64_mul (Fin s) (f64_of_nat n) = Fin (f64_round ?x)"
    using n by (simp add: f64_of_rat_def)
  have c0: "0 \<le> \<lceil>f64_round ?x\<rceil>" using r0 by simp
  have "\<lceil>f64_round ?x\<rceil> \<le> \<lceil>of_nat n :: rat\<rceil>" using rn by (rule ceiling_mono)
  moreover have "int n < 2 ^ 63" using n by simp
  ultimately have "\<lceil>f64_round ?x\<rceil> < 2 ^ 63" by linarith
  with c0 have "go_int (f64_ceil (Fin (f64_round ?x))) = \<lceil>f64_round ?x\<rceil>"
    by (simp only: f64_ceil.simps) (rule go_int_of_int; simp)
  then show ?thesis by (simp add: minCountOf_f64_def m)
qed

lemma minCountOf_f64_one: "n < 2 ^ 53 \<Longrightarrow> minCountOf_f64 (Fin 1) n = max 1 n"
  using minCountOf_f64_Fin [of 1 n] by (simp add: max_def)

text \<open>
  Claim C10: \<open>minCount\<close> is the float64 reading of the spec's \<open>\<lceil>minSupport \<cdot> N\<rceil>\<close>.
  For a \<open>minSupport\<close> in \<open>[0, 1]\<close> (what \<open>Validate\<close> admits besides NaN) and fewer
  than \<open>2^53\<close> transactions, the code's \<open>minCount\<close> is the ceiling of the product
  rounded to the nearest double, and it is the spec's value or one less.
\<close>

theorem minCount_f64_bounds:
  assumes "0 \<le> s" "s \<le> 1" "n < 2 ^ 53"
  shows "minCountOf_f64 (Fin s) n = nat (max 1 \<lceil>f64_round (s * of_nat n)\<rceil>) \<and>
         minCountOf_f64 (Fin s) n \<le> minCount_spec s n \<and> minCount_spec s n \<le> minCountOf_f64 (Fin s) n + 1"
proof -
  have "\<lceil>f64_round (s * of_nat n)\<rceil> \<le> \<lceil>s * of_nat n\<rceil> \<and> \<lceil>s * of_nat n\<rceil> \<le> \<lceil>f64_round (s * of_nat n)\<rceil> + 1"
    using assms by (intro f64_round_ceiling [of _ "int n"]) (simp_all add: mult_left_le_one_le)
  then show ?thesis unfolding minCountOf_f64_Fin [OF assms] minCount_spec_def by linarith
qed

theorem minCount_f64_bounds_witness:
  "0 \<le> (3602879701896397 / 36028797018963968 :: rat) \<and> (3602879701896397 / 36028797018963968 :: rat) \<le> 1 \<and>
   (10::nat) < 2 ^ 53 \<and>
   minCountOf_f64 (Fin (3602879701896397 / 36028797018963968)) 10 =
     nat (max 1 \<lceil>f64_round (3602879701896397 / 36028797018963968 * of_nat (10::nat))\<rceil>) \<and>
   minCountOf_f64 (Fin (3602879701896397 / 36028797018963968)) 10 = 1 \<and>
   minCount_spec (3602879701896397 / 36028797018963968) 10 = 2"
proof -
  have a: "minCountOf_f64 (Fin (3602879701896397 / 36028797018963968)) 10 = 1" by code_simp
  have b: "minCount_spec (3602879701896397 / 36028797018963968) 10 = 2" by code_simp
  from minCount_f64_bounds [of "3602879701896397 / 36028797018963968" 10]
  have "minCountOf_f64 (Fin (3602879701896397 / 36028797018963968)) 10 =
     nat (max 1 \<lceil>f64_round (3602879701896397 / 36028797018963968 * of_nat (10::nat))\<rceil>)" by simp
  with a b show ?thesis by simp
qed

text \<open>
  The code's \<open>minCount\<close> differs from the spec's on a decimal threshold.
  \<open>-minSupport 0.07\<close> parses (\<open>strconv.ParseFloat\<close>, correctly rounded) to the double
  nearest \<open>0.07\<close>, which is slightly above it; its product with 100 rounds to
  \<open>7.000000000000001\<close>, so over 100 transactions the code's \<open>minCount\<close> is 8, where
  the spec's \<open>\<lceil>0.07 \<cdot> 100\<rceil>\<close> is 7: items in exactly 7 transactions are dropped.
\<close>

lemma minCount_decimal_example:
  "f64_of_rat (7/100) = Fin (1261007895663739 / 18014398509481984) \<and>
   minCountOf_f64 (f64_of_rat (7/100)) 100 = 8 \<and> minCount_spec (7/100) 100 = 7"
proof -
  have "f64_of_rat (7/100) = Fin (1261007895663739 / 18014398509481984)" by code_simp
  moreover have "minCountOf_f64 (Fin (1261007895663739 / 18014398509481984)) 100 = 8" by code_simp
  moreover have "minCount_spec (7/100) 100 = 7" by (simp add: minCount_spec_def)
  ultimately show ?thesis by simp
qed

end
