(* ===== verification/Pass2Correct.thy ===== *)
theory Pass2Correct
  imports Mining Pass2
begin

text \<open>
  Pass 2 is correct: the tree \<open>buildTree\<close> builds represents the multiset of the
  filtered, frequency-sorted transactions (\<open>pass2_db\<close>); the sort order
  \<open>freqLess\<close> is a strict order, total on the interned ids, so every transaction is
  sorted by it; hence, by \<open>mine_items_correct\<close>, \<open>generateFrequentItemsets\<close>
  returns exactly the itemsets of that multiset with support above \<open>minCount\<close>.
\<close>

definition pass2_db :: "Itemizer \<Rightarrow> itemCount \<Rightarrow> nat \<Rightarrow> string list \<Rightarrow> item list multiset" where
  "pass2_db it freq minCount ls =
     mset (filter (\<lambda>tr. tr \<noteq> []) (map (frequentTransaction it freq minCount) ls))"

subsection \<open>The stable insertion sort\<close>

lemma mset_ins_stable [simp]: "mset (ins_stable lt x ys) = add_mset x (mset ys)"
  by (induction ys) auto

lemma mset_sort_stable [simp]: "mset (sort_stable lt xs) = mset xs"
  by (induction xs) auto

lemma set_sort_stable [simp]: "set (sort_stable lt xs) = set xs"
  by (metis mset_sort_stable set_mset_mset)

lemma distinct_sort_stable [simp]: "distinct (sort_stable lt xs) = distinct xs"
  by (metis mset_sort_stable mset_eq_imp_distinct_iff)

lemma sorted_ins_stable:
  assumes "transp lt" and "sorted_wrt lt ys" and "\<forall>y \<in> set ys. lt x y \<or> lt y x"
  shows "sorted_wrt lt (ins_stable lt x ys)"
  using assms(2,3)
proof (induction ys)
  case (Cons y ys)
  show ?case
  proof (cases "lt y x")
    case True
    have "set (ins_stable lt x ys) = insert x (set ys)"
      by (metis mset_ins_stable set_mset_mset set_mset_add_mset_insert)
    moreover have "sorted_wrt lt (ins_stable lt x ys)"
      using Cons.IH Cons.prems by simp
    ultimately show ?thesis using True Cons.prems(1) by simp
  next
    case False
    with Cons.prems have "lt x y" by simp
    with False Cons.prems(1) assms(1) show ?thesis by (auto dest: transpD)
  qed
qed simp

lemma sorted_sort_stable:
  assumes "transp lt" and "distinct xs" and "\<forall>x \<in> set xs. \<forall>y \<in> set xs. x \<noteq> y \<longrightarrow> lt x y \<or> lt y x"
  shows "sorted_wrt lt (sort_stable lt xs)"
  using assms(2,3)
proof (induction xs)
  case (Cons x xs)
  then show ?case by (auto intro!: sorted_ins_stable [OF assms(1)])
qed simp

subsection \<open>The order of pass 2\<close>

lemma freqLess_transp: "transp (freqLess it freq)"
  by (rule transpI) (auto simp: freqLess_def split: if_splits intro: cmp_trans)

lemma freqLess_asymp: "asymp (freqLess it freq)"
  by (rule asympI) (auto simp: freqLess_def cmp_def split: if_splits dest: go_str_less_asym)

lemma freqLess_total:
  "itemizer_ok it \<Longrightarrow> a < length (itemToStr it) \<Longrightarrow> b < length (itemToStr it) \<Longrightarrow> a \<noteq> b \<Longrightarrow>
   freqLess it freq a b \<or> freqLess it freq b a"
  using cmp_total [of it a b] by (auto simp: freqLess_def)

lemma frequentTransaction_props:
  "distinct (frequentTransaction it freq minCount l) \<and>
   set (frequentTransaction it freq minCount l) =
     {i. \<exists>t \<in> set (lineTokens l). t \<noteq> [] \<and> strToItem it t = Some i \<and> minCount \<le> get freq i}"
  using itemizer_filter_spec by (simp add: frequentTransaction_def)

lemma frequentTransaction_sorted:
  assumes "itemizer_ok it"
  shows "sorted_wrt (freqLess it freq) (frequentTransaction it freq minCount l)"
proof -
  let ?f = "itemizer_filter it (lineTokens l) (\<lambda>i. minCount \<le> get freq i)"
  have "\<forall>i \<in> set ?f. i < length (itemToStr it)"
    using itemizer_filter_spec [of it "lineTokens l"] assms by (auto simp: itemizer_ok_def)
  then have "\<forall>a \<in> set ?f. \<forall>b \<in> set ?f. a \<noteq> b \<longrightarrow> freqLess it freq a b \<or> freqLess it freq b a"
    using freqLess_total [OF assms] by blast
  with sorted_sort_stable [OF freqLess_transp] show ?thesis
    by (simp add: frequentTransaction_def itemizer_filter_spec)
qed

subsection \<open>The tree of pass 2\<close>

lemma buildTree_rep:
  "represents t M \<Longrightarrow> represents (buildTree it freq minCount t ls) (M + pass2_db it freq minCount ls)"
proof (induction ls arbitrary: t M)
  case Nil
  then show ?case by (simp add: pass2_db_def)
next
  case (Cons l ls)
  let ?tr = "frequentTransaction it freq minCount l"
  show ?case
  proof (cases "?tr = []")
    case True
    with Cons show ?thesis by (simp add: pass2_db_def)
  next
    case False
    have "represents (Insert t ?tr 1) (M + replicate_mset 1 ?tr)"
      using represents_Insert [OF Cons.prems] frequentTransaction_props by blast
    from Cons.IH [OF this] False show ?thesis by (simp add: pass2_db_def)
  qed
qed

lemma pass2_db_sorted: "itemizer_ok it \<Longrightarrow> sorted_db (freqLess it freq) (pass2_db it freq minCount ls)"
  by (auto simp: sorted_db_def pass2_db_def frequentTransaction_sorted)

text \<open>Sequential FP-Growth on the tree of pass 2 returns the frequent itemsets.\<close>

lemma fpGrowth_buildTree:
  assumes "itemizer_ok it"
  shows "\<exists>R. fpGrowth (buildTree it freq minCount newTree ls) [] minCount = Some R \<and>
           image_mset (\<lambda>(s, c). (set s, c)) (mset R) = mined (pass2_db it freq minCount ls) {} minCount"
proof -
  have rep: "represents (buildTree it freq minCount newTree ls) (pass2_db it freq minCount ls)"
    using buildTree_rep [OF represents_newTree] by simp
  from mine_items_correct [OF rep pass2_db_sorted [OF assms] freqLess_asymp, of "[]" minCount]
  show ?thesis by (simp add: fpGrowth_def)
qed

text \<open>
  Claim C7: \<open>buildTree\<close> refines the multiset of transactions. Starting from
  \<open>newTree\<close>, the tree pass 2 builds from any lines is well formed and represents the
  multiset of their non-empty filtered, sorted transactions (\<open>pass2_db\<close>): its root
  count is their number, the header count of every item is its support, the prefix paths
  above the nodes of every item are the item's conditional pattern base, and every item
  of a transaction has a node.
\<close>

theorem buildTree_represents:
  "represents (buildTree it freq minCount newTree ls) (pass2_db it freq minCount ls)"
  using buildTree_rep [OF represents_newTree] by simp

theorem buildTree_represents_witness:
  "represents (buildTree \<lparr>strToItem = [''a'' \<mapsto> 0], itemToStr = [''a'']\<rparr> (makeCounts(0 \<mapsto> 2)) 1 newTree [''a'', ''a''])
     {#[0], [0]#} \<and>
   ncount (nodes (buildTree \<lparr>strToItem = [''a'' \<mapsto> 0], itemToStr = [''a'']\<rparr> (makeCounts(0 \<mapsto> 2)) 1 newTree [''a'', ''a'']) ! 0) = 2"
proof -
  let ?it = "\<lparr>strToItem = [''a'' \<mapsto> 0], itemToStr = [''a'']\<rparr>"
  have db: "pass2_db ?it (makeCounts(0 \<mapsto> 2)) 1 [''a'', ''a''] = {#[0], [0]#}"
    by (simp add: pass2_db_def frequentTransaction_def itemizer_filter_def lineTokens_def get_def
                  lookup_default_def)
  have r: "represents (buildTree ?it (makeCounts(0 \<mapsto> 2)) 1 newTree [''a'', ''a'']) {#[0], [0]#}"
    using buildTree_represents [of ?it "makeCounts(0 \<mapsto> 2)" 1 "[''a'', ''a'']"] db by simp
  then show ?thesis by (simp add: represents_def)
qed

text \<open>
  Claim C5: pass 2 returns, and returns the frequent itemsets. For a file read without
  error and a well-formed interner (the one pass 1 builds), \<open>generateFrequentItemsets\<close>
  returns \<open>Some (Inr R)\<close> (the mining does not diverge), and \<open>R\<close> lists every
  non-empty set of items whose support in the filtered transactions is above
  \<open>minCount\<close> exactly once, with its support (spec sections 4.2-4.3 and 8).
\<close>

theorem generateFrequentItemsets_correct:
  assumes "itemizer_ok it"
  shows "\<exists>R. generateFrequentItemsets (Opened ls None) ms it freq n = Some (Inr R) \<and>
           image_mset (\<lambda>(s, c). (set s, c)) (mset R) =
             mined (pass2_db it freq (minCountOf_f64 ms n) ls) {} (minCountOf_f64 ms n)"
  using fpGrowth_buildTree [OF assms, of freq "minCountOf_f64 ms n" ls]
  by (auto simp: generateFrequentItemsets_def)

theorem generateFrequentItemsets_correct_witness:
  "itemizer_ok \<lparr>strToItem = [''a'' \<mapsto> 0, ''b'' \<mapsto> 1], itemToStr = [''a'', ''b'']\<rparr> \<and>
   (\<exists>R. generateFrequentItemsets (Opened [''a,b'', ''a''] None) (Fin (1/2))
          \<lparr>strToItem = [''a'' \<mapsto> 0, ''b'' \<mapsto> 1], itemToStr = [''a'', ''b'']\<rparr> (makeCounts(0 \<mapsto> 2, 1 \<mapsto> 1)) 2 = Some (Inr R) \<and>
        image_mset (\<lambda>(s, c). (set s, c)) (mset R) =
          mined (pass2_db \<lparr>strToItem = [''a'' \<mapsto> 0, ''b'' \<mapsto> 1], itemToStr = [''a'', ''b'']\<rparr> (makeCounts(0 \<mapsto> 2, 1 \<mapsto> 1))
                 (minCountOf_f64 (Fin (1/2)) 2) [''a,b'', ''a'']) {} (minCountOf_f64 (Fin (1/2)) 2))"
proof -
  have ok: "itemizer_ok \<lparr>strToItem = [''a'' \<mapsto> 0, ''b'' \<mapsto> 1], itemToStr = [''a'', ''b'']\<rparr>"
    by (auto simp: itemizer_ok_def nth_Cons split: if_splits nat.splits)
  from generateFrequentItemsets_correct [OF ok] ok show ?thesis by blast
qed

end
