(* ===== verification/Supports.thy ===== *)
theory Supports
  imports Pass2Correct
begin

text \<open>
  The itemsets of pass 2 in terms of the input lines. \<open>lsupp it ls S\<close> is the
  support of a set of ids in the sense of the spec: the number of lines whose tokens
  contain the name of every id of \<open>S\<close>. After pass 1, the filtered transactions of
  pass 2 have, for every set of interned ids, the support \<open>lsupp\<close> gives when all its
  items are frequent, and no support otherwise; so \<open>generateFrequentItemsets\<close>
  returns every non-empty set of interned ids whose line support is above
  \<open>minCount\<close>, once, with that support.
\<close>

definition lsupp :: "Itemizer \<Rightarrow> string list \<Rightarrow> item set \<Rightarrow> nat" where
  "lsupp it ls S = length (filter (\<lambda>l. \<forall>i \<in> S. toStr it i \<in> set (lineTokens l)) ls)"

lemma lsupp_Nil [simp]: "lsupp it [] S = 0"
  by (simp add: lsupp_def)

lemma lsupp_Cons [simp]:
  "lsupp it (l # ls) S = lsupp it ls S + (if \<forall>i \<in> S. toStr it i \<in> set (lineTokens l) then 1 else 0)"
  by (simp add: lsupp_def)

lemma lsupp_le_length: "lsupp it ls S \<le> length ls"
  by (simp add: lsupp_def)

lemma lsupp_anti: "i \<in> S \<Longrightarrow> lsupp it ls S \<le> lsupp it ls {i}"
  by (induction ls) auto

lemma itemizer_ok_strToItem_iff:
  assumes "itemizer_ok it" and "i < length (itemToStr it)"
  shows "strToItem it t = Some i \<longleftrightarrow> t = toStr it i"
proof
  assume "strToItem it t = Some i"
  with assms show "t = toStr it i" by (simp add: itemizer_ok_def toStr_def)
next
  assume "t = toStr it i"
  with assms show "strToItem it t = Some i" by (simp add: itemizer_ok_def toStr_def)
qed

lemma frequentTransaction_mem:
  assumes ok: "itemizer_ok it"
  shows "i \<in> set (frequentTransaction it freq m l) \<longleftrightarrow>
           i < length (itemToStr it) \<and> m \<le> get freq i \<and> toStr it i \<in> set (lineTokens l)"
    (is "?l \<longleftrightarrow> ?r")
proof
  assume ?l
  then obtain t where t: "t \<in> set (lineTokens l)" "strToItem it t = Some i" and f: "m \<le> get freq i"
    using frequentTransaction_props [of it freq m l] by auto
  have i: "i < length (itemToStr it)" using ok t(2) by (simp add: itemizer_ok_def)
  with t itemizer_ok_strToItem_iff [OF ok i, of t] f show ?r by simp
next
  assume r: ?r
  then have s: "strToItem it (toStr it i) = Some i" using itemizer_ok_strToItem_iff [OF ok] by blast
  moreover have "toStr it i \<noteq> []" using itemizer_ok_toStr_ne [OF ok s] .
  ultimately show ?l using r frequentTransaction_props [of it freq m l] by blast
qed

lemma supp_union: "supp (A + B) S = supp A S + supp B S"
  by (simp add: supp_def)

lemma supp_pass2_db:
  assumes "itemizer_ok it" and "S \<noteq> {}"
  shows "supp (pass2_db it freq m ls) S =
           (if \<forall>i \<in> S. i < length (itemToStr it) \<and> m \<le> get freq i then lsupp it ls S else 0)"
proof (induction ls)
  case Nil
  then show ?case by (simp add: pass2_db_def)
next
  case (Cons l ls)
  let ?tr = "frequentTransaction it freq m l"
  have sub: "S \<subseteq> set ?tr \<longleftrightarrow>
      (\<forall>i \<in> S. i < length (itemToStr it) \<and> m \<le> get freq i \<and> toStr it i \<in> set (lineTokens l))"
    using frequentTransaction_mem [OF assms(1)] by blast
  have db: "pass2_db it freq m (l # ls) = (if ?tr = [] then {#} else {#?tr#}) + pass2_db it freq m ls"
    by (simp add: pass2_db_def)
  have "supp (if ?tr = [] then {#} else {#?tr#}) S =
        (if \<forall>i \<in> S. i < length (itemToStr it) \<and> m \<le> get freq i \<and> toStr it i \<in> set (lineTokens l)
         then 1 else 0)"
  proof (cases "?tr = []")
    case True
    then have "\<not> S \<subseteq> set ?tr" using assms(2) by simp
    with True sub show ?thesis by (simp add: supp_def)
  next
    case False
    with sub show ?thesis by (simp add: supp_def)
  qed
  then show ?case
    unfolding db supp_union Cons.IH by (auto simp: supp_def)
qed

lemma countItems_lsupp:
  assumes "countItems (Opened ls None) = Inr (it, freq, n)"
  shows "itemizer_ok it \<and> n = length ls \<and> (\<forall>i < length (itemToStr it). get freq i = lsupp it ls {i})"
proof -
  obtain it' freq' n' where run: "countLines newItemizer makeCounts 0 ls = (it', freq', n')"
    by (cases "countLines newItemizer makeCounts 0 ls") auto
  with assms have eq: "it' = it" "freq' = freq" "n' = n" by (simp_all add: countItems_def)
  note spec = countLines_spec [OF itemizer_ok_new run [unfolded eq]]
  have ok: "itemizer_ok it" using spec by simp
  have "get freq i = lsupp it ls {i}" if i: "i < length (itemToStr it)" for i
  proof -
    have "strToItem it (toStr it i) = Some i" using itemizer_ok_strToItem_iff [OF ok i] by simp
    with spec show ?thesis by (simp add: lines_with_def lsupp_def)
  qed
  with ok spec show ?thesis by simp
qed

lemma countItems_Opened_None: "\<exists>it freq. countItems (Opened ls None) = Inr (it, freq, length ls)"
proof -
  obtain it freq n where c: "countLines newItemizer makeCounts 0 ls = (it, freq, n)"
    by (cases "countLines newItemizer makeCounts 0 ls") auto
  then have "countItems (Opened ls None) = Inr (it, freq, n)" by (simp add: countItems_def)
  with countItems_lsupp [OF this] show ?thesis by auto
qed

lemma freq_sets_pass2_db:
  assumes ok: "itemizer_ok it" and fr: "\<forall>i < length (itemToStr it). get freq i = lsupp it ls {i}"
  shows "freq_sets (pass2_db it freq m ls) m =
           {S. S \<noteq> {} \<and> S \<subseteq> {..<length (itemToStr it)} \<and> m < lsupp it ls S}"
proof -
  have "m < supp (pass2_db it freq m ls) S \<longleftrightarrow> S \<subseteq> {..<length (itemToStr it)} \<and> m < lsupp it ls S"
    if ne: "S \<noteq> {}" for S
  proof
    assume "m < supp (pass2_db it freq m ls) S"
    then show "S \<subseteq> {..<length (itemToStr it)} \<and> m < lsupp it ls S"
      using supp_pass2_db [OF ok ne, of freq m ls] by (auto split: if_splits)
  next
    assume r: "S \<subseteq> {..<length (itemToStr it)} \<and> m < lsupp it ls S"
    have "m \<le> get freq i" if "i \<in> S" for i
      using r that fr lsupp_anti [OF that, of it ls] by fastforce
    with r show "m < supp (pass2_db it freq m ls) S"
      using supp_pass2_db [OF ok ne, of freq m ls] by auto
  qed
  then show ?thesis by (auto simp: freq_sets_def)
qed

lemma mined_pass2_db:
  assumes ok: "itemizer_ok it" and fr: "\<forall>i < length (itemToStr it). get freq i = lsupp it ls {i}"
  shows "mined (pass2_db it freq m ls) {} m =
           image_mset (\<lambda>S. (S, lsupp it ls S))
             (mset_set {S. S \<noteq> {} \<and> S \<subseteq> {..<length (itemToStr it)} \<and> m < lsupp it ls S})"
proof -
  let ?F = "{S. S \<noteq> {} \<and> S \<subseteq> {..<length (itemToStr it)} \<and> m < lsupp it ls S}"
  have F: "freq_sets (pass2_db it freq m ls) m = ?F" by (rule freq_sets_pass2_db [OF ok fr])
  have fin: "finite ?F" using finite_freq_sets [of "pass2_db it freq m ls" m] F by simp
  have "supp (pass2_db it freq m ls) S = lsupp it ls S" if "S \<in> ?F" for S
    using that supp_pass2_db [OF ok, of S freq m ls] fr lsupp_anti [of _ S it ls]
    by (fastforce split: if_splits)
  with fin show ?thesis
    unfolding mined_def F by (auto intro!: image_mset_cong)
qed

text \<open>
  Claim C9: after pass 1, pass 2 returns the frequent itemsets of the input with their
  supports (spec sections 4.3 and 8). For a file read without error by both passes,
  \<open>generateFrequentItemsets\<close> returns, once each, exactly the non-empty sets of
  interned items whose support (the number of lines containing the name of every item
  of the set) is above \<open>minCount\<close>, each with that support.
\<close>

theorem generateFrequentItemsets_supports:
  assumes "countItems (Opened ls None) = Inr (it, freq, n)"
  shows "\<exists>R. generateFrequentItemsets (Opened ls None) ms it freq n = Some (Inr R) \<and>
           image_mset (\<lambda>(I, c). (set I, c)) (mset R) =
             image_mset (\<lambda>S. (S, lsupp it ls S))
               (mset_set {S. S \<noteq> {} \<and> S \<subseteq> {..<length (itemToStr it)} \<and>
                             minCountOf_f64 ms n < lsupp it ls S})"
proof -
  have ok: "itemizer_ok it" and fr: "\<forall>i < length (itemToStr it). get freq i = lsupp it ls {i}"
    using countItems_lsupp [OF assms] by simp_all
  obtain R where "fpGrowth (buildTree it freq (minCountOf_f64 ms n) newTree ls) [] (minCountOf_f64 ms n) = Some R"
    and "image_mset (\<lambda>(s, c). (set s, c)) (mset R) =
           mined (pass2_db it freq (minCountOf_f64 ms n) ls) {} (minCountOf_f64 ms n)"
    using fpGrowth_buildTree [OF ok] by blast
  then show ?thesis
    using mined_pass2_db [OF ok fr] by (simp add: generateFrequentItemsets_def)
qed

theorem generateFrequentItemsets_supports_witness:
  "countItems (Opened [''a'', ''a''] None) =
     Inr (\<lparr>strToItem = [''a'' \<mapsto> 0], itemToStr = [''a'']\<rparr>, makeCounts(0 \<mapsto> 2), 2) \<and>
   generateFrequentItemsets (Opened [''a'', ''a''] None) (Fin (1/2))
     \<lparr>strToItem = [''a'' \<mapsto> 0], itemToStr = [''a'']\<rparr> (makeCounts(0 \<mapsto> 2)) 2 = Some (Inr [([0], 2)]) \<and>
   image_mset (\<lambda>(I, c). (set I, c)) (mset [([0::nat], 2::nat)]) =
     image_mset (\<lambda>S. (S, lsupp \<lparr>strToItem = [''a'' \<mapsto> 0], itemToStr = [''a'']\<rparr> [''a'', ''a''] S))
       (mset_set {S. S \<noteq> {} \<and> S \<subseteq> {..<length [''a'']} \<and>
                     minCountOf_f64 (Fin (1/2)) 2 < lsupp \<lparr>strToItem = [''a'' \<mapsto> 0], itemToStr = [''a'']\<rparr> [''a'', ''a''] S})"
proof -
  let ?it = "\<lparr>strToItem = [''a'' \<mapsto> 0], itemToStr = [''a'']\<rparr>"
  have c: "countItems (Opened [''a'', ''a''] None) = Inr (?it, makeCounts(0 \<mapsto> 2), 2)"
    by (simp add: pass1_eval numeral_2_eq_2)
  have fp: "fpGrowth (Insert (Insert newTree [0] (Suc 0)) [0] (Suc 0)) [] (Suc 0) = Some [([0], 2)]"
    by code_simp
  have g: "generateFrequentItemsets (Opened [''a'', ''a''] None) (Fin (1/2)) ?it (makeCounts(0 \<mapsto> 2)) 2 =
             Some (Inr [([0], 2)])"
    by (simp add: generateFrequentItemsets_def minCountOf_f64_Fin fp frequentTransaction_def
                  itemizer_filter_def lineTokens_def get_def lookup_default_def Let_def)
  from generateFrequentItemsets_supports [OF c, of "Fin (1/2)"] g c show ?thesis by simp
qed

end
