(* ===== verification/Output.thy ===== *)
theory Output
  imports Pass2
begin

text \<open>
  The output writers of \<open>src/arm.go\<close> (lines 34-118): \<open>writeItemsets\<close>,
  \<open>writeRules\<close> and \<open>countRules\<close>. A writer produces the text it writes; the output
  file is either a creation error or a created file whose writer may fail. A
  \<open>bufio.Writer\<close> error is sticky: the first \<open>Fprint\<close> or the final \<open>Flush\<close> that
  observes a failed write returns that same error, which the writer returns; the model
  returns it with the full text asked for, and does not say which prefix reached the
  disk. The support \<open>float64(iwc.count)/n\<close> is the IEEE division \<open>f64_div\<close> of
  theory \<open>Float64\<close>, and \<open>%f\<close> prints the float64 it yields with six decimals,
  rounded half to even (\<open>fmt_f\<close>). The \<open>Rule\<close> type is not under \<open>src/\<close> and follows
  the spec (section 3).
\<close>

definition digit_char :: "nat \<Rightarrow> char" where
  "digit_char d = ''0123456789'' ! d"

fun dec_string :: "nat \<Rightarrow> string" where
  "dec_string n = (if n < 10 then [digit_char n] else dec_string (n div 10) @ [digit_char (n mod 10)])"

declare dec_string.simps [simp del]

definition pad6 :: "string \<Rightarrow> string" where
  "pad6 s = replicate (6 - length s) (CHR ''0'') @ s"

fun fmt_f :: "float64 \<Rightarrow> string" where
  "fmt_f (Fin r) =
     (let m = nat (round_half_even (\<bar>r\<bar> * 1000000))
      in (if r < 0 then ''-'' else []) @ dec_string (m div 1000000) @ ''.'' @ pad6 (dec_string (m mod 1000000)))"
| "fmt_f NaN = ''NaN''"
| "fmt_f PosInf = ''+Inf''"
| "fmt_f NegInf = ''-Inf''"

declare fmt_f.simps(1) [simp del]

text \<open>The loop over the items of an itemset or of one side of a rule: a space before every
  token but the first (\<open>first\<close> is the Go flag).\<close>

fun itemsWords :: "bool \<Rightarrow> Itemizer \<Rightarrow> item list \<Rightarrow> string" where
  "itemsWords first it [] = []"
| "itemsWords first it (i # is) = (if first then [] else '' '') @ toStr it i @ itemsWords False it is"

definition itemsetLine :: "Itemizer \<Rightarrow> nat \<Rightarrow> itemsetWithCount \<Rightarrow> string" where
  "itemsetLine it n iwc =
     itemsWords True it (fst iwc) @ '' '' @ fmt_f (f64_div (f64_of_nat (snd iwc)) (f64_of_nat n)) @ ''\<newline>''"

datatype output_file = CreateFailed string | Created "string option"

definition writeItemsets ::
  "itemsetWithCount list \<Rightarrow> output_file \<Rightarrow> Itemizer \<Rightarrow> nat \<Rightarrow> arm_error option \<times> string" where
  "writeItemsets itemsets out it n =
     (case out of
        CreateFailed e \<Rightarrow> (Some (ErrIO e), [])
      | Created werr \<Rightarrow>
          (map_option ErrIO werr, ''Itemset,Support\<newline>'' @ concat (map (itemsetLine it n) itemsets)))"

record Rule =
  Antecedent :: "item list"
  Consequent :: "item list"
  Confidence :: float64
  Lift :: float64
  Support :: float64

definition ruleLine :: "Itemizer \<Rightarrow> Rule \<Rightarrow> string" where
  "ruleLine it r =
     itemsWords True it (Antecedent r) @ '' => '' @ itemsWords True it (Consequent r) @
     '','' @ fmt_f (Confidence r) @ '','' @ fmt_f (Lift r) @ '','' @ fmt_f (Support r) @ ''\<newline>''"

definition writeRules :: "Rule list list \<Rightarrow> output_file \<Rightarrow> Itemizer \<Rightarrow> arm_error option \<times> string" where
  "writeRules rules out it =
     (case out of
        CreateFailed e \<Rightarrow> (Some (ErrIO e), [])
      | Created werr \<Rightarrow>
          (map_option ErrIO werr,
           ''Antecedent => Consequent,Confidence,Lift,Support\<newline>'' @
           concat (map (\<lambda>chunk. concat (map (ruleLine it) chunk)) rules)))"

definition countRules :: "Rule list list \<Rightarrow> nat" where
  "countRules rules = foldl (\<lambda>n chunk. n + length chunk) 0 rules"

text \<open>Decoding (spec section 8): a decimal numeral, a \<open>%f\<close> field, and an itemset line
  split at spaces into its tokens and its support field.\<close>

definition parse_dec :: "string \<Rightarrow> nat" where
  "parse_dec s = foldl (\<lambda>acc c. 10 * acc + (of_char c - 48)) 0 s"

definition parse_fixed :: "string \<Rightarrow> rat" where
  "parse_fixed s =
     (let ip = takeWhile (\<lambda>c. c \<noteq> CHR ''.'') s; fp = tl (dropWhile (\<lambda>c. c \<noteq> CHR ''.'') s)
      in of_nat (parse_dec ip) + of_nat (parse_dec fp) / 10 ^ length fp)"

definition decodeItemsetLine :: "string \<Rightarrow> string list \<times> string" where
  "decodeItemsetLine l = (let ws = split_sep (CHR '' '') (butlast l) in (butlast ws, last ws))"

definition encodeItemsetLine :: "string list \<times> string \<Rightarrow> string" where
  "encodeItemsetLine d = join_sep (CHR '' '') (fst d @ [snd d]) @ ''\<newline>''"

subsection \<open>Decimal printing\<close>

lemma less_10_cases: "d < (10::nat) \<Longrightarrow> d \<in> {0, 1, 2, 3, 4, 5, 6, 7, 8, 9}"
  by (simp add: numeral_eq_Suc less_Suc_eq)

lemma of_char_digit_char: "d < 10 \<Longrightarrow> of_char (digit_char d) = 48 + d"
  by (drule less_10_cases) (auto simp: digit_char_def)

lemma of_char_digit: "d < 10 \<Longrightarrow> of_char (digit_char d) - 48 = d"
  by (simp add: of_char_digit_char)

lemma parse_dec_snoc: "parse_dec (s @ [c]) = 10 * parse_dec s + (of_char c - 48)"
  by (simp add: parse_dec_def)

lemma parse_dec_dec_string [simp]: "parse_dec (dec_string n) = n"
proof (induction n rule: dec_string.induct)
  case (1 n)
  show ?case
  proof (cases "n < 10")
    case True
    then show ?thesis
      by (subst dec_string.simps) (simp add: parse_dec_def of_char_digit)
  next
    case False
    then have "parse_dec (dec_string n) = 10 * (n div 10) + n mod 10"
      using 1 by (subst dec_string.simps) (simp add: parse_dec_snoc of_char_digit)
    then show ?thesis by simp
  qed
qed

lemma foldl_zeros: "foldl (\<lambda>acc c. 10 * acc + (of_char c - 48)) 0 (replicate k (CHR ''0'')) = (0::nat)"
  by (induction k) simp_all

lemma parse_dec_pad6 [simp]: "parse_dec (pad6 s) = parse_dec s"
  by (simp add: parse_dec_def pad6_def foldl_zeros)

lemma dec_string_digits: "set (dec_string n) \<subseteq> digit_char ` {..<10}"
proof (induction n rule: dec_string.induct)
  case (1 n)
  then show ?case
    by (subst dec_string.simps) auto
qed

lemma dec_string_char:
  "c \<in> set (dec_string n) \<Longrightarrow> 48 \<le> (of_char c :: nat) \<and> (of_char c :: nat) < 58"
  using dec_string_digits [of n] of_char_digit_char by fastforce

lemma dec_string_no_dot: "CHR ''.'' \<notin> set (dec_string n)"
  using dec_string_char [of "CHR ''.''" n] by auto

lemma dec_string_no_space: "CHR '' '' \<notin> set (dec_string n)"
  using dec_string_char [of "CHR '' ''" n] by auto

lemma fmt_f_no_space: "CHR '' '' \<notin> set (fmt_f x)"
  by (cases x) (auto simp: fmt_f.simps Let_def pad6_def dec_string_no_space)

lemma of_nat_div_mod_parts:
  "0 < d \<Longrightarrow> of_nat (m div d) + of_nat (m mod d) / of_nat d = (of_nat m / of_nat d :: rat)"
proof -
  assume d: "0 < d"
  have "(of_nat m :: rat) = of_nat (m div d) * of_nat d + of_nat (m mod d)"
    by (metis div_mult_mod_eq of_nat_add of_nat_mult)
  with d show ?thesis by (simp add: field_simps)
qed

lemma takeWhile_dec_string:
  "takeWhile (\<lambda>c. c \<noteq> CHR ''.'') (dec_string a @ xs) = dec_string a @ takeWhile (\<lambda>c. c \<noteq> CHR ''.'') xs"
  by (rule takeWhile_append2) (use dec_string_no_dot in blast)

lemma dropWhile_dec_string:
  "dropWhile (\<lambda>c. c \<noteq> CHR ''.'') (dec_string a @ xs) = dropWhile (\<lambda>c. c \<noteq> CHR ''.'') xs"
  by (rule dropWhile_append2) (use dec_string_no_dot in blast)

lemma dec_string_length: "n < 10 ^ k \<Longrightarrow> 0 < k \<Longrightarrow> length (dec_string n) \<le> k"
proof (induction n arbitrary: k rule: dec_string.induct)
  case (1 n)
  show ?case
  proof (cases "n < 10")
    case True
    with "1.prems" show ?thesis by (subst dec_string.simps) simp
  next
    case False
    obtain k' where k: "k = Suc k'" using "1.prems"(2) by (cases k) auto
    have k': "0 < k'" using False "1.prems"(1) k by (cases k') auto
    have "n div 10 < 10 ^ k'" using "1.prems"(1) k by simp
    with "1.IH" False k' have "length (dec_string (n div 10)) \<le> k'" by simp
    with False k show ?thesis by (subst dec_string.simps) simp
  qed
qed

lemma length_pad6: "length s \<le> 6 \<Longrightarrow> length (pad6 s) = 6"
  by (simp add: pad6_def)

lemma parse_fixed_parts:
  "b < 1000000 \<Longrightarrow> parse_fixed (dec_string a @ ''.'' @ pad6 (dec_string b)) = of_nat a + of_nat b / 1000000"
  using length_pad6 [OF dec_string_length [of b 6]]
  by (simp add: parse_fixed_def takeWhile_dec_string dropWhile_dec_string)

lemma fmt_f_nonneg:
  "0 \<le> r \<Longrightarrow> fmt_f (Fin r) =
     dec_string (nat (round_half_even (r * 1000000)) div 1000000) @ ''.'' @
     pad6 (dec_string (nat (round_half_even (r * 1000000)) mod 1000000))"
  by (simp add: fmt_f.simps Let_def)

lemma floor_numeral_div: "\<lfloor>numeral a / numeral b :: rat\<rfloor> = numeral a div numeral b"
  by (metis floor_divide_of_int_eq of_int_numeral)

lemma replicate_numeral_Cons: "replicate (numeral k) x = x # replicate (pred_numeral k) x"
  by (simp add: numeral_eq_Suc)

lemmas fmt_f_eval = round_half_even_def floor_numeral_div dec_string.simps pad6_def digit_char_def
  replicate_numeral_Cons Let_def

subsection \<open>Itemset lines\<close>

lemma join_sep_Cons: "join_sep c (w # ws) = w @ concat (map ((#) c) ws)"
  by (induction ws arbitrary: w) auto

lemma itemsWords_False: "itemsWords False it is = concat (map ((#) CHR '' '' \<circ> toStr it) is)"
  by (induction "is") simp_all

lemma itemsWords_True: "itemsWords True it is = join_sep (CHR '' '') (map (toStr it) is)"
  by (cases "is") (simp_all add: itemsWords_False join_sep_Cons)

lemma itemsetLine_join:
  "fst iwc \<noteq> [] \<Longrightarrow> itemsetLine it n iwc =
     join_sep (CHR '' '') (map (toStr it) (fst iwc) @ [fmt_f (f64_div (f64_of_nat (snd iwc)) (f64_of_nat n))]) @ ''\<newline>''"
  by (cases "fst iwc") (simp_all add: itemsetLine_def itemsWords_False join_sep_Cons)

lemma fmt_f_eval_nonneg:
  "0 \<le> r \<Longrightarrow> round_half_even (r * 1000000) = k \<Longrightarrow>
   fmt_f (Fin r) = dec_string (nat k div 1000000) @ ''.'' @ pad6 (dec_string (nat k mod 1000000))"
  by (simp only: fmt_f_nonneg)

lemma decode_encode_line:
  "l \<noteq> [] \<Longrightarrow> last l = CHR ''\<newline>'' \<Longrightarrow> encodeItemsetLine (decodeItemsetLine l) = l"
  using append_butlast_last_id [of l] by (simp add: encodeItemsetLine_def decodeItemsetLine_def Let_def)

lemma itemsetLine_support_field:
  "snd (decodeItemsetLine (itemsetLine it n iwc)) = fmt_f (f64_div (f64_of_nat (snd iwc)) (f64_of_nat n))"
proof -
  let ?f = "fmt_f (f64_div (f64_of_nat (snd iwc)) (f64_of_nat n))"
  obtain v ws where "split_sep (CHR '' '') (itemsWords True it (fst iwc) @ CHR '' '' # ?f) = v # ws @ [?f]"
    using split_sep_last_piece [OF fmt_f_no_space] by blast
  moreover have "butlast (itemsetLine it n iwc) = itemsWords True it (fst iwc) @ CHR '' '' # ?f"
    by (simp add: itemsetLine_def butlast_append)
  ultimately show ?thesis by (simp add: decodeItemsetLine_def Let_def)
qed

subsection \<open>Properties of the writers\<close>

lemma fmt_f_parse:
  assumes "0 \<le> r"
  shows "parse_fixed (fmt_f (Fin r)) = of_int (round_half_even (r * 1000000)) / 1000000"
proof -
  define m where "m = nat (round_half_even (r * 1000000))"
  have m: "of_nat m = (of_int (round_half_even (r * 1000000)) :: rat)"
    using round_half_even_nonneg [of "r * 1000000"] assms by (simp add: m_def)
  have "parse_fixed (fmt_f (Fin r)) = of_nat (m div 1000000) + of_nat (m mod 1000000) / 1000000"
    using fmt_f_nonneg [OF assms] parse_fixed_parts by (simp add: m_def)
  also have "\<dots> = of_nat m / 1000000"
    using of_nat_div_mod_parts [of 1000000 m] by simp
  finally show ?thesis using m by simp
qed

lemma fmt_f_parse_error:
  assumes "0 \<le> r"
  shows "\<bar>parse_fixed (fmt_f (Fin r)) - r\<bar> \<le> 1 / 2000000"
proof -
  have "\<bar>of_int (round_half_even (r * 1000000)) / 1000000 - r\<bar> =
        \<bar>of_int (round_half_even (r * 1000000)) - r * 1000000\<bar> / 1000000"
    by (simp add: field_simps abs_divide [symmetric])
  also have "\<dots> \<le> (1/2) / 1000000"
    using round_half_even_bound [of "r * 1000000"] by (simp add: divide_right_mono)
  finally show ?thesis unfolding fmt_f_parse [OF assms] by simp
qed

text \<open>
  Claim C25: the support column of the itemsets file is the relative support to six
  decimals. For a non-negative value, the \<open>%f\<close> text read back as a decimal is the
  value rounded half to even at the sixth decimal, so it lies within \<open>5 * 10^-7\<close> of
  the exact value.
\<close>

theorem fmt_f_decimal:
  assumes "0 \<le> r"
  shows "parse_fixed (fmt_f (Fin r)) = of_int (round_half_even (r * 1000000)) / 1000000 \<and>
         \<bar>parse_fixed (fmt_f (Fin r)) - r\<bar> \<le> 1 / 2000000"
  using fmt_f_parse [OF assms] fmt_f_parse_error [OF assms] by simp

theorem fmt_f_decimal_witness:
  "0 \<le> (1/128 :: rat) \<and> fmt_f (Fin (1/128)) = ''0.007812'' \<and>
   parse_fixed ''0.007812'' = of_int (round_half_even (1/128 * 1000000)) / 1000000 \<and>
   \<bar>parse_fixed ''0.007812'' - 1/128\<bar> \<le> 1 / 2000000"
proof -
  have r: "round_half_even (1/128 * 1000000) = 7812"
    by (simp add: round_half_even_def floor_numeral_div)
  have f: "fmt_f (Fin (1/128)) = ''0.007812''"
    by (simp only: fmt_f_eval_nonneg [OF _ r]) (simp_all add: fmt_f_eval)
  from fmt_f_decimal [of "1/128"] f show ?thesis by simp
qed

text \<open>
  Claim C22: an itemset line decodes to its tokens. When the itemset is not empty and no
  token of it contains a space, splitting the line written by \<open>writeItemsets\<close> at
  spaces gives back the tokens of the itemset, in order, and the \<open>%f\<close> text of its
  support (spec section 8, decoding of the itemset encoding).
\<close>

theorem itemsetLine_decode:
  assumes "fst iwc \<noteq> []" and "\<forall>i \<in> set (fst iwc). CHR '' '' \<notin> set (toStr it i)"
  shows "decodeItemsetLine (itemsetLine it n iwc) =
           (map (toStr it) (fst iwc), fmt_f (f64_div (f64_of_nat (snd iwc)) (f64_of_nat n)))"
proof -
  let ?f = "fmt_f (f64_div (f64_of_nat (snd iwc)) (f64_of_nat n))"
  have pieces: "\<forall>w \<in> set (map (toStr it) (fst iwc) @ [?f]). CHR '' '' \<notin> set w"
    using assms(2) fmt_f_no_space by auto
  have "split_sep (CHR '' '') (butlast (itemsetLine it n iwc)) = map (toStr it) (fst iwc) @ [?f]"
    using itemsetLine_join [OF assms(1)] split_sep_join_sep [OF _ pieces] by simp
  then show ?thesis by (simp add: decodeItemsetLine_def)
qed

theorem itemsetLine_decode_witness:
  "[0::nat] \<noteq> [] \<and> CHR '' '' \<notin> set (toStr \<lparr>strToItem = [''bread'' \<mapsto> 0], itemToStr = [''bread'']\<rparr> 0) \<and>
   decodeItemsetLine (itemsetLine \<lparr>strToItem = [''bread'' \<mapsto> 0], itemToStr = [''bread'']\<rparr> 40 ([0], 1)) =
     ([''bread''], fmt_f (f64_div (Fin 1) (Fin 40)))"
  using itemsetLine_decode [of "([0], 1)" "\<lparr>strToItem = [''bread'' \<mapsto> 0], itemToStr = [''bread'']\<rparr>" 40]
  by (simp add: toStr_def)

text \<open>
  The itemset encoding is ambiguous. \<open>strings.Split\<close> on commas keeps spaces
  inside tokens, and \<open>writeItemsets\<close> separates tokens by a single space: the
  one-item itemset of the token \<open>a b\<close> (from the input line \<open>a b\<close>) is written as
  the same line as the two-item itemset \<open>{a, b}\<close> (from the input line \<open>a,b\<close>), so
  no decoder can recover the itemset from the file.
\<close>

lemma itemset_line_collision:
  "\<exists>it1 f1 it2 f2.
     countItems (Opened [''a b''] None) = Inr (it1, f1, 1) \<and>
     countItems (Opened [''a,b''] None) = Inr (it2, f2, 1) \<and>
     map (toStr it1) [0] \<noteq> map (toStr it2) [0, 1] \<and>
     itemsetLine it1 1 ([0], 1) = itemsetLine it2 1 ([0, 1], 1)"
proof -
  let ?it1 = "\<lparr>strToItem = [''a b'' \<mapsto> 0], itemToStr = [''a b'']\<rparr>"
  let ?it2 = "\<lparr>strToItem = [''a'' \<mapsto> 0, ''b'' \<mapsto> 1], itemToStr = [''a'', ''b'']\<rparr>"
  have c1: "countItems (Opened [''a b''] None) = Inr (?it1, [0 \<mapsto> 1], 1)"
    by (simp add: pass1_eval)
  have c2: "countItems (Opened [''a,b''] None) = Inr (?it2, [0 \<mapsto> 1, 1 \<mapsto> 1], 1)"
    by (simp add: pass1_eval)
  have d: "map (toStr ?it1) [0] \<noteq> map (toStr ?it2) [0, 1]"
    by (simp add: toStr_def)
  have l: "itemsetLine ?it1 1 ([0], 1) = itemsetLine ?it2 1 ([0, 1], 1)"
    by (simp add: itemsetLine_def toStr_def)
  from c1 c2 d l show ?thesis by blast
qed

text \<open>
  Claim C26: the support column of the itemsets file is the float64 quotient printed
  with six decimals. For \<open>N\<close> transactions (\<open>0 < N < 2^53\<close>) and an itemset with
  count \<open>c \<le> N\<close>, the last field of the line \<open>writeItemsets\<close> writes for it, read
  back as a decimal, is \<open>float64(c)/float64(N)\<close> (the exact quotient rounded to the
  nearest double) rounded half to even at the sixth decimal, and so lies within
  \<open>5 \<cdot> 10^-7 + 2^-53\<close> of the relative support \<open>c / N\<close>.
\<close>

theorem support_field_accuracy:
  assumes "0 < n" "n < 2 ^ 53" "snd iwc \<le> n"
  shows "parse_fixed (snd (decodeItemsetLine (itemsetLine it n iwc))) =
           of_int (round_half_even (f64_round (of_nat (snd iwc) / of_nat n) * 1000000)) / 1000000 \<and>
         \<bar>parse_fixed (snd (decodeItemsetLine (itemsetLine it n iwc))) - of_nat (snd iwc) / of_nat n\<bar>
           \<le> 1 / 2000000 + 1 / 2 ^ 53"
proof -
  let ?x = "of_nat (snd iwc) / (of_nat n :: rat)"
  have x: "0 \<le> ?x" "?x \<le> 1" using assms by simp_all
  have field: "snd (decodeItemsetLine (itemsetLine it n iwc)) = fmt_f (Fin (f64_round ?x))"
    using itemsetLine_support_field f64_div_nat [OF assms(1,3,2)] by simp
  have r: "\<bar>f64_round ?x - ?x\<bar> \<le> 1 / 2 ^ 53"
  proof (cases "?x = 0")
    case True
    then show ?thesis by (simp only: f64_round_zero) simp
  next
    case False
    with x show ?thesis by (intro f64_round_error_unit) simp_all
  qed
  have nn: "0 \<le> f64_round ?x" using x(1) by (rule f64_round_nonneg)
  have "\<bar>parse_fixed (fmt_f (Fin (f64_round ?x))) - f64_round ?x\<bar> \<le> 1 / 2000000"
    using nn by (rule fmt_f_parse_error)
  with r fmt_f_parse [OF nn] show ?thesis unfolding field by linarith
qed

theorem support_field_accuracy_witness:
  "parse_fixed (snd (decodeItemsetLine (itemsetLine \<lparr>strToItem = [''a'' \<mapsto> 0], itemToStr = [''a'']\<rparr> 3 ([0], 1)))) =
     of_int (round_half_even (f64_round (1 / 3) * 1000000)) / 1000000 \<and>
   \<bar>parse_fixed (snd (decodeItemsetLine (itemsetLine \<lparr>strToItem = [''a'' \<mapsto> 0], itemToStr = [''a'']\<rparr> 3 ([0], 1)))) - 1 / 3\<bar>
     \<le> 1 / 2000000 + 1 / 2 ^ 53"
  using support_field_accuracy [of 3 "([0], 1)" "\<lparr>strToItem = [''a'' \<mapsto> 0], itemToStr = [''a'']\<rparr>"] by simp

end
