(* ===== verification/Rules.thy ===== *)
theory Rules
  imports Output
begin

text \<open>
  Rule generation, \<open>generateRules(itemsWithCount, numTransactions, minConfidence,
  minLift)\<close>, called by \<open>MineAssociationRules\<close> (\<open>src/arm.go\<close> line 219) and by
  part_001's \<open>main\<close>; its code is not under \<open>src/\<close> and follows the spec (section 4.5):
  for each frequent itemset \<open>I\<close> of at least two items and each non-empty proper subset
  \<open>A\<close> of it, with \<open>C = I - A\<close>, the rule \<open>A \<Rightarrow> C\<close> has confidence
  \<open>support(I) / support(A)\<close> and lift \<open>confidence / (support(C) / N)\<close>; it is kept
  unless its confidence is below \<open>minConfidence\<close> or, when \<open>minLift > 0\<close>, its lift is
  below \<open>minLift\<close>. Supports are looked up by set equality among the mined itemsets; a
  subset whose support is not found yields no rule (the spec assumes the lookup
  succeeds, which downward closure guarantees for a complete mining result). The
  result is sharded by itemset, one chunk per itemset, and the arithmetic is that of
  float64 (\<open>f64_div\<close>, \<open>f64_lt\<close>).
\<close>

definition supportOf :: "itemsetWithCount list \<Rightarrow> item list \<Rightarrow> nat option" where
  "supportOf iwcs s = map_option snd (find (\<lambda>iwc. set (fst iwc) = set s) iwcs)"

definition antecedents :: "item list \<Rightarrow> item list list" where
  "antecedents I = filter (\<lambda>A. A \<noteq> [] \<and> length A < length I) (subseqs I)"

definition ruleOf ::
  "itemsetWithCount list \<Rightarrow> nat \<Rightarrow> float64 \<Rightarrow> float64 \<Rightarrow> itemsetWithCount \<Rightarrow> item list \<Rightarrow> Rule option" where
  "ruleOf iwcs n minConfidence minLift iwc A =
     (let C = filter (\<lambda>i. i \<notin> set A) (fst iwc)
      in case (supportOf iwcs A, supportOf iwcs C) of
           (Some sA, Some sC) \<Rightarrow>
             (let conf = f64_div (f64_of_nat (snd iwc)) (f64_of_nat sA);
                  lift = f64_div conf (f64_div (f64_of_nat sC) (f64_of_nat n))
              in if f64_lt conf minConfidence then None
                 else if f64_lt (Fin 0) minLift \<and> f64_lt lift minLift then None
                 else Some \<lparr>Antecedent = A, Consequent = C, Confidence = conf, Lift = lift,
                            Support = f64_div (f64_of_nat (snd iwc)) (f64_of_nat n)\<rparr>)
         | _ \<Rightarrow> None)"

definition rulesOfItemset ::
  "itemsetWithCount list \<Rightarrow> nat \<Rightarrow> float64 \<Rightarrow> float64 \<Rightarrow> itemsetWithCount \<Rightarrow> Rule list" where
  "rulesOfItemset iwcs n minConfidence minLift iwc =
     (if length (fst iwc) < 2 then []
      else List.map_filter (ruleOf iwcs n minConfidence minLift iwc) (antecedents (fst iwc)))"

definition generateRules :: "itemsetWithCount list \<Rightarrow> nat \<Rightarrow> float64 \<Rightarrow> float64 \<Rightarrow> Rule list list" where
  "generateRules iwcs n minConfidence minLift = map (rulesOfItemset iwcs n minConfidence minLift) iwcs"

lemma countRules_concat: "countRules rules = length (concat rules)"
proof -
  have "foldl (\<lambda>n chunk. n + length chunk) k rules = k + length (concat rules)" for k
    by (induction rules arbitrary: k) simp_all
  then show ?thesis by (simp add: countRules_def)
qed

lemma antecedents_props:
  assumes "A \<in> set (antecedents I)" and "distinct I"
  shows "A \<noteq> [] \<and> set A \<subseteq> set I \<and> (\<exists>x \<in> set I. x \<notin> set A)"
proof -
  have sub: "A \<in> set (subseqs I)" and ne: "A \<noteq> []" and lt: "length A < length I"
    using assms(1) by (auto simp: antecedents_def)
  have dA: "distinct A" using subseqs_distinctD [OF sub assms(2)] .
  have "set A \<in> set ` set (subseqs I)" using sub by (rule imageI)
  then have ss: "set A \<subseteq> set I" by (simp add: subseqs_powset)
  have "card (set A) < card (set I)"
    using lt dA assms(2) by (simp add: distinct_card)
  then have "set A \<noteq> set I" by auto
  with ss ne show ?thesis by auto
qed

lemma ruleOf_Some:
  assumes "ruleOf iwcs n mc ml iwc A = Some r"
  shows "Antecedent r = A \<and> Consequent r = filter (\<lambda>i. i \<notin> set A) (fst iwc) \<and>
         \<not> f64_lt (Confidence r) mc \<and> (f64_lt (Fin 0) ml \<longrightarrow> \<not> f64_lt (Lift r) ml)"
  using assms by (auto simp: ruleOf_def Let_def split: option.splits if_splits)

lemma generateRules_member:
  assumes "r \<in> set (concat (generateRules iwcs n mc ml))"
  obtains iwc A where "iwc \<in> set iwcs" "A \<in> set (antecedents (fst iwc))" "ruleOf iwcs n mc ml iwc A = Some r"
  using assms
  by (auto simp: generateRules_def rulesOfItemset_def map_filter_def split: if_splits)

lemmas rules_eval = generateRules_def rulesOfItemset_def ruleOf_def antecedents_def supportOf_def Let_def

text \<open>
  Claim C27: every emitted rule is well formed (spec section 8). When the mined itemsets have
  no repeated item, every rule \<open>A \<Rightarrow> C\<close> of \<open>generateRules\<close> has non-empty,
  disjoint sides whose union is one of the mined itemsets, a confidence not below
  \<open>minConfidence\<close> and, when \<open>minLift > 0\<close>, a lift not below \<open>minLift\<close> (in
  float64 comparison).
\<close>

theorem generateRules_sound:
  assumes "\<forall>iwc \<in> set iwcs. distinct (fst iwc)" and "r \<in> set (concat (generateRules iwcs n mc ml))"
  shows "Antecedent r \<noteq> [] \<and> Consequent r \<noteq> [] \<and> set (Antecedent r) \<inter> set (Consequent r) = {} \<and>
         (\<exists>iwc \<in> set iwcs. set (Antecedent r) \<union> set (Consequent r) = set (fst iwc)) \<and>
         \<not> f64_lt (Confidence r) mc \<and> (f64_lt (Fin 0) ml \<longrightarrow> \<not> f64_lt (Lift r) ml)"
proof -
  obtain iwc A where mem: "iwc \<in> set iwcs" and A: "A \<in> set (antecedents (fst iwc))"
    and r: "ruleOf iwcs n mc ml iwc A = Some r"
    using assms(2) by (rule generateRules_member)
  have props: "A \<noteq> [] \<and> set A \<subseteq> set (fst iwc) \<and> (\<exists>x \<in> set (fst iwc). x \<notin> set A)"
    using antecedents_props [OF A] assms(1) mem by blast
  have rs: "Antecedent r = A \<and> Consequent r = filter (\<lambda>i. i \<notin> set A) (fst iwc) \<and>
      \<not> f64_lt (Confidence r) mc \<and> (f64_lt (Fin 0) ml \<longrightarrow> \<not> f64_lt (Lift r) ml)"
    by (rule ruleOf_Some [OF r])
  have u: "set (Antecedent r) \<union> set (Consequent r) = set (fst iwc)"
    using rs props by auto
  have c: "Consequent r \<noteq> []"
    using rs props by (auto simp: filter_empty_conv)
  have i: "set (Antecedent r) \<inter> set (Consequent r) = {}"
    using rs by auto
  show ?thesis
    using rs props mem u c i by blast
qed

theorem generateRules_sound_witness:
  "list_all (\<lambda>iwc. distinct (fst iwc)) [([0::nat], 4::nat), ([1], 2), ([2], 2), ([0, 1], 2), ([0, 2], 2)] \<and>
   generateRules [([0], 4), ([1], 2), ([2], 2), ([0, 1], 2), ([0, 2], 2)] 4 (Fin (1/2)) (Fin 0) =
     [[], [], [],
      [\<lparr>Antecedent = [0], Consequent = [1], Confidence = Fin (1/2), Lift = Fin 1, Support = Fin (1/2)\<rparr>,
       \<lparr>Antecedent = [1], Consequent = [0], Confidence = Fin 1, Lift = Fin 1, Support = Fin (1/2)\<rparr>],
      [\<lparr>Antecedent = [0], Consequent = [2], Confidence = Fin (1/2), Lift = Fin 1, Support = Fin (1/2)\<rparr>,
       \<lparr>Antecedent = [2], Consequent = [0], Confidence = Fin 1, Lift = Fin 1, Support = Fin (1/2)\<rparr>]] \<and>
   \<not> f64_lt (Fin (1/2)) (Fin (1/2)) \<and> set [0::nat] \<union> set [1] = set [0, 1]"
proof -
  let ?S = "[([0::nat], 4::nat), ([1], 2), ([2], 2), ([0, 1], 2), ([0, 2], 2)]"
  let ?r = "\<lparr>Antecedent = [0::nat], Consequent = [1], Confidence = Fin (1/2), Lift = Fin 1, Support = Fin (1/2)\<rparr>"
  have d: "\<forall>iwc \<in> set ?S. distinct (fst iwc)" by simp
  have h: "f64_of_rat (1/2) = Fin (1/2)" using f64_of_rat_dyadic [of 1 1] by simp
  have g: "generateRules ?S 4 (Fin (1/2)) (Fin 0) =
     [[], [], [],
      [?r, \<lparr>Antecedent = [1], Consequent = [0], Confidence = Fin 1, Lift = Fin 1, Support = Fin (1/2)\<rparr>],
      [\<lparr>Antecedent = [0], Consequent = [2], Confidence = Fin (1/2), Lift = Fin 1, Support = Fin (1/2)\<rparr>,
       \<lparr>Antecedent = [2], Consequent = [0], Confidence = Fin 1, Lift = Fin 1, Support = Fin (1/2)\<rparr>]]"
    by (simp add: rules_eval h)
  have "?r \<in> set (concat (generateRules ?S 4 (Fin (1/2)) (Fin 0)))" unfolding g by simp
  from generateRules_sound [OF d this] d g show ?thesis by (simp add: insert_commute)
qed

end
