(* ===== verification/RuleSupports.thy ===== *)
theory RuleSupports
  imports Supports Rules
begin

text \<open>
  Rule generation on the result of pass 2. \<open>generateRules\<close> looks the supports of a
  rule's antecedent and consequent up among the mined itemsets and makes no rule when a
  lookup fails. On the itemsets \<open>generateFrequentItemsets\<close> returns after pass 1 the
  lookups always succeed, with the supports of the input (downward closure: a non-empty
  subset of a frequent itemset is frequent), so a rule is dropped only by its
  thresholds, and its confidence and support are those of the input.
\<close>

lemma generateFrequentItemsets_lsupp:
  assumes c: "countItems (Opened ls None) = Inr (it, freq, n)"
    and g: "generateFrequentItemsets (Opened ls None) ms it freq n = Some (Inr R)"
  shows "image_mset (\<lambda>(I, c). (set I, c)) (mset R) =
           image_mset (\<lambda>S. (S, lsupp it ls S))
             (mset_set {S. S \<noteq> {} \<and> S \<subseteq> {..<length (itemToStr it)} \<and> minCountOf_f64 ms n < lsupp it ls S})"
proof -
  have ok: "itemizer_ok it" and fr: "\<forall>i < length (itemToStr it). get freq i = lsupp it ls {i}"
    using countItems_lsupp [OF c] by simp_all
  obtain R' where "fpGrowth (buildTree it freq (minCountOf_f64 ms n) newTree ls) [] (minCountOf_f64 ms n) = Some R'"
    and "image_mset (\<lambda>(s, c). (set s, c)) (mset R') =
           mined (pass2_db it freq (minCountOf_f64 ms n) ls) {} (minCountOf_f64 ms n)"
    using fpGrowth_buildTree [OF ok] by blast
  with g show ?thesis
    using mined_pass2_db [OF ok fr] by (simp add: generateFrequentItemsets_def)
qed

lemma lsupp_mono: "S \<subseteq> T \<Longrightarrow> lsupp it ls T \<le> lsupp it ls S"
  by (induction ls) auto

lemma find_Some_mem: "find P xs = Some x \<Longrightarrow> x \<in> set xs \<and> P x"
  by (induction xs) (auto split: if_splits)

text \<open>The entries of the result: every entry is a frequent set with its support, and
  every frequent set is an entry.\<close>

lemma result_entries:
  assumes eq: "image_mset (\<lambda>(I, c). (set I, c)) (mset R) = image_mset (\<lambda>S. (S, f S)) (mset_set F)"
    and fin: "finite F"
  shows "(\<forall>x \<in> set R. set (fst x) \<in> F \<and> snd x = f (set (fst x))) \<and>
         (\<forall>S \<in> F. \<exists>x \<in> set R. set (fst x) = S)"
proof -
  have sets: "(\<lambda>(I, c). (set I, c)) ` set R = (\<lambda>S. (S, f S)) ` F"
  proof -
    have "set_mset (image_mset (\<lambda>(I, c). (set I, c)) (mset R)) = set_mset (image_mset (\<lambda>S. (S, f S)) (mset_set F))"
      using eq by (rule arg_cong)
    with fin show ?thesis by simp
  qed
  have one: "set (fst x) \<in> F \<and> snd x = f (set (fst x))" if x: "x \<in> set R" for x
  proof -
    have "(set (fst x), snd x) \<in> (\<lambda>(I, c). (set I, c)) ` set R"
      using x by (auto simp: image_iff case_prod_beta intro: bexI [of _ x])
    then have "(set (fst x), snd x) \<in> (\<lambda>S. (S, f S)) ` F" by (simp only: sets)
    then show ?thesis by auto
  qed
  have two: "\<exists>x \<in> set R. set (fst x) = S" if S: "S \<in> F" for S
  proof -
    have "(S, f S) \<in> (\<lambda>(I, c). (set I, c)) ` set R" using S by (simp only: sets) (rule imageI)
    then obtain x where "x \<in> set R" "(S, f S) = (set (fst x), snd x)" by (auto simp: case_prod_beta)
    then show ?thesis by auto
  qed
  from one two show ?thesis by blast
qed

lemma supportOf_entries:
  assumes "\<forall>x \<in> set R. snd x = f (set (fst x))" and "\<exists>x \<in> set R. set (fst x) = set s"
  shows "supportOf R s = Some (f (set s))"
proof -
  obtain x where "find (\<lambda>iwc. set (fst iwc) = set s) R = Some x"
  proof (cases "find (\<lambda>iwc. set (fst iwc) = set s) R")
    case None
    with assms(2) show ?thesis by (auto simp: find_None_iff)
  qed
  with assms(1) show ?thesis
    using find_Some_mem [of "\<lambda>iwc. set (fst iwc) = set s" R x] by (simp add: supportOf_def)
qed

lemma generateFrequentItemsets_distinct:
  assumes c: "countItems (Opened ls None) = Inr (it, freq, n)"
    and g: "generateFrequentItemsets (Opened ls None) ms it freq n = Some (Inr R)"
  shows "\<forall>r \<in> set R. distinct (fst r)"
proof -
  let ?m = "minCountOf_f64 ms n"
  have rep: "represents (buildTree it freq ?m newTree ls) (pass2_db it freq ?m ls)"
    using buildTree_rep [OF represents_newTree] by simp
  have "mine_items (buildTree it freq ?m newTree ls) [] ?m (frequentItemsInTree (buildTree it freq ?m newTree ls) ?m) = Some R"
    using g by (auto simp: generateFrequentItemsets_def fpGrowth_def Let_def)
  from mine_items_distinct [OF rep _ _ this] show ?thesis by simp
qed

text \<open>
  Claim C15: rule generation finds the supports it looks up. On the itemsets pass 2 returns
  after pass 1, for every itemset \<open>I\<close> and every antecedent \<open>A\<close> that
  \<open>generateRules\<close> tries, the count stored with \<open>I\<close> and the supports found for
  \<open>A\<close> and for the consequent \<open>I - A\<close> are their supports in the input lines, so the
  confidence \<open>support(I)/support(A)\<close> and the lift are those of the spec, and a rule
  is dropped only by its thresholds (spec section 4.5).
\<close>

theorem generateRules_supports:
  assumes c: "countItems (Opened ls None) = Inr (it, freq, n)"
    and g: "generateFrequentItemsets (Opened ls None) ms it freq n = Some (Inr R)"
    and iwc: "iwc \<in> set R" and A: "A \<in> set (antecedents (fst iwc))"
  shows "snd iwc = lsupp it ls (set (fst iwc)) \<and>
         supportOf R A = Some (lsupp it ls (set A)) \<and>
         supportOf R (filter (\<lambda>i. i \<notin> set A) (fst iwc)) = Some (lsupp it ls (set (fst iwc) - set A))"
proof -
  let ?F = "{S. S \<noteq> {} \<and> S \<subseteq> {..<length (itemToStr it)} \<and> minCountOf_f64 ms n < lsupp it ls S}"
  have fin: "finite ?F" by (rule finite_subset [of _ "Pow {..<length (itemToStr it)}"]) auto
  note E = result_entries [OF generateFrequentItemsets_lsupp [OF c g] fin]
  have I: "set (fst iwc) \<in> ?F" and cI: "snd iwc = lsupp it ls (set (fst iwc))" using E iwc by blast+
  have dI: "distinct (fst iwc)" using generateFrequentItemsets_distinct [OF c g] iwc by blast
  have props: "A \<noteq> [] \<and> set A \<subseteq> set (fst iwc) \<and> (\<exists>x \<in> set (fst iwc). x \<notin> set A)"
    using antecedents_props [OF A dI] .
  have sub: "S \<in> ?F" if "S \<noteq> {}" and "S \<subseteq> set (fst iwc)" for S
    using that I lsupp_mono [OF that(2), of it ls] by auto
  have "set A \<in> ?F" using sub props by auto
  then have a: "supportOf R A = Some (lsupp it ls (set A))"
    using supportOf_entries [of R "lsupp it ls" A] E by blast
  have ne: "set (filter (\<lambda>i. i \<notin> set A) (fst iwc)) \<noteq> {}" using props by auto
  have "set (filter (\<lambda>i. i \<notin> set A) (fst iwc)) \<in> ?F" by (rule sub [OF ne]) auto
  then have "supportOf R (filter (\<lambda>i. i \<notin> set A) (fst iwc)) =
               Some (lsupp it ls (set (filter (\<lambda>i. i \<notin> set A) (fst iwc))))"
    using supportOf_entries [of R "lsupp it ls" "filter (\<lambda>i. i \<notin> set A) (fst iwc)"] E by blast
  moreover have "set (filter (\<lambda>i. i \<notin> set A) (fst iwc)) = set (fst iwc) - set A" by auto
  ultimately show ?thesis using a cI by simp
qed

theorem generateRules_supports_witness:
  "countItems (Opened [''a,b'', ''a,b''] None) = Inr (\<lparr>strToItem = [''a'' \<mapsto> 0, ''b'' \<mapsto> 1], itemToStr = [''a'', ''b'']\<rparr>, (makeCounts(0 \<mapsto> 2, 1 \<mapsto> 2)), 2) \<and>
   generateFrequentItemsets (Opened [''a,b'', ''a,b''] None) (Fin (1/2)) \<lparr>strToItem = [''a'' \<mapsto> 0, ''b'' \<mapsto> 1], itemToStr = [''a'', ''b'']\<rparr> (makeCounts(0 \<mapsto> 2, 1 \<mapsto> 2)) 2 = Some (Inr [([0], 2), ([1], 2), ([0, 1], 2)]) \<and>
   ([0::nat, 1], 2::nat) \<in> set [([0], 2), ([1], 2), ([0, 1], 2)] \<and> [0] \<in> set (antecedents [0, 1]) \<and>
   supportOf [([0], 2), ([1], 2), ([0, 1], 2)] [0] = Some (lsupp \<lparr>strToItem = [''a'' \<mapsto> 0, ''b'' \<mapsto> 1], itemToStr = [''a'', ''b'']\<rparr> [''a,b'', ''a,b''] {0}) \<and>
   supportOf [([0], 2), ([1], 2), ([0, 1], 2)] [1] = Some (lsupp \<lparr>strToItem = [''a'' \<mapsto> 0, ''b'' \<mapsto> 1], itemToStr = [''a'', ''b'']\<rparr> [''a,b'', ''a,b''] {1})"
proof -
  have c: "countItems (Opened [''a,b'', ''a,b''] None) = Inr (\<lparr>strToItem = [''a'' \<mapsto> 0, ''b'' \<mapsto> 1], itemToStr = [''a'', ''b'']\<rparr>, (makeCounts(0 \<mapsto> 2, 1 \<mapsto> 2)), 2)"
    by (simp add: pass1_eval numeral_2_eq_2 fun_upd_twist)
  have fp: "fpGrowth (Insert (Insert newTree [0, Suc 0] (Suc 0)) [0, Suc 0] (Suc 0)) [] (Suc 0) =
              Some [([0], 2), ([Suc 0], 2), ([0, Suc 0], 2)]"
    by code_simp
  have g: "generateFrequentItemsets (Opened [''a,b'', ''a,b''] None) (Fin (1/2)) \<lparr>strToItem = [''a'' \<mapsto> 0, ''b'' \<mapsto> 1], itemToStr = [''a'', ''b'']\<rparr> (makeCounts(0 \<mapsto> 2, 1 \<mapsto> 2)) 2 = Some (Inr [([0], 2), ([1], 2), ([0, 1], 2)])"
    by (simp add: generateFrequentItemsets_def minCountOf_f64_Fin fp frequentTransaction_def freqLess_def
                  cmp_def toStr_def itemizer_filter_def lineTokens_def get_def lookup_default_def Let_def)
  have m: "([0::nat, 1], 2::nat) \<in> set [([0], 2), ([1], 2), ([0, 1], 2)]" by simp
  have a: "[0] \<in> set (antecedents (fst ([0::nat, 1], 2::nat)))" by (simp add: antecedents_def)
  from generateRules_supports [OF c g m a] c g m a show ?thesis by (simp add: insert_Diff_if)
qed

end
