(* ===== verification/Parallel.thy ===== *)
theory Parallel
  imports FPGrowth
begin

text \<open>
  The parallel miner of \<open>src/unnamed/part_001\<close> (lines 119-222): one \<open>master\<close>
  goroutine, 28 \<open>worker\<close> goroutines, the buffered channels \<open>wc\<close> (master to workers,
  capacity 10000) and \<open>mc\<close> (workers to master, capacity 10000), and the collector that
  drains \<open>output\<close> into a list. The system is a step relation \<open>sched_step\<close> on an
  explicit global state; each rule is one transition of one goroutine, with the guard
  under which the Go statement can proceed (a send needs room in the buffer, a receive
  a message). The master's \<open>select\<close> is the two rules \<open>master_send\<close> and
  \<open>master_recv\<close>, either of which may fire when ready, as Go chooses among ready cases.
  A worker's receive, conditional-tree construction and send on the unbuffered
  \<open>output\<close> channel are one step (the collector is always ready to receive); its send
  on \<open>mc\<close> is a second step, which waits for room.
  The master evaluates \<open>lastTask.items[0]\<close> before its \<open>select\<close>; on a task with no
  items Go panics (index out of range), which is the master state \<open>Panicked\<close>.
\<close>

record masterTask =
  mtree :: fpTree
  mitemset :: itemset
  mitems :: "item list"

record workerTask =
  wtree :: fpTree
  witem :: item
  witemset :: itemset

datatype workerState = Idle | Holding masterTask

datatype masterState = Running | Closed | Panicked

record sched =
  tasks :: "masterTask list"
  outstanding :: int
  toWorker :: "workerTask list"
  fromWorker :: "masterTask list"
  workers :: "workerState list"
  itemsets :: "itemsetWithCount list"
  mstate :: masterState

definition mcCapacity :: nat where "mcCapacity = 10000"
definition wcCapacity :: nat where "wcCapacity = 10000"
definition numWorkers :: nat where "numWorkers = 28"

text \<open>The master's state after \<open>tasks = append(tasks, masterTask{...})\<close> with the
  initial tree, before its loop.\<close>

definition master_init :: "fpTree \<Rightarrow> nat \<Rightarrow> sched" where
  "master_init t minCount =
     \<lparr>tasks = [\<lparr>mtree = t, mitemset = [], mitems = frequentItemsInTree t minCount\<rparr>],
      outstanding = 0, toWorker = [], fromWorker = [],
      workers = replicate numWorkers Idle, itemsets = [], mstate = Running\<rparr>"

text \<open>The master's handling of a received task (both receive sites of the loop).\<close>

definition master_absorb :: "sched \<Rightarrow> masterTask \<Rightarrow> sched" where
  "master_absorb s task =
     s\<lparr>tasks := (if mitems task \<noteq> [] then tasks s @ [task] else tasks s),
       outstanding := outstanding s - 1\<rparr>"

text \<open>The worker's body for one task: \<open>makeConditionalTree\<close>, \<open>appendSorted\<close>, the
  emission on \<open>output\<close> and the master task it will send back.\<close>

definition worker_body :: "nat \<Rightarrow> workerTask \<Rightarrow> (itemsetWithCount \<times> masterTask) option" where
  "worker_body minCount task =
     map_option
       (\<lambda>c. ((appendSorted (witemset task) (witem task), rootCount c),
             \<lparr>mtree = c, mitemset = appendSorted (witemset task) (witem task),
              mitems = frequentItemsInTree c minCount\<rparr>))
       (makeConditionalTree (wtree task) (itemList (wtree task) (witem task)))"

inductive sched_step :: "nat \<Rightarrow> sched \<Rightarrow> sched \<Rightarrow> bool" for minCount where
  master_send:
    "mstate s = Running \<Longrightarrow> tasks s = ts @ [lastTask] \<Longrightarrow> mitems lastTask = i # rest \<Longrightarrow>
     length (toWorker s) < wcCapacity \<Longrightarrow>
     sched_step minCount s
       (s\<lparr>toWorker := toWorker s @ [\<lparr>wtree = mtree lastTask, witem = i, witemset = mitemset lastTask\<rparr>],
          outstanding := outstanding s + 1,
          tasks := (if rest = [] then ts else ts @ [lastTask\<lparr>mitems := rest\<rparr>])\<rparr>)"
| master_recv:
    "mstate s = Running \<Longrightarrow> fromWorker s = task # pending \<Longrightarrow>
     (tasks s \<noteq> [] \<and> mitems (last (tasks s)) \<noteq> [] \<or> tasks s = [] \<and> 0 < outstanding s) \<Longrightarrow>
     sched_step minCount s (master_absorb (s\<lparr>fromWorker := pending\<rparr>) task)"
| master_panic:
    "mstate s = Running \<Longrightarrow> tasks s \<noteq> [] \<Longrightarrow> mitems (last (tasks s)) = [] \<Longrightarrow>
     sched_step minCount s (s\<lparr>mstate := Panicked\<rparr>)"
| master_close:
    "mstate s = Running \<Longrightarrow> tasks s = [] \<Longrightarrow> outstanding s \<le> 0 \<Longrightarrow>
     sched_step minCount s (s\<lparr>mstate := Closed\<rparr>)"
| worker_run:
    "w < length (workers s) \<Longrightarrow> workers s ! w = Idle \<Longrightarrow> toWorker s = task # pending \<Longrightarrow>
     worker_body minCount task = Some (emitted, mt) \<Longrightarrow>
     sched_step minCount s
       (s\<lparr>toWorker := pending, itemsets := itemsets s @ [emitted], workers := (workers s)[w := Holding mt]\<rparr>)"
| worker_send:
    "w < length (workers s) \<Longrightarrow> workers s ! w = Holding mt \<Longrightarrow>
     length (fromWorker s) < mcCapacity \<Longrightarrow>
     sched_step minCount s
       (s\<lparr>fromWorker := fromWorker s @ [mt], workers := (workers s)[w := Idle]\<rparr>)"

inductive reachable :: "fpTree \<Rightarrow> nat \<Rightarrow> sched \<Rightarrow> bool" for t minCount where
  init: "reachable t minCount (master_init t minCount)"
| step: "reachable t minCount s \<Longrightarrow> sched_step minCount s s' \<Longrightarrow> reachable t minCount s'"

inductive_cases sched_stepE: "sched_step minCount s s'"

text \<open>\<open>parallelFpGrowth\<close>: once the master has closed \<open>toWorker\<close> (and the workers
  have exited), \<open>output\<close> is closed and the collected list is the result.\<close>

definition parallel_result :: "sched \<Rightarrow> itemsetWithCount list option" where
  "parallel_result s = (if mstate s = Closed then Some (itemsets s) else None)"

text \<open>The number of workers holding a finished task not yet sent to the master.\<close>

definition holding :: "workerState list \<Rightarrow> nat" where
  "holding ws = length (filter (\<lambda>w. w \<noteq> Idle) ws)"

text \<open>
  The bookkeeping invariant of the master: \<open>outstandingJobs\<close> counts exactly the jobs in
  flight, those in the \<open>wc\<close> buffer, those a worker holds and those in the \<open>mc\<close>
  buffer; the buffers respect their capacities and the pool keeps its 28 workers.
\<close>

definition sched_inv :: "sched \<Rightarrow> bool" where
  "sched_inv s \<longleftrightarrow>
     outstanding s = int (length (toWorker s) + holding (workers s) + length (fromWorker s)) \<and>
     length (workers s) = numWorkers \<and>
     length (toWorker s) \<le> wcCapacity \<and> length (fromWorker s) \<le> mcCapacity"

subsection \<open>The work still to do: every pending job's sequential result\<close>

definition task_work :: "nat \<Rightarrow> masterTask \<Rightarrow> itemsetWithCount list option" where
  "task_work minCount mt = mine_items (mtree mt) (mitemset mt) minCount (mitems mt)"

definition wtask_work :: "nat \<Rightarrow> workerTask \<Rightarrow> itemsetWithCount list option" where
  "wtask_work minCount task =
     (case worker_body minCount task of
        None \<Rightarrow> None
      | Some (e, mt) \<Rightarrow> map_option (Cons e) (task_work minCount mt))"

fun worker_work :: "nat \<Rightarrow> workerState \<Rightarrow> itemsetWithCount list option" where
  "worker_work minCount Idle = Some []"
| "worker_work minCount (Holding mt) = task_work minCount mt"

definition wm :: "'a list option \<Rightarrow> 'a multiset" where
  "wm r = mset (case r of None \<Rightarrow> [] | Some x \<Rightarrow> x)"

definition pending_ok :: "nat \<Rightarrow> sched \<Rightarrow> bool" where
  "pending_ok minCount s \<longleftrightarrow>
     (\<forall>mt \<in> set (tasks s). task_work minCount mt \<noteq> None) \<and>
     (\<forall>wt \<in> set (toWorker s). wtask_work minCount wt \<noteq> None) \<and>
     (\<forall>w \<in> set (workers s). worker_work minCount w \<noteq> None) \<and>
     (\<forall>mt \<in> set (fromWorker s). task_work minCount mt \<noteq> None)"

definition pending_mset :: "nat \<Rightarrow> sched \<Rightarrow> itemsetWithCount multiset" where
  "pending_mset minCount s =
     sum_list (map (wm \<circ> task_work minCount) (tasks s)) +
     sum_list (map (wm \<circ> wtask_work minCount) (toWorker s)) +
     sum_list (map (wm \<circ> worker_work minCount) (workers s)) +
     sum_list (map (wm \<circ> task_work minCount) (fromWorker s))"

definition work_inv :: "nat \<Rightarrow> itemsetWithCount list \<Rightarrow> sched \<Rightarrow> bool" where
  "work_inv minCount R s \<longleftrightarrow>
     pending_ok minCount s \<and> mset (itemsets s) + pending_mset minCount s = mset R"

subsection \<open>Executable schedules\<close>

text \<open>A deterministic scheduler that runs the goroutine it is told to, when that
  goroutine can move: a run of it is a run of the system (\<open>run_choices_reachable\<close>),
  so concrete interleavings, such as the one-worker schedule, can be evaluated.\<close>

datatype choice = MSend | MRecv | MPanic | MClose | WRun nat | WSend nat

fun is_idle :: "workerState \<Rightarrow> bool" where
  "is_idle Idle = True"
| "is_idle (Holding mt) = False"

fun step_choice :: "nat \<Rightarrow> sched \<Rightarrow> choice \<Rightarrow> sched option" where
  "step_choice minCount s MSend =
     (if mstate s = Running \<and> tasks s \<noteq> [] \<and> mitems (last (tasks s)) \<noteq> [] \<and>
         length (toWorker s) < wcCapacity
      then Some (s\<lparr>toWorker := toWorker s @ [\<lparr>wtree = mtree (last (tasks s)),
                      witem = hd (mitems (last (tasks s))), witemset = mitemset (last (tasks s))\<rparr>],
                  outstanding := outstanding s + 1,
                  tasks := (if tl (mitems (last (tasks s))) = [] then butlast (tasks s)
                            else butlast (tasks s) @ [last (tasks s)\<lparr>mitems := tl (mitems (last (tasks s)))\<rparr>])\<rparr>)
      else None)"
| "step_choice minCount s MRecv =
     (if mstate s = Running \<and> fromWorker s \<noteq> [] \<and>
         (tasks s \<noteq> [] \<and> mitems (last (tasks s)) \<noteq> [] \<or> tasks s = [] \<and> 0 < outstanding s)
      then Some (master_absorb (s\<lparr>fromWorker := tl (fromWorker s)\<rparr>) (hd (fromWorker s)))
      else None)"
| "step_choice minCount s MPanic =
     (if mstate s = Running \<and> tasks s \<noteq> [] \<and> mitems (last (tasks s)) = []
      then Some (s\<lparr>mstate := Panicked\<rparr>) else None)"
| "step_choice minCount s MClose =
     (if mstate s = Running \<and> tasks s = [] \<and> outstanding s \<le> 0
      then Some (s\<lparr>mstate := Closed\<rparr>) else None)"
| "step_choice minCount s (WRun w) =
     (if w < length (workers s) \<and> is_idle (workers s ! w) \<and> toWorker s \<noteq> []
      then (case worker_body minCount (hd (toWorker s)) of
              None \<Rightarrow> None
            | Some (e, mt) \<Rightarrow> Some (s\<lparr>toWorker := tl (toWorker s), itemsets := itemsets s @ [e],
                                       workers := (workers s)[w := Holding mt]\<rparr>))
      else None)"
| "step_choice minCount s (WSend w) =
     (if w < length (workers s) \<and> length (fromWorker s) < mcCapacity
      then (case workers s ! w of
              Idle \<Rightarrow> None
            | Holding mt \<Rightarrow> Some (s\<lparr>fromWorker := fromWorker s @ [mt], workers := (workers s)[w := Idle]\<rparr>))
      else None)"

fun run_choices :: "nat \<Rightarrow> sched \<Rightarrow> choice list \<Rightarrow> sched option" where
  "run_choices minCount s [] = Some s"
| "run_choices minCount s (c # cs) =
     (case step_choice minCount s c of None \<Rightarrow> None | Some s' \<Rightarrow> run_choices minCount s' cs)"

text \<open>The rank of a state of the serial schedule, which keeps at most one job in flight:
  the itemsets still to emit, then the stage of the job in flight (sent, held, returned,
  none). Every step of that schedule lowers it, until the master stops.\<close>

definition serial_rank :: "itemsetWithCount list \<Rightarrow> sched \<Rightarrow> nat" where
  "serial_rank R s =
     4 * (length R - length (itemsets s)) +
     (if toWorker s \<noteq> [] then 0 else if holding (workers s) \<noteq> 0 then 3
      else if fromWorker s \<noteq> [] then 2 else 1)"

subsection \<open>The bookkeeping invariant\<close>

lemma holding_update_Holding:
  "w < length ws \<Longrightarrow> ws ! w = Idle \<Longrightarrow> holding (ws[w := Holding mt]) = Suc (holding ws)"
  using length_filter_update_plus [of w ws "\<lambda>w. w \<noteq> Idle" "Holding mt"]
  by (simp add: holding_def)

lemma holding_update_Idle:
  "w < length ws \<Longrightarrow> ws ! w = Holding mt \<Longrightarrow> Suc (holding (ws[w := Idle])) = holding ws"
  using length_filter_update_plus [of w ws "\<lambda>w. w \<noteq> Idle" Idle]
  by (simp add: holding_def)

lemma sched_inv_init: "sched_inv (master_init t minCount)"
  by (simp add: sched_inv_def master_init_def holding_def wcCapacity_def mcCapacity_def)

lemma sched_step_inv:
  assumes "sched_step minCount s s'" and "sched_inv s"
  shows "sched_inv s'"
  using assms
proof (induction rule: sched_step.induct)
  case (master_send s ts lastTask i rest)
  then show ?case by (simp add: sched_inv_def)
next
  case (master_recv s task pending)
  then show ?case by (simp add: sched_inv_def master_absorb_def)
next
  case (master_panic s)
  then show ?case by (simp add: sched_inv_def)
next
  case (master_close s)
  then show ?case by (simp add: sched_inv_def)
next
  case (worker_run w s task pending emitted mt)
  then show ?case by (simp add: sched_inv_def holding_update_Holding)
next
  case (worker_send w s mt)
  then show ?case
    using holding_update_Idle [of w "workers s" mt] by (simp add: sched_inv_def)
qed

lemma reachable_sched_inv: "reachable t minCount s \<Longrightarrow> sched_inv s"
  by (induction rule: reachable.induct) (auto intro: sched_inv_init sched_step_inv)

lemma holding_zero: "holding ws = 0 \<longleftrightarrow> (\<forall>w \<in> set ws. w = Idle)"
  by (simp add: holding_def filter_empty_conv)

lemma closed_no_step:
  assumes "mstate s = Closed" and "toWorker s = []" and idle: "\<forall>w \<in> set (workers s). w = Idle"
  shows "\<not> sched_step minCount s s'"
proof
  assume "sched_step minCount s s'"
  then show False
  proof cases
    case (worker_send w mt)
    then have "workers s ! w \<in> set (workers s)" using nth_mem by blast
    from idle [rule_format, OF this] worker_send show False by simp
  qed (use assms in auto)
qed

text \<open>Once the master has closed, it stays closed and the state does not change.\<close>

lemma reachable_closed_quiet:
  "reachable t minCount s \<Longrightarrow> mstate s = Closed \<Longrightarrow>
   tasks s = [] \<and> outstanding s = 0 \<and> toWorker s = [] \<and> fromWorker s = [] \<and>
   (\<forall>w \<in> set (workers s). w = Idle)"
proof (induction rule: reachable.induct)
  case init
  then show ?case by (simp add: master_init_def)
next
  case (step s s')
  have inv': "sched_inv s'" using step.hyps reachable.step reachable_sched_inv by blast
  show ?case
  proof (cases "mstate s = Closed")
    case True
    with step.IH have "toWorker s = [] \<and> (\<forall>w \<in> set (workers s). w = Idle)" by simp
    with True step.hyps(2) show ?thesis using closed_no_step by blast
  next
    case False
    with step.hyps(2) step.prems have t: "tasks s' = [] \<and> outstanding s' \<le> 0"
      by (auto elim!: sched_stepE simp: master_absorb_def)
    with inv' have le: "int (length (toWorker s')) + int (holding (workers s')) +
        int (length (fromWorker s')) \<le> 0"
      by (simp add: sched_inv_def)
    have "length (toWorker s') = 0" "holding (workers s') = 0" "length (fromWorker s') = 0"
      using le by arith+
    then have z: "toWorker s' = [] \<and> holding (workers s') = 0 \<and> fromWorker s' = []"
      by simp
    with inv' have "outstanding s' = 0"
      by (simp add: sched_inv_def)
    with t z show ?thesis
      by (simp add: holding_zero)
  qed
qed

subsection \<open>The work invariant\<close>

lemma task_work_Nil [simp]: "mitems mt = [] \<Longrightarrow> task_work minCount mt = Some []"
  by (simp add: task_work_def)

lemma wm_Some [simp]: "wm (Some x) = mset x"
  by (simp add: wm_def)

text \<open>Handing the next item of a task to a worker splits the task's work into the
  worker's part and the rest of the task.\<close>

lemma master_send_work:
  assumes "task_work minCount lastTask = Some x" and "mitems lastTask = i # rest"
  obtains r1 r2 where
    "wtask_work minCount \<lparr>wtree = mtree lastTask, witem = i, witemset = mitemset lastTask\<rparr>
       = Some ((appendSorted (mitemset lastTask) i, snd (hd x)) # r1)"
    and "task_work minCount (lastTask\<lparr>mitems := rest\<rparr>) = Some r2"
    and "mset x = add_mset (appendSorted (mitemset lastTask) i, snd (hd x)) (mset r1 + mset r2)"
proof -
  from assms have "mine_items (mtree lastTask) (mitemset lastTask) minCount (i # rest) = Some x"
    by (simp add: task_work_def)
  then obtain c r1 r2 where c: "makeConditionalTree (mtree lastTask) (itemList (mtree lastTask) i) = Some c"
    and r1: "mine_items c (appendSorted (mitemset lastTask) i) minCount (frequentItemsInTree c minCount) = Some r1"
    and r2: "mine_items (mtree lastTask) (mitemset lastTask) minCount rest = Some r2"
    and x: "x = (appendSorted (mitemset lastTask) i, rootCount c) # r1 @ r2"
    by (rule mine_items_Cons_Some)
  show ?thesis
  proof
    show "wtask_work minCount \<lparr>wtree = mtree lastTask, witem = i, witemset = mitemset lastTask\<rparr>
       = Some ((appendSorted (mitemset lastTask) i, snd (hd x)) # r1)"
      using c r1 x by (simp add: wtask_work_def worker_body_def task_work_def)
    show "task_work minCount (lastTask\<lparr>mitems := rest\<rparr>) = Some r2"
      using r2 by (simp add: task_work_def)
    show "mset x = add_mset (appendSorted (mitemset lastTask) i, snd (hd x)) (mset r1 + mset r2)"
      using x by simp
  qed
qed

lemma worker_run_work:
  assumes "worker_body minCount task = Some (e, mt)" and "wtask_work minCount task = Some y"
  shows "task_work minCount mt \<noteq> None \<and> mset y = add_mset e (wm (task_work minCount mt))"
  using assms by (auto simp: wtask_work_def wm_def)

lemma sum_list_map_update_Idle:
  fixes g :: "workerState \<Rightarrow> 'b::cancel_comm_monoid_add"
  assumes "w < length ws" and "ws ! w = Idle"
  shows "sum_list (map g (ws[w := v])) + g Idle = sum_list (map g ws) + g v"
  using sum_list_map_update [OF assms(1), of g v] assms(2) by simp

lemma sched_step_work:
  assumes "sched_step minCount s s'" and "work_inv minCount R s"
  shows "work_inv minCount R s'"
  using assms
proof (induction rule: sched_step.induct)
  case (master_send s ts lastTask i rest)
  from master_send.prems master_send.hyps(2) obtain x where
    x: "task_work minCount lastTask = Some x"
    by (auto simp: work_inv_def pending_ok_def)
  from master_send_work [OF x master_send.hyps(3)] obtain r1 r2 where
    w: "wtask_work minCount \<lparr>wtree = mtree lastTask, witem = i, witemset = mitemset lastTask\<rparr>
       = Some ((appendSorted (mitemset lastTask) i, snd (hd x)) # r1)"
    and r: "task_work minCount (lastTask\<lparr>mitems := rest\<rparr>) = Some r2"
    and m: "mset x = add_mset (appendSorted (mitemset lastTask) i, snd (hd x)) (mset r1 + mset r2)"
    by blast
  have r2: "rest = [] \<Longrightarrow> r2 = []" using r by simp
  let ?wt = "\<lparr>wtree = mtree lastTask, witem = i, witemset = mitemset lastTask\<rparr>"
  let ?ts' = "if rest = [] then ts else ts @ [lastTask\<lparr>mitems := rest\<rparr>]"
  have tasks_sum: "sum_list (map (wm \<circ> task_work minCount) (tasks s)) + mset r2 =
      sum_list (map (wm \<circ> task_work minCount) ?ts') + mset x"
    using master_send.hyps(2) x m r r2 by (cases "rest = []") (simp_all add: ac_simps)
  have sum: "pending_mset minCount (s\<lparr>toWorker := toWorker s @ [?wt], outstanding := outstanding s + 1,
      tasks := ?ts'\<rparr>) = pending_mset minCount s"
  proof -
    have "pending_mset minCount (s\<lparr>toWorker := toWorker s @ [?wt], outstanding := outstanding s + 1,
      tasks := ?ts'\<rparr>) + mset x + mset r2 =
      sum_list (map (wm \<circ> task_work minCount) ?ts') + mset x +
      sum_list (map (wm \<circ> wtask_work minCount) (toWorker s)) +
      add_mset (appendSorted (mitemset lastTask) i, snd (hd x)) (mset r1 + mset r2) +
      sum_list (map (wm \<circ> worker_work minCount) (workers s)) +
      sum_list (map (wm \<circ> task_work minCount) (fromWorker s))"
      unfolding pending_mset_def using w by (simp add: ac_simps)
    also have "\<dots> = pending_mset minCount s + mset x + mset r2"
      unfolding pending_mset_def using tasks_sum m by (simp add: ac_simps flip: tasks_sum)
    finally show ?thesis by simp
  qed
  have ok: "pending_ok minCount (s\<lparr>toWorker := toWorker s @ [?wt], outstanding := outstanding s + 1,
      tasks := ?ts'\<rparr>)"
    using master_send.prems master_send.hyps(2) w r
    by (auto simp: work_inv_def pending_ok_def)
  show ?case
    using master_send.prems ok sum by (simp add: work_inv_def)
next
  case (master_recv s task pending)
  have ok: "pending_ok minCount (master_absorb (s\<lparr>fromWorker := pending\<rparr>) task)"
    using master_recv.prems master_recv.hyps(2)
    by (auto simp: work_inv_def pending_ok_def master_absorb_def)
  have sum: "pending_mset minCount (master_absorb (s\<lparr>fromWorker := pending\<rparr>) task) =
      pending_mset minCount s"
    unfolding pending_mset_def master_absorb_def using master_recv.hyps(2)
    by (cases "mitems task = []") (simp_all add: ac_simps)
  show ?case
    using master_recv.prems ok sum by (simp add: work_inv_def master_absorb_def)
next
  case (master_panic s)
  then show ?case by (simp add: work_inv_def pending_ok_def pending_mset_def)
next
  case (master_close s)
  then show ?case by (simp add: work_inv_def pending_ok_def pending_mset_def)
next
  case (worker_run w s task pending e mt)
  from worker_run.prems worker_run.hyps(3) obtain y where y: "wtask_work minCount task = Some y"
    by (auto simp: work_inv_def pending_ok_def)
  from worker_run_work [OF worker_run.hyps(4) y]
  have mt: "task_work minCount mt \<noteq> None" and my: "mset y = add_mset e (wm (task_work minCount mt))"
    by blast+
  have upd: "sum_list (map (wm \<circ> worker_work minCount) ((workers s)[w := Holding mt])) =
      sum_list (map (wm \<circ> worker_work minCount) (workers s)) + wm (task_work minCount mt)"
    using sum_list_map_update_Idle [OF worker_run.hyps(1,2), of "wm \<circ> worker_work minCount" "Holding mt"]
    by simp
  have ws: "\<forall>x \<in> set ((workers s)[w := Holding mt]). worker_work minCount x \<noteq> None"
  proof
    fix x assume "x \<in> set ((workers s)[w := Holding mt])"
    then have "x \<in> insert (Holding mt) (set (workers s))"
      using set_update_subset_insert by fastforce
    then show "worker_work minCount x \<noteq> None"
      using worker_run.prems mt by (auto simp: work_inv_def pending_ok_def)
  qed
  have ok: "pending_ok minCount (s\<lparr>toWorker := pending, itemsets := itemsets s @ [e],
      workers := (workers s)[w := Holding mt]\<rparr>)"
    using worker_run.prems worker_run.hyps(3) ws by (simp add: work_inv_def pending_ok_def)
  have sum: "mset (itemsets s @ [e]) +
      pending_mset minCount (s\<lparr>toWorker := pending, itemsets := itemsets s @ [e],
      workers := (workers s)[w := Holding mt]\<rparr>) = mset (itemsets s) + pending_mset minCount s"
    unfolding pending_mset_def using worker_run.hyps(3) y my upd by (simp add: ac_simps)
  show ?case
    using worker_run.prems ok sum by (simp add: work_inv_def)
next
  case (worker_send w s mt)
  have upd: "sum_list (map (wm \<circ> worker_work minCount) ((workers s)[w := Idle])) + wm (task_work minCount mt) =
      sum_list (map (wm \<circ> worker_work minCount) (workers s))"
    using sum_list_map_update [OF worker_send.hyps(1), of "wm \<circ> worker_work minCount" Idle]
      worker_send.hyps(2) by simp
  have held: "Holding mt \<in> set (workers s)"
    using worker_send.hyps(1,2) nth_mem by fastforce
  have mt: "task_work minCount mt \<noteq> None"
    using worker_send.prems held by (fastforce simp: work_inv_def pending_ok_def)
  have ws: "\<forall>x \<in> set ((workers s)[w := Idle]). worker_work minCount x \<noteq> None"
  proof
    fix x assume "x \<in> set ((workers s)[w := Idle])"
    then have "x \<in> insert Idle (set (workers s))"
      using set_update_subset_insert by fastforce
    then show "worker_work minCount x \<noteq> None"
      using worker_send.prems by (auto simp: work_inv_def pending_ok_def)
  qed
  have ok: "pending_ok minCount (s\<lparr>fromWorker := fromWorker s @ [mt], workers := (workers s)[w := Idle]\<rparr>)"
    using worker_send.prems mt ws by (simp add: work_inv_def pending_ok_def)
  have sum: "pending_mset minCount (s\<lparr>fromWorker := fromWorker s @ [mt], workers := (workers s)[w := Idle]\<rparr>)
      = pending_mset minCount s"
    unfolding pending_mset_def using upd [symmetric] by (simp add: ac_simps)
  show ?case
    using worker_send.prems ok sum by (simp add: work_inv_def)
qed

lemma work_inv_init:
  "fpGrowth t [] minCount = Some R \<Longrightarrow> work_inv minCount R (master_init t minCount)"
proof -
  assume R: "fpGrowth t [] minCount = Some R"
  have idle: "sum_list (map (wm \<circ> worker_work minCount) (replicate n Idle)) = {#}" for n
    by (induction n) simp_all
  show ?thesis
    using R idle by (simp add: work_inv_def pending_ok_def pending_mset_def master_init_def
        task_work_def fpGrowth_def)
qed

lemma reachable_work_inv:
  "reachable t minCount s \<Longrightarrow> fpGrowth t [] minCount = Some R \<Longrightarrow> work_inv minCount R s"
  by (induction rule: reachable.induct) (auto intro: work_inv_init sched_step_work)

subsection \<open>Executable schedules: soundness\<close>

lemma is_idle_iff [simp]: "is_idle w \<longleftrightarrow> w = Idle"
  by (cases w) simp_all

declare is_idle_iff [code del]

text \<open>The definitions a concrete run unfolds, for evaluating schedules by \<open>simp\<close>.\<close>

lemmas sched_eval_simps = master_init_def numWorkers_def wcCapacity_def mcCapacity_def
  worker_body_def makeConditionalTree_def headerNodes_def prefixPath_def Insert_def newTree_def
  rootNode_def getChild_def add_count_def frequentItemsInTree_def headerKeys_def rootCount_def
  appendSorted_def master_absorb_def parallel_result_def get_def increment_def makeCounts_def
  lookup_default_def

lemma step_choice_sound:
  "step_choice minCount s c = Some s' \<Longrightarrow> sched_step minCount s s'"
proof (cases c)
  case MSend
  assume h: "step_choice minCount s c = Some s'"
  with MSend obtain i rest where it: "mitems (last (tasks s)) = i # rest"
    by (cases "mitems (last (tasks s))") (auto split: if_splits)
  have ts: "tasks s = butlast (tasks s) @ [last (tasks s)]"
    using h MSend by (auto split: if_splits)
  let ?s1 = "s\<lparr>toWorker := toWorker s @ [\<lparr>wtree = mtree (last (tasks s)), witem = i,
      witemset = mitemset (last (tasks s))\<rparr>], outstanding := outstanding s + 1,
      tasks := (if rest = [] then butlast (tasks s) else butlast (tasks s) @ [last (tasks s)\<lparr>mitems := rest\<rparr>])\<rparr>"
  have "sched_step minCount s ?s1"
    by (rule sched_step.master_send [OF _ ts it]) (use h MSend in \<open>auto split: if_splits\<close>)
  moreover have "s' = ?s1"
    using h MSend it by (auto split: if_splits)
  ultimately show ?thesis by simp
next
  case MRecv
  assume "step_choice minCount s c = Some s'"
  with MRecv show ?thesis
    by (cases "fromWorker s") (auto split: if_splits intro: sched_step.master_recv)
next
  case MPanic
  assume "step_choice minCount s c = Some s'"
  with MPanic show ?thesis by (auto split: if_splits intro: sched_step.master_panic)
next
  case MClose
  assume "step_choice minCount s c = Some s'"
  with MClose show ?thesis by (auto split: if_splits intro: sched_step.master_close)
next
  case (WRun w)
  assume "step_choice minCount s c = Some s'"
  with WRun show ?thesis
    by (cases "toWorker s") (auto split: if_splits option.splits intro: sched_step.worker_run)
next
  case (WSend w)
  assume "step_choice minCount s c = Some s'"
  with WSend show ?thesis
    by (auto split: if_splits workerState.splits intro: sched_step.worker_send)
qed

lemma run_choices_reachable:
  "reachable t minCount s \<Longrightarrow> run_choices minCount s cs = Some s' \<Longrightarrow> reachable t minCount s'"
proof (induction cs arbitrary: s)
  case Nil
  then show ?case by simp
next
  case (Cons c cs)
  then obtain s1 where s1: "step_choice minCount s c = Some s1" and r: "run_choices minCount s1 cs = Some s'"
    by (auto split: option.splits)
  have "reachable t minCount s1"
    using Cons.prems(1) step_choice_sound [OF s1] by (rule reachable.step)
  from this r show ?case by (rule Cons.IH)
qed

subsection \<open>Properties of the parallel miner\<close>

text \<open>A closed run has collected the sequential result, as a multiset.\<close>

lemma closed_run_mset:
  assumes "fpGrowth t [] minCount = Some R" and "reachable t minCount s" and "mstate s = Closed"
  shows "mset (itemsets s) = mset R"
proof -
  have quiet: "tasks s = [] \<and> toWorker s = [] \<and> fromWorker s = [] \<and> (\<forall>w \<in> set (workers s). w = Idle)"
    using reachable_closed_quiet [OF assms(2,3)] by simp
  have idle: "sum_list (map (wm \<circ> worker_work minCount) ws) = {#}" if "\<forall>w \<in> set ws. w = Idle" for ws
    using that by (induction ws) auto
  have "pending_mset minCount s = {#}"
    using quiet idle by (simp add: pending_mset_def)
  with reachable_work_inv [OF assms(2,1)] show ?thesis
    by (simp add: work_inv_def)
qed

text \<open>
  Claim C1: the parallel miner computes what the sequential one does. If sequential
  FP-Growth on the initial tree returns \<open>R\<close>, every run of the master and its
  workers that ends with the master closing \<open>toWorker\<close> has collected the same
  itemsets with the same counts as \<open>R\<close>, as a multiset: only the order of emission
  depends on the interleaving (spec sections 4.4 and 8, worker count 1 against more).
\<close>

theorem parallel_matches_sequential:
  assumes "fpGrowth t [] minCount = Some R" and "reachable t minCount s"
    and "parallel_result s = Some out"
  shows "mset out = mset R"
proof -
  have "mstate s = Closed" and out: "out = itemsets s"
    using assms(3) by (auto simp: parallel_result_def split: if_splits)
  with closed_run_mset [OF assms(1,2)] show ?thesis by simp
qed

theorem parallel_matches_sequential_witness:
  "\<exists>s. reachable (Insert (Insert newTree [1] 1) [0, 1] 2) 1 s \<and>
       parallel_result s = Some [([1], 3), ([0], 2), ([0, 1], 2)] \<and>
       fpGrowth (Insert (Insert newTree [1] 1) [0, 1] 2) [] 1 = Some [([1], 3), ([0, 1], 2), ([0], 2)] \<and>
       mset [([1::nat], 3::nat), ([0], 2), ([0, 1], 2)] = mset [([1], 3), ([0, 1], 2), ([0], 2)]"
proof -
  let ?t = "Insert (Insert newTree [1] 1) [0, 1] 2"
  let ?cs = "[MSend, MSend, WRun 0, WSend 0, WRun 0, WSend 0, MRecv, MRecv, MSend, WRun 0, WSend 0,
              MRecv, MClose]"
  have R: "fpGrowth ?t [] 1 = Some [([1], 3), ([0, 1], 2), ([0], 2)]"
    by code_simp
  have "case run_choices 1 (master_init ?t 1) ?cs of
          None \<Rightarrow> False | Some s \<Rightarrow> parallel_result s = Some [([1], 3), ([0], 2), ([0, 1], 2)]"
    by (simp add: sched_eval_simps)
  then obtain s where run: "run_choices 1 (master_init ?t 1) ?cs = Some s"
    and res: "parallel_result s = Some [([1], 3), ([0], 2), ([0, 1], 2)]"
    by (rule case_option_SomeE)
  have reach: "reachable ?t 1 s"
    using run_choices_reachable [OF reachable.init run] .
  have "mset [([1::nat], 3::nat), ([0], 2), ([0, 1], 2)] = mset [([1], 3), ([0, 1], 2), ([0], 2)]"
    by (rule parallel_matches_sequential [OF R reach res])
  with reach res R have "reachable ?t 1 s \<and> parallel_result s = Some [([1], 3), ([0], 2), ([0, 1], 2)] \<and>
      fpGrowth ?t [] 1 = Some [([1], 3), ([0, 1], 2), ([0], 2)] \<and>
      mset [([1::nat], 3::nat), ([0], 2), ([0, 1], 2)] = mset [([1], 3), ([0, 1], 2), ([0], 2)]"
    by (intro conjI)
  then show ?thesis by (rule exI)
qed

text \<open>
  Claim C18: the master's \<open>outstandingJobs\<close> counter is exact and never negative. In
  every reachable state it equals the number of jobs in flight: those in the \<open>wc\<close>
  buffer, those held by a worker and those in the \<open>mc\<close> buffer; both buffers stay
  within their capacity of 10000 and the pool keeps its 28 workers.
\<close>

theorem outstanding_counts_in_flight:
  assumes "reachable t minCount s"
  shows "outstanding s = int (length (toWorker s) + holding (workers s) + length (fromWorker s)) \<and>
    0 \<le> outstanding s \<and> length (toWorker s) \<le> wcCapacity \<and> length (fromWorker s) \<le> mcCapacity \<and>
    length (workers s) = numWorkers"
  using reachable_sched_inv [OF assms] by (simp add: sched_inv_def)

theorem outstanding_counts_in_flight_witness:
  "outstanding (master_init newTree 1) = 0 \<and> 0 \<le> outstanding (master_init newTree 1)"
  using outstanding_counts_in_flight [OF reachable.init, of newTree 1]
  by (simp add: master_init_def holding_def numWorkers_def)

lemma some_idle_or_holding:
  "ws \<noteq> [] \<Longrightarrow> (\<exists>w < length ws. ws ! w = Idle) \<or> (\<exists>w < length ws. \<exists>mt. ws ! w = Holding mt)"
  by (metis length_greater_0_conv workerState.exhaust)

lemma worker_can_run:
  assumes "pending_ok minCount s" and "toWorker s = task # pending"
  obtains e mt where "worker_body minCount task = Some (e, mt)"
  using assms by (auto simp: pending_ok_def wtask_work_def split: option.splits)

text \<open>A job in \<open>wc\<close> and room in \<open>mc\<close>: an idle worker can take the job, or a
  worker holding a result can send it.\<close>

lemma progress_run_or_send:
  assumes inv: "sched_inv s" and ok: "pending_ok minCount s"
    and tw: "toWorker s \<noteq> []" and mc: "length (fromWorker s) < mcCapacity"
  shows "\<exists>s'. sched_step minCount s s'"
proof -
  have ws: "workers s \<noteq> []" using inv by (auto simp: sched_inv_def numWorkers_def)
  obtain task pending where q: "toWorker s = task # pending" using tw by (cases "toWorker s") auto
  obtain e mt where b: "worker_body minCount task = Some (e, mt)"
    using worker_can_run [OF ok q] .
  from some_idle_or_holding [OF ws] show ?thesis
  proof
    assume "\<exists>w < length (workers s). workers s ! w = Idle"
    then obtain w where "w < length (workers s)" "workers s ! w = Idle" by blast
    from sched_step.worker_run [OF this q b] show ?thesis by (rule exI)
  next
    assume "\<exists>w < length (workers s). \<exists>mt. workers s ! w = Holding mt"
    then obtain w mt' where "w < length (workers s)" "workers s ! w = Holding mt'" by blast
    from sched_step.worker_send [OF this mc] show ?thesis by (rule exI)
  qed
qed

text \<open>An empty stack: the master closes, or receives, or a worker moves.\<close>

lemma progress_empty_stack:
  assumes inv: "sched_inv s" and ok: "pending_ok minCount s"
    and run: "mstate s = Running" and empty: "tasks s = []"
  shows "\<exists>s'. sched_step minCount s s'"
proof (cases "outstanding s \<le> 0")
  case True
  with empty run show ?thesis by (blast intro: sched_step.master_close)
next
  case False
  show ?thesis
  proof (cases "fromWorker s")
    case (Cons task pending)
    have "tasks s \<noteq> [] \<and> mitems (last (tasks s)) \<noteq> [] \<or> tasks s = [] \<and> 0 < outstanding s"
      using False empty by simp
    from sched_step.master_recv [OF run Cons this] show ?thesis by (rule exI)
  next
    case Nil
    show ?thesis
    proof (cases "toWorker s = []")
      case True
      with Nil False inv have "holding (workers s) \<noteq> 0" by (simp add: sched_inv_def)
      then obtain w mt where "w < length (workers s)" "workers s ! w = Holding mt"
        by (auto simp: holding_zero in_set_conv_nth) (metis workerState.exhaust)
      moreover have "length (fromWorker s) < mcCapacity" using Nil by (simp add: mcCapacity_def)
      ultimately show ?thesis by (blast intro: sched_step.worker_send)
    next
      case False
      with Nil show ?thesis using progress_run_or_send [OF inv ok] by (simp add: mcCapacity_def)
    qed
  qed
qed

text \<open>A non-empty stack: the master panics, sends, or receives, or a worker moves.\<close>

lemma progress_stack:
  assumes inv: "sched_inv s" and ok: "pending_ok minCount s"
    and run: "mstate s = Running" and ts: "tasks s = ts @ [lastTask]"
  shows "\<exists>s'. sched_step minCount s s'"
proof (cases "mitems lastTask")
  case Nil
  have "tasks s \<noteq> []" and "mitems (last (tasks s)) = []" using ts Nil by simp_all
  from sched_step.master_panic [OF run this] show ?thesis by (rule exI)
next
  case (Cons i rest)
  show ?thesis
  proof (cases "length (toWorker s) < wcCapacity")
    case True
    with ts Cons run show ?thesis by (blast intro: sched_step.master_send)
  next
    case full: False
    then have tw: "toWorker s \<noteq> []" by (auto simp: wcCapacity_def)
    show ?thesis
    proof (cases "length (fromWorker s) < mcCapacity")
      case True
      with tw show ?thesis by (rule progress_run_or_send [OF inv ok])
    next
      case False
      then obtain task pending where "fromWorker s = task # pending"
        by (cases "fromWorker s") (auto simp: mcCapacity_def)
      moreover have "tasks s \<noteq> [] \<and> mitems (last (tasks s)) \<noteq> [] \<or> tasks s = [] \<and> 0 < outstanding s"
        using ts Cons by simp
      ultimately show ?thesis using run by (blast intro: sched_step.master_recv)
    qed
  qed
qed

subsection \<open>A run that finishes\<close>

lemma work_inv_length: "work_inv minCount R s \<Longrightarrow> length (itemsets s) \<le> length R"
  by (auto simp: work_inv_def dest: arg_cong [where f = size])

lemma holding_one:
  assumes "holding ws = Suc 0"
  obtains w mt where "w < length ws" "ws ! w = Holding mt"
proof -
  have "\<not> (\<forall>w \<in> set ws. w = Idle)" using assms holding_zero [of ws] by simp
  then obtain i where i: "i < length ws" "ws ! i \<noteq> Idle" by (auto simp: in_set_conv_nth)
  then obtain mt where "ws ! i = Holding mt" by (cases "ws ! i") auto
  with i(1) show ?thesis by (rule that)
qed

text \<open>One step of the serial schedule: from a running state with at most one job in
  flight, a step keeps at most one job in flight and stops the master or lowers the
  rank.\<close>

lemma serial_step:
  assumes inv: "sched_inv s" and wk: "work_inv minCount R s"
    and run: "mstate s = Running" and one: "outstanding s \<le> 1"
  shows "\<exists>s'. sched_step minCount s s' \<and> outstanding s' \<le> 1 \<and>
           (mstate s' \<noteq> Running \<or> serial_rank R s' < serial_rank R s)"
proof -
  have ok: "pending_ok minCount s" using wk by (simp add: work_inv_def)
  have flight: "outstanding s = int (length (toWorker s) + holding (workers s) + length (fromWorker s))"
    and nw: "length (workers s) = numWorkers" using inv by (simp_all add: sched_inv_def)
  have "int (length (toWorker s) + holding (workers s) + length (fromWorker s)) \<le> int 1"
    using flight one by simp
  then have tot: "length (toWorker s) + holding (workers s) + length (fromWorker s) \<le> 1"
    by (simp only: of_nat_le_iff)
  show ?thesis
  proof (cases "toWorker s")
    case (Cons task pending)
    with tot have p: "pending = []" "holding (workers s) = 0" "fromWorker s = []" by simp_all
    have w0: "0 < length (workers s)" "workers s ! 0 = Idle"
      using p(2) nw holding_zero [of "workers s"] by (simp_all add: numWorkers_def)
    obtain e mt where b: "worker_body minCount task = Some (e, mt)" using worker_can_run [OF ok Cons] .
    let ?s' = "s\<lparr>toWorker := pending, itemsets := itemsets s @ [e], workers := (workers s)[0 := Holding mt]\<rparr>"
    have st: "sched_step minCount s ?s'" using sched_step.worker_run [OF w0 Cons b] .
    have "length (itemsets ?s') \<le> length R" using sched_step_work [OF st wk] by (rule work_inv_length)
    moreover have "holding (workers ?s') \<noteq> 0" using holding_update_Holding [OF w0, of mt] by simp
    ultimately have "serial_rank R ?s' < serial_rank R s" using Cons p by (simp add: serial_rank_def)
    with st one show ?thesis by auto
  next
    case Nil
    show ?thesis
    proof (cases "holding (workers s) = 0")
      case False
      with tot Nil have "holding (workers s) = Suc 0" "length (fromWorker s) = 0" by linarith+
      then have h: "holding (workers s) = Suc 0" "fromWorker s = []" by simp_all
      obtain w mt where w: "w < length (workers s)" "workers s ! w = Holding mt" using h(1) by (rule holding_one)
      let ?s' = "s\<lparr>fromWorker := fromWorker s @ [mt], workers := (workers s)[w := Idle]\<rparr>"
      have st: "sched_step minCount s ?s'" using sched_step.worker_send [OF w] h(2) by (simp add: mcCapacity_def)
      have "holding (workers ?s') = 0" using holding_update_Idle [OF w] h(1) by simp
      then have "serial_rank R ?s' < serial_rank R s" using Nil False by (simp add: serial_rank_def)
      with st one show ?thesis by auto
    next
      case h0: True
      show ?thesis
      proof (cases "fromWorker s")
        case (Cons task pending)
        show ?thesis
        proof (cases "tasks s \<noteq> [] \<and> mitems (last (tasks s)) = []")
          case True
          with run have "sched_step minCount s (s\<lparr>mstate := Panicked\<rparr>)" by (blast intro: sched_step.master_panic)
          with one show ?thesis by auto
        next
          case False
          have "outstanding s = 1" using flight one Nil h0 Cons by simp
          with False have g: "tasks s \<noteq> [] \<and> mitems (last (tasks s)) \<noteq> [] \<or> tasks s = [] \<and> 0 < outstanding s" by auto
          let ?s' = "master_absorb (s\<lparr>fromWorker := pending\<rparr>) task"
          have st: "sched_step minCount s ?s'" using sched_step.master_recv [OF run Cons g] .
          have "pending = []" using tot Nil h0 Cons by simp
          then have "serial_rank R ?s' < serial_rank R s" using Nil h0 Cons by (simp add: serial_rank_def master_absorb_def)
          with st one show ?thesis by (auto simp: master_absorb_def)
        qed
      next
        case fw: Nil
        show ?thesis
        proof (cases "tasks s" rule: rev_cases)
          case Nil
          have "outstanding s \<le> 0" using flight Nil h0 fw \<open>toWorker s = []\<close> by simp
          with run Nil have "sched_step minCount s (s\<lparr>mstate := Closed\<rparr>)" by (blast intro: sched_step.master_close)
          with one show ?thesis by auto
        next
          case (snoc ts lastTask)
          show ?thesis
          proof (cases "mitems lastTask")
            case Nil
            with run snoc have "sched_step minCount s (s\<lparr>mstate := Panicked\<rparr>)" by (auto intro: sched_step.master_panic)
            with one show ?thesis by auto
          next
            case (Cons i rest)
            let ?s' = "s\<lparr>toWorker := toWorker s @ [\<lparr>wtree = mtree lastTask, witem = i, witemset = mitemset lastTask\<rparr>],
                        outstanding := outstanding s + 1,
                        tasks := (if rest = [] then ts else ts @ [lastTask\<lparr>mitems := rest\<rparr>])\<rparr>"
            have st: "sched_step minCount s ?s'"
              using sched_step.master_send [OF run snoc Cons] \<open>toWorker s = []\<close> by (simp add: wcCapacity_def)
            have "outstanding s = 0" using flight h0 fw \<open>toWorker s = []\<close> by simp
            moreover have "serial_rank R ?s' < serial_rank R s" using \<open>toWorker s = []\<close> h0 fw by (simp add: serial_rank_def)
            ultimately show ?thesis using st by auto
          qed
        qed
      qed
    qed
  qed
qed

lemma serial_finish:
  assumes "reachable t minCount s" and "fpGrowth t [] minCount = Some R" and "outstanding s \<le> 1"
  shows "\<exists>s'. reachable t minCount s' \<and> mstate s' \<noteq> Running"
  using assms
proof (induction "serial_rank R s" arbitrary: s rule: less_induct)
  case less
  show ?case
  proof (cases "mstate s = Running")
    case run: True
    have inv: "sched_inv s" using less.prems(1) by (rule reachable_sched_inv)
    have wk: "work_inv minCount R s" using less.prems(1,2) by (rule reachable_work_inv)
    obtain s' where st: "sched_step minCount s s'" and one: "outstanding s' \<le> 1"
      and d: "mstate s' \<noteq> Running \<or> serial_rank R s' < serial_rank R s"
      using serial_step [OF inv wk run less.prems(3)] by blast
    have r: "reachable t minCount s'" using less.prems(1) st by (rule reachable.step)
    from d show ?thesis
    proof
      assume "mstate s' \<noteq> Running"
      with r show ?thesis by blast
    next
      assume "serial_rank R s' < serial_rank R s"
      from less.hyps [OF this r less.prems(2) one] show ?thesis .
    qed
  qed (use less.prems(1) in blast)
qed

lemma parallel_finishes:
  assumes "fpGrowth t [] minCount = Some R"
  shows "\<exists>s. reachable t minCount s \<and> (mstate s = Closed \<or> mstate s = Panicked)"
proof -
  have "outstanding (master_init t minCount) \<le> 1" by (simp add: master_init_def)
  from serial_finish [OF reachable.init assms this] obtain s where
    "reachable t minCount s" "mstate s \<noteq> Running" by blast
  then show ?thesis by (cases "mstate s") auto
qed

text \<open>
  Claim C16: the master and workers never deadlock. While the master runs, some
  goroutine can always move, provided the conditional trees the workers build exist
  (sequential FP-Growth on the initial tree returns): when \<open>wc\<close> is full a worker can
  take from it, when every worker holds a result \<open>mc\<close> has room or the master can
  receive from it, and an empty stack with no job in flight lets the master close.
\<close>

theorem sched_progress:
  assumes "fpGrowth t [] minCount = Some R" and "reachable t minCount s" and "mstate s = Running"
  shows "\<exists>s'. sched_step minCount s s'"
proof -
  have inv: "sched_inv s" using assms(2) by (rule reachable_sched_inv)
  have ok: "pending_ok minCount s" using reachable_work_inv [OF assms(2,1)] by (simp add: work_inv_def)
  show ?thesis
  proof (cases "tasks s" rule: rev_cases)
    case Nil
    then show ?thesis by (rule progress_empty_stack [OF inv ok assms(3)])
  next
    case (snoc ts lastTask)
    then show ?thesis by (rule progress_stack [OF inv ok assms(3)])
  qed
qed

theorem sched_progress_witness:
  "fpGrowth (Insert newTree [5] 2) [] 1 = Some [([5], 2)] \<and>
   (\<exists>s'. sched_step 1 (master_init (Insert newTree [5] 2) 1) s')"
proof -
  have R: "fpGrowth (Insert newTree [5] 2) [] 1 = Some [([5], 2)]" by code_simp
  have run: "mstate (master_init (Insert newTree [5] 2) 1) = Running" by (simp add: master_init_def)
  from sched_progress [OF R reachable.init run] R show ?thesis by blast
qed

lemma init_step_panics:
  assumes "frequentItemsInTree t minCount = []" and "sched_step minCount (master_init t minCount) s'"
  shows "s' = (master_init t minCount)\<lparr>mstate := Panicked\<rparr>"
  using assms(2)
proof cases
  case (master_send ts lastTask i rest)
  then show ?thesis using assms(1) by (auto simp: master_init_def)
next
  case (worker_send w mt)
  then show ?thesis by (simp add: master_init_def numWorkers_def)
qed (use assms(1) in \<open>auto simp: master_init_def\<close>)

lemma panicked_no_step:
  assumes "frequentItemsInTree t minCount = []"
  shows "\<not> sched_step minCount ((master_init t minCount)\<lparr>mstate := Panicked\<rparr>) s'"
proof
  assume "sched_step minCount ((master_init t minCount)\<lparr>mstate := Panicked\<rparr>) s'"
  then show False
  proof cases
    case (worker_send w mt)
    then show ?thesis by (simp add: master_init_def numWorkers_def)
  qed (auto simp: master_init_def)
qed

lemma reachable_without_frequent_items:
  assumes "frequentItemsInTree t minCount = []" and "reachable t minCount s"
  shows "s = master_init t minCount \<or> s = (master_init t minCount)\<lparr>mstate := Panicked\<rparr>"
  using assms(2)
proof (induction rule: reachable.induct)
  case init
  then show ?case by simp
next
  case (step s s')
  then show ?case
    using init_step_panics [OF assms(1)] panicked_no_step [OF assms(1)] by blast
qed

text \<open>
  Claim C3: the parallel miner panics when the initial tree has no frequent item. The
  master pushes the initial task even when \<open>frequentItemsInTree\<close> returns no item, and
  its loop reads \<open>lastTask.items[0]\<close> before anything else, so the only move from the
  initial state is the index-out-of-range panic, and no run ever returns a result: on an
  empty input (spec scenario 3, which expects success with no itemset) or when no item
  is more frequent than \<open>minCount\<close>, \<open>parallelFpGrowth\<close> crashes.
\<close>

theorem parallel_panics_without_frequent_items:
  assumes "frequentItemsInTree t minCount = []" and "reachable t minCount s"
  shows "parallel_result s = None \<and>
    (s = master_init t minCount \<or> s = (master_init t minCount)\<lparr>mstate := Panicked\<rparr>) \<and>
    sched_step minCount (master_init t minCount) ((master_init t minCount)\<lparr>mstate := Panicked\<rparr>)"
proof -
  have states: "s = master_init t minCount \<or> s = (master_init t minCount)\<lparr>mstate := Panicked\<rparr>"
    using reachable_without_frequent_items [OF assms] .
  have "sched_step minCount (master_init t minCount) ((master_init t minCount)\<lparr>mstate := Panicked\<rparr>)"
    by (rule sched_step.master_panic) (simp_all add: master_init_def assms(1))
  with states show ?thesis
    by (auto simp: parallel_result_def master_init_def)
qed

theorem parallel_panics_without_frequent_items_witness:
  "frequentItemsInTree newTree 1 = [] \<and> parallel_result (master_init newTree 1) = None \<and>
   sched_step 1 (master_init newTree 1) ((master_init newTree 1)\<lparr>mstate := Panicked\<rparr>)"
proof -
  have f: "frequentItemsInTree newTree 1 = []"
    by (simp add: frequentItemsInTree_def headerKeys_def newTree_def rootNode_def)
  from parallel_panics_without_frequent_items [OF f reachable.init] f show ?thesis by blast
qed

end
