(* ===== verification/Driver.thy ===== *)
theory Driver
  imports Rules
begin

text \<open>
  The library entry point \<open>MineAssociationRules\<close> (\<open>src/arm.go\<close> lines 185-229). The
  file system is two functions: \<open>fs\<close> gives what opening and scanning a path yields
  (the input is opened twice, by \<open>countItems\<close> and by
  \<open>generateFrequentItemsets\<close>, and is assumed unchanged in between), and \<open>outs\<close>
  gives what creating an output path yields. The result is \<open>None\<close> when mining does not
  return, and otherwise the returned error (\<open>None\<close> for \<open>nil\<close>) with the list of the
  writes performed, each a path and the text written to it (empty when the file could
  not be created). The log lines and timings are not modelled. The writing phase is
  \<open>writeOutputs\<close>. The last lemmas read the rules file back: the names pass 1 interns
  contain no comma, so every rule line splits into its four CSV fields.
\<close>

text \<open>The writing phase (lines 208-226): the optional itemsets file, the rules, the rules
  file; the writers' errors are discarded.\<close>

definition writeOutputs ::
  "Arguments \<Rightarrow> (string \<Rightarrow> output_file) \<Rightarrow> Itemizer \<Rightarrow> nat \<Rightarrow> itemsetWithCount list \<Rightarrow>
   (string \<times> string) list" where
  "writeOutputs args outs it n iwcs =
     (let w1 = (if ItemsetsPath args \<noteq> []
                then [(ItemsetsPath args, snd (writeItemsets iwcs (outs (ItemsetsPath args)) it n))]
                else []);
          rules = generateRules iwcs n (MinConfidence args) (MinLift args);
          w2 = [(Output args, snd (writeRules rules (outs (Output args)) it))]
      in w1 @ w2)"

definition MineAssociationRules ::
  "Arguments \<Rightarrow> (string \<Rightarrow> input_file) \<Rightarrow> (string \<Rightarrow> output_file) \<Rightarrow>
   (arm_error option \<times> (string \<times> string) list) option" where
  "MineAssociationRules args fs outs =
     (case Validate args of
        Some e \<Rightarrow> Some (Some e, [])
      | None \<Rightarrow>
          (case countItems (fs (Input args)) of
             Inl e \<Rightarrow> Some (Some e, [])
           | Inr (it, freq, n) \<Rightarrow>
               (case generateFrequentItemsets (fs (Input args)) (MinSupport args) it freq n of
                  None \<Rightarrow> None
                | Some (Inl e) \<Rightarrow> Some (Some e, [])
                | Some (Inr iwcs) \<Rightarrow> Some (None, writeOutputs args outs it n iwcs))))"

lemmas driver_eval = MineAssociationRules_def writeOutputs_def Validate_def in_unit_def lift_ok_def
  generateFrequentItemsets_def

text \<open>
  Claim C19: \<open>MineAssociationRules\<close> never reports an output error. The results of
  \<open>writeItemsets\<close> (line 213) and \<open>writeRules\<close> (line 225) are discarded, so whether
  the output files can be created or written does not change the returned error: a run
  whose rules file cannot be created returns \<open>nil\<close>, where the spec (section 7) says
  that I/O errors during writing are returned.
\<close>

theorem MineAssociationRules_ignores_write_errors:
  "map_option fst (MineAssociationRules args fs outs) = map_option fst (MineAssociationRules args fs outs')"
  by (simp add: MineAssociationRules_def Let_def split: option.split sum.split prod.split)

text \<open>
  Claim C20: the errors \<open>MineAssociationRules\<close> returns, and when. An error is returned
  with nothing written, and it is either the validation error of the arguments or, for
  valid arguments, the I/O error of opening or scanning the input.
\<close>

theorem MineAssociationRules_errors:
  assumes "MineAssociationRules args fs outs = Some (Some e, ws)"
  shows "ws = [] \<and>
         (Validate args = Some e \<or>
          Validate args = None \<and>
          (\<exists>msg. e = ErrIO msg \<and>
             (fs (Input args) = OpenFailed msg \<or> (\<exists>ls. fs (Input args) = Opened ls (Some msg)))))"
  using assms
  by (auto simp: MineAssociationRules_def countItems_def generateFrequentItemsets_def Let_def
           split: option.splits sum.splits prod.splits input_file.splits)

theorem MineAssociationRules_errors_witness:
  "MineAssociationRules
     \<lparr>Input = ''in.csv'', Output = ''out.csv'', MinSupport = Fin (1/2), MinConfidence = Fin (1/2),
      MinLift = Fin (1/2), ItemsetsPath = []\<rparr> (\<lambda>_. Opened [] None) (\<lambda>_. Created None) =
     Some (Some ErrMinLiftOutOfRange, []) \<and>
   Validate \<lparr>Input = ''in.csv'', Output = ''out.csv'', MinSupport = Fin (1/2), MinConfidence = Fin (1/2),
      MinLift = Fin (1/2), ItemsetsPath = []\<rparr> = Some ErrMinLiftOutOfRange"
proof -
  have v: "Validate \<lparr>Input = ''in.csv'', Output = ''out.csv'', MinSupport = Fin (1/2),
      MinConfidence = Fin (1/2), MinLift = Fin (1/2), ItemsetsPath = []\<rparr> = Some ErrMinLiftOutOfRange"
    by (simp add: Validate_def)
  have m: "MineAssociationRules
     \<lparr>Input = ''in.csv'', Output = ''out.csv'', MinSupport = Fin (1/2), MinConfidence = Fin (1/2),
      MinLift = Fin (1/2), ItemsetsPath = []\<rparr> (\<lambda>_. Opened [] None) (\<lambda>_. Created None) =
     Some (Some ErrMinLiftOutOfRange, [])"
    by (simp add: MineAssociationRules_def v)
  from MineAssociationRules_errors [OF m] v m show ?thesis by simp
qed

lemma MineAssociationRules_success:
  assumes "MineAssociationRules args fs outs = Some (None, ws)"
  shows "\<exists>it freq n R. Validate args = None \<and> countItems (fs (Input args)) = Inr (it, freq, n) \<and>
           generateFrequentItemsets (fs (Input args)) (MinSupport args) it freq n = Some (Inr R) \<and>
           ws = writeOutputs args outs it n R"
  using assms
  by (auto simp: MineAssociationRules_def split: option.splits sum.splits prod.splits)

lemma MineAssociationRules_no_itemsets:
  assumes "Validate args = None" and "countItems (fs (Input args)) = Inr (it, freq, n)"
    and "generateFrequentItemsets (fs (Input args)) (MinSupport args) it freq n = Some (Inr [])"
    and "\<And>p. outs p = Created None"
  shows "MineAssociationRules args fs outs =
           Some (None, (if ItemsetsPath args \<noteq> [] then [(ItemsetsPath args, ''Itemset,Support\<newline>'')] else []) @
                       [(Output args, ''Antecedent => Consequent,Confidence,Lift,Support\<newline>'')])"
  using assms
  by (simp add: MineAssociationRules_def writeOutputs_def writeItemsets_def writeRules_def generateRules_def)

text \<open>The names pass 1 interns come from \<open>strings.Split\<close> on commas, so they contain no
  comma, and neither do the \<open>%f\<close> fields.\<close>

lemma countItems_names_no_comma:
  assumes "countItems (Opened ls None) = Inr (it, freq, n)"
  shows "CHR '','' \<notin> set (toStr it i)"
proof -
  obtain it' freq' n' where run: "countLines newItemizer makeCounts 0 ls = (it', freq', n')"
    by (cases "countLines newItemizer makeCounts 0 ls") auto
  with assms have eq: "it' = it" by (simp add: countItems_def)
  have ok: "itemizer_ok it" using countLines_spec [OF itemizer_ok_new run] eq by simp
  have dom: "dom (strToItem it) \<subseteq> (\<Union>l \<in> set ls. set (lineTokens l))"
    using countLines_dom [OF run] eq by (simp add: newItemizer_def)
  show ?thesis
  proof (cases "i < length (itemToStr it)")
    case True
    then have "strToItem it (itemToStr it ! i) = Some i" using ok by (simp add: itemizer_ok_def)
    then have "itemToStr it ! i \<in> (\<Union>l \<in> set ls. set (lineTokens l))" using dom by blast
    with True show ?thesis by (auto simp: toStr_def lineTokens_def dest: split_sep_pieces)
  qed (simp add: toStr_def)
qed

lemma fmt_f_no_comma: "CHR '','' \<notin> set (fmt_f x)"
proof -
  have "CHR '','' \<notin> set (dec_string k)" for k
    using dec_string_char [of "CHR '',''" k] by auto
  then show ?thesis by (cases x) (auto simp: fmt_f.simps Let_def pad6_def)
qed

lemma itemsWords_no_comma:
  "(\<forall>i \<in> set is. CHR '','' \<notin> set (toStr it i)) \<Longrightarrow> CHR '','' \<notin> set (itemsWords b it is)"
  by (induction b it "is" rule: itemsWords.induct) auto

lemma ruleLine_join:
  "ruleLine it r =
     join_sep (CHR '','') [itemsWords True it (Antecedent r) @ '' => '' @ itemsWords True it (Consequent r),
                          fmt_f (Confidence r), fmt_f (Lift r), fmt_f (Support r)] @ ''\<newline>''"
  by (simp add: ruleLine_def)

text \<open>
  Claim C23: every line of the rules file splits into its four fields. For an interner built
  by pass 1, every line \<open>writeRules\<close> writes for a rule, without its newline and split
  at commas, gives back exactly the rule field \<open>A => C\<close> and the confidence, lift and
  support fields: the CSV columns of the rules file are never shifted by a token.
\<close>

theorem ruleLine_fields:
  assumes "countItems (Opened ls None) = Inr (it, freq, n)"
  shows "split_sep (CHR '','') (butlast (ruleLine it r)) =
           [itemsWords True it (Antecedent r) @ '' => '' @ itemsWords True it (Consequent r),
            fmt_f (Confidence r), fmt_f (Lift r), fmt_f (Support r)]"
proof -
  let ?ws = "[itemsWords True it (Antecedent r) @ '' => '' @ itemsWords True it (Consequent r),
              fmt_f (Confidence r), fmt_f (Lift r), fmt_f (Support r)]"
  have names: "\<forall>i \<in> set is. CHR '','' \<notin> set (toStr it i)" for "is"
    using countItems_names_no_comma [OF assms] by blast
  have pieces: "\<forall>w \<in> set ?ws. CHR '','' \<notin> set w"
    using itemsWords_no_comma [OF names] fmt_f_no_comma by simp
  have "butlast (ruleLine it r) = join_sep (CHR '','') ?ws"
    by (simp add: ruleLine_join del: join_sep.simps)
  then show ?thesis
    using split_sep_join_sep [OF _ pieces] by simp
qed

theorem ruleLine_fields_witness:
  "countItems (Opened [''a,b''] None) =
     Inr (\<lparr>strToItem = [''a'' \<mapsto> 0, ''b'' \<mapsto> 1], itemToStr = [''a'', ''b'']\<rparr>, makeCounts(0 \<mapsto> 1, 1 \<mapsto> 1), 1) \<and>
   split_sep (CHR '','') (butlast (ruleLine \<lparr>strToItem = [''a'' \<mapsto> 0, ''b'' \<mapsto> 1], itemToStr = [''a'', ''b'']\<rparr>
       \<lparr>Antecedent = [0], Consequent = [1], Confidence = Fin 1, Lift = NaN, Support = Fin 1\<rparr>)) =
     [''a => b'', fmt_f (Fin 1), ''NaN'', fmt_f (Fin 1)]"
proof -
  have c: "countItems (Opened [''a,b''] None) =
     Inr (\<lparr>strToItem = [''a'' \<mapsto> 0, ''b'' \<mapsto> 1], itemToStr = [''a'', ''b'']\<rparr>, makeCounts(0 \<mapsto> 1, 1 \<mapsto> 1), 1)"
    by (simp add: pass1_eval)
  from ruleLine_fields [OF c] c show ?thesis by (simp add: toStr_def)
qed

end
