(* ===== verification/Cli.thy ===== *)
theory Cli
  imports Driver Parallel Pass2Correct
begin

text \<open>
  The command-line variant, \<open>src/unnamed/part_001\<close>. It runs the same two passes and
  writers as the library, with three differences: every I/O error goes through
  \<open>check\<close> (lines 33-37), which panics; the itemsets are mined by
  \<open>parallelFpGrowth\<close>, whose runs are those of the step relation of theory
  \<open>Parallel\<close>, so a run of \<open>main\<close> is nondeterministic; and \<open>main\<close> (lines 259-295)
  does not call \<open>Validate\<close>. A panic is a value of \<open>cli_panic\<close>; the outcomes of
  \<open>parallelFpGrowth\<close>, \<open>generateFrequentItemsets\<close> and \<open>main\<close> are inductive
  relations between inputs and the results of finished runs. The arguments come from
  \<open>parseArgsOrDie\<close>, which is not in the sources; they are the fields of
  \<open>Arguments\<close>. Flush errors are ignored (\<open>w.Flush()\<close>'s result is discarded).
\<close>

datatype cli_panic = PanicError arm_error | PanicIndexOutOfRange

definition check :: "string option \<Rightarrow> cli_panic + unit" where
  "check err = (case err of None \<Rightarrow> Inr () | Some e \<Rightarrow> Inl (PanicError (ErrIO e)))"

definition writeItemsets_cli ::
  "itemsetWithCount list \<Rightarrow> output_file \<Rightarrow> Itemizer \<Rightarrow> nat \<Rightarrow> cli_panic + string" where
  "writeItemsets_cli iwcs out it n =
     (case out of
        CreateFailed e \<Rightarrow> Inl (PanicError (ErrIO e))
      | Created werr \<Rightarrow> Inr (''Itemset,Support\<newline>'' @ concat (map (itemsetLine it n) iwcs)))"

definition writeRules_cli :: "Rule list list \<Rightarrow> output_file \<Rightarrow> Itemizer \<Rightarrow> cli_panic + string" where
  "writeRules_cli rules out it =
     (case out of
        CreateFailed e \<Rightarrow> Inl (PanicError (ErrIO e))
      | Created werr \<Rightarrow>
          Inr (''Antecedent => Consequent,Confidence,Lift,Support\<newline>'' @
               concat (map (\<lambda>chunk. concat (map (ruleLine it) chunk)) rules)))"

definition countItems_cli :: "input_file \<Rightarrow> cli_panic + (Itemizer \<times> itemCount \<times> nat)" where
  "countItems_cli f =
     (case f of
        OpenFailed e \<Rightarrow> Inl (PanicError (ErrIO e))
      | Opened ls err \<Rightarrow>
          (case countLines newItemizer makeCounts 0 ls of
             (it, freq, n) \<Rightarrow> (case check err of Inl p \<Rightarrow> Inl p | Inr u \<Rightarrow> Inr (it, freq, n))))"

text \<open>\<open>generateFrequentItemsets\<close> up to the call of \<open>parallelFpGrowth\<close> (lines 224-254):
  the tree and \<open>minCount\<close>, or the panic of a failed open or scan.\<close>

definition buildTree_cli ::
  "input_file \<Rightarrow> float64 \<Rightarrow> Itemizer \<Rightarrow> itemCount \<Rightarrow> nat \<Rightarrow> cli_panic + (fpTree \<times> nat)" where
  "buildTree_cli f minSupport it freq numTransactions =
     (case f of
        OpenFailed e \<Rightarrow> Inl (PanicError (ErrIO e))
      | Opened ls err \<Rightarrow>
          (let minCount = minCountOf_f64 minSupport numTransactions;
               tree = buildTree it freq minCount newTree ls
           in case check err of Inl p \<Rightarrow> Inl p | Inr u \<Rightarrow> Inr (tree, minCount)))"

text \<open>The finished runs of \<open>parallelFpGrowth\<close>: the master closed \<open>toWorker\<close> and the
  collector's itemsets are returned, or the master panicked on \<open>lastTask.items[0]\<close>.\<close>

inductive parallelFpGrowth :: "fpTree \<Rightarrow> nat \<Rightarrow> cli_panic + itemsetWithCount list \<Rightarrow> bool" where
  closed: "reachable t minCount s \<Longrightarrow> parallel_result s = Some out \<Longrightarrow> parallelFpGrowth t minCount (Inr out)"
| panicked: "reachable t minCount s \<Longrightarrow> mstate s = Panicked \<Longrightarrow>
          parallelFpGrowth t minCount (Inl PanicIndexOutOfRange)"

inductive generateFrequentItemsets_cli ::
  "input_file \<Rightarrow> float64 \<Rightarrow> Itemizer \<Rightarrow> itemCount \<Rightarrow> nat \<Rightarrow> cli_panic + itemsetWithCount list \<Rightarrow> bool"
  where
  fail: "buildTree_cli f ms it freq n = Inl p \<Longrightarrow> generateFrequentItemsets_cli f ms it freq n (Inl p)"
| mine: "buildTree_cli f ms it freq n = Inr (t, m) \<Longrightarrow> parallelFpGrowth t m r \<Longrightarrow>
         generateFrequentItemsets_cli f ms it freq n r"

text \<open>The writing phase of \<open>main\<close> (lines 277-294): the optional itemsets file, then the
  rules file; a failed \<open>os.Create\<close> panics, after the writes already done.\<close>

definition main_writes ::
  "Arguments \<Rightarrow> (string \<Rightarrow> output_file) \<Rightarrow> Itemizer \<Rightarrow> nat \<Rightarrow> itemsetWithCount list \<Rightarrow>
   cli_panic option \<times> (string \<times> string) list" where
  "main_writes args outs it n iwcs =
     (let w1 = (if ItemsetsPath args \<noteq> [] then
                  map_sum id (\<lambda>txt. [(ItemsetsPath args, txt)])
                    (writeItemsets_cli iwcs (outs (ItemsetsPath args)) it n)
                else Inr [])
      in case w1 of
           Inl p \<Rightarrow> (Some p, [])
         | Inr ws \<Rightarrow>
             (let rules = generateRules iwcs n (MinConfidence args) (MinLift args)
              in case writeRules_cli rules (outs (Output args)) it of
                   Inl p \<Rightarrow> (Some p, ws)
                 | Inr txt \<Rightarrow> (None, ws @ [(Output args, txt)])))"

inductive main_cli ::
  "Arguments \<Rightarrow> (string \<Rightarrow> input_file) \<Rightarrow> (string \<Rightarrow> output_file) \<Rightarrow>
   cli_panic option \<times> (string \<times> string) list \<Rightarrow> bool" where
  count_panic: "countItems_cli (fs (Input args)) = Inl p \<Longrightarrow> main_cli args fs outs (Some p, [])"
| mine_panic: "countItems_cli (fs (Input args)) = Inr (it, freq, n) \<Longrightarrow>
     generateFrequentItemsets_cli (fs (Input args)) (MinSupport args) it freq n (Inl p) \<Longrightarrow>
     main_cli args fs outs (Some p, [])"
| finished: "countItems_cli (fs (Input args)) = Inr (it, freq, n) \<Longrightarrow>
     generateFrequentItemsets_cli (fs (Input args)) (MinSupport args) it freq n (Inr iwcs) \<Longrightarrow>
     main_cli args fs outs (main_writes args outs it n iwcs)"

inductive_cases parallelFpGrowthE: "parallelFpGrowth t m r"
inductive_cases generateFrequentItemsets_cliE: "generateFrequentItemsets_cli f ms it freq n r"
inductive_cases main_cliE: "main_cli args fs outs r"

lemma countItems_cli_Inr: "countItems_cli f = Inr r \<Longrightarrow> countItems f = Inr r"
  by (auto simp: countItems_cli_def countItems_def check_def split: input_file.splits option.splits prod.splits)

lemma countItems_cli_Opened_Nil: "countItems_cli (Opened [] None) = Inr (newItemizer, makeCounts, 0)"
  by (simp add: countItems_cli_def check_def)

lemma main_cli_count_panic:
  assumes "countItems_cli (fs (Input args)) = Inl p"
  shows "main_cli args fs outs r \<longleftrightarrow> r = (Some p, [])"
proof
  assume "main_cli args fs outs r"
  then show "r = (Some p, [])" using assms by (cases rule: main_cli.cases) simp_all
next
  assume "r = (Some p, [])"
  with assms show "main_cli args fs outs r" by (simp add: main_cli.count_panic)
qed

lemma main_writes_None:
  "main_writes args outs it n iwcs = (None, ws) \<Longrightarrow> ws = writeOutputs args outs it n iwcs"
  by (auto simp: main_writes_def writeOutputs_def writeItemsets_cli_def writeRules_cli_def
                 writeItemsets_def writeRules_def split: output_file.splits if_splits)

lemma parallelFpGrowth_no_frequent:
  assumes "frequentItemsInTree t m = []"
  shows "parallelFpGrowth t m r \<longleftrightarrow> r = Inl PanicIndexOutOfRange"
proof
  assume "parallelFpGrowth t m r"
  then show "r = Inl PanicIndexOutOfRange"
  proof cases
    case (closed s out)
    then show ?thesis
      using reachable_without_frequent_items [OF assms, of s]
      by (auto simp: parallel_result_def master_init_def)
  qed simp
next
  assume r: "r = Inl PanicIndexOutOfRange"
  have "sched_step m (master_init t m) ((master_init t m)\<lparr>mstate := Panicked\<rparr>)"
    by (rule sched_step.master_panic) (simp_all add: master_init_def assms)
  then have "reachable t m ((master_init t m)\<lparr>mstate := Panicked\<rparr>)"
    by (rule reachable.step [OF reachable.init])
  from parallelFpGrowth.panicked [OF this] r show "parallelFpGrowth t m r" by simp
qed

lemma buildTree_cli_Inr:
  assumes "buildTree_cli f ms it freq n = Inr (t, m)"
  shows "\<exists>ls. f = Opened ls None \<and> m = minCountOf_f64 ms n \<and> t = buildTree it freq m newTree ls"
proof (cases f)
  case (OpenFailed e)
  with assms show ?thesis by (simp add: buildTree_cli_def)
next
  case (Opened ls err)
  with assms show ?thesis by (cases err) (auto simp: buildTree_cli_def check_def Let_def)
qed

lemma generateFrequentItemsets_cli_exists:
  assumes "itemizer_ok it"
  shows "\<exists>r. generateFrequentItemsets_cli f ms it freq n r"
proof (cases "buildTree_cli f ms it freq n")
  case (Inl p)
  then show ?thesis by (blast intro: generateFrequentItemsets_cli.fail)
next
  case (Inr tm)
  then obtain t m where b: "buildTree_cli f ms it freq n = Inr (t, m)" by (cases tm) auto
  obtain ls where t: "t = buildTree it freq m newTree ls" using buildTree_cli_Inr [OF b] by blast
  obtain R where "fpGrowth t [] m = Some R" using fpGrowth_buildTree [OF assms, of freq m ls] t by blast
  then obtain s where reach: "reachable t m s" and st: "mstate s = Closed \<or> mstate s = Panicked"
    using parallel_finishes by blast
  from st have "\<exists>r. parallelFpGrowth t m r"
  proof
    assume "mstate s = Closed"
    then have "parallel_result s = Some (itemsets s)" by (simp add: parallel_result_def)
    with reach show ?thesis by (blast intro: parallelFpGrowth.closed)
  next
    assume "mstate s = Panicked"
    with reach show ?thesis by (blast intro: parallelFpGrowth.panicked)
  qed
  then show ?thesis using b by (blast intro: generateFrequentItemsets_cli.mine)
qed

lemma generateFrequentItemsets_cli_success:
  assumes "generateFrequentItemsets_cli f ms it freq n (Inr iwcs)" and "itemizer_ok it"
  shows "\<exists>R. generateFrequentItemsets f ms it freq n = Some (Inr R) \<and> mset iwcs = mset R"
  using assms(1)
proof cases
  case (mine t m)
  obtain ls where f: "f = Opened ls None" and t: "t = buildTree it freq m newTree ls"
    and m: "m = minCountOf_f64 ms n"
    using buildTree_cli_Inr [OF mine(1)] by blast
  obtain R where R: "fpGrowth t [] m = Some R"
    using fpGrowth_buildTree [OF assms(2), of freq m ls] t by blast
  from mine(2) obtain s where reach: "reachable t m s" and res: "parallel_result s = Some iwcs"
    by (cases rule: parallelFpGrowthE) auto
  have "mstate s = Closed" and out: "iwcs = itemsets s"
    using res by (auto simp: parallel_result_def split: if_splits)
  with closed_run_mset [OF R reach] have "mset iwcs = mset R" by simp
  with R f m t show ?thesis by (simp add: generateFrequentItemsets_def)
qed

lemma generateFrequentItemsets_cli_no_frequent:
  assumes b: "buildTree_cli f ms it freq n = Inr (t, m)" and nf: "frequentItemsInTree t m = []"
  shows "generateFrequentItemsets_cli f ms it freq n g \<longleftrightarrow> g = Inl PanicIndexOutOfRange"
proof
  assume "generateFrequentItemsets_cli f ms it freq n g"
  then show "g = Inl PanicIndexOutOfRange"
  proof (cases rule: generateFrequentItemsets_cli.cases)
    case (fail p)
    with b show ?thesis by simp
  next
    case (mine t' m')
    with b have "t' = t" "m' = m" by simp_all
    with mine(2) parallelFpGrowth_no_frequent [OF nf] show ?thesis by simp
  qed
next
  assume "g = Inl PanicIndexOutOfRange"
  then show "generateFrequentItemsets_cli f ms it freq n g"
    using generateFrequentItemsets_cli.mine [OF b] parallelFpGrowth_no_frequent [OF nf] by blast
qed

lemma main_cli_only_panic:
  assumes c: "countItems_cli (fs (Input args)) = Inr (it, freq, n)"
    and gen: "\<And>g. generateFrequentItemsets_cli (fs (Input args)) (MinSupport args) it freq n g \<longleftrightarrow> g = Inl p"
  shows "main_cli args fs outs r \<longleftrightarrow> r = (Some p, [])"
proof
  assume "main_cli args fs outs r"
  then show "r = (Some p, [])"
  proof (cases rule: main_cli.cases)
    case (count_panic p')
    with c show ?thesis by simp
  next
    case (mine_panic it' freq' n' p')
    with c gen show ?thesis by simp
  next
    case (finished it' freq' n' iwcs)
    with c gen show ?thesis by simp
  qed
next
  assume "r = (Some p, [])"
  then show "main_cli args fs outs r"
    using main_cli.mine_panic [of fs args it freq n p outs, OF c] gen by simp
qed

text \<open>
  Claim C11: the command-line variant writes what the library writes, up to the order of
  the itemsets. When a run of part_001's \<open>main\<close> finishes without panicking and
  \<open>MineAssociationRules\<close> succeeds on the same arguments and files, both write the
  same files, with the texts \<open>writeOutputs\<close> makes of two lists of itemsets that are
  permutations of each other: the parallel miner emits the sequential result in an
  order that depends on the interleaving, and the rules are generated from that list.
\<close>

theorem cli_matches_library:
  assumes "main_cli args fs outs (None, ws')" and "MineAssociationRules args fs outs = Some (None, ws)"
  shows "\<exists>it n R R'. mset R' = mset R \<and> ws = writeOutputs args outs it n R \<and>
           ws' = writeOutputs args outs it n R'"
proof -
  obtain it freq n R where c: "countItems (fs (Input args)) = Inr (it, freq, n)"
    and g: "generateFrequentItemsets (fs (Input args)) (MinSupport args) it freq n = Some (Inr R)"
    and ws: "ws = writeOutputs args outs it n R"
    using MineAssociationRules_success [OF assms(2)] by blast
  have ok: "itemizer_ok it" using countItems_ok [OF c] by blast
  from assms(1) show ?thesis
  proof (cases rule: main_cli.cases)
    case (finished it' freq' n' iwcs)
    have "countItems (fs (Input args)) = Inr (it', freq', n')" by (rule countItems_cli_Inr [OF finished(2)])
    with c have eq: "it' = it" "freq' = freq" "n' = n" by simp_all
    obtain R' where g': "generateFrequentItemsets (fs (Input args)) (MinSupport args) it freq n = Some (Inr R')"
      and m: "mset iwcs = mset R'"
      using generateFrequentItemsets_cli_success [OF finished(3) [unfolded eq] ok] by blast
    have ws': "ws' = writeOutputs args outs it n iwcs"
      using main_writes_None [OF finished(1) [symmetric]] eq by simp
    from g g' m ws ws' show ?thesis by auto
  qed
qed

theorem cli_matches_library_witness:
  "main_cli \<lparr>Input = ''in'', Output = ''out'', MinSupport = Fin (1/2), MinConfidence = Fin (1/2), MinLift = Fin 0, ItemsetsPath = []\<rparr> (\<lambda>_. Opened [''a'', ''a''] None) (\<lambda>_. Created None) (None, [(''out'', ''Antecedent => Consequent,Confidence,Lift,Support\<newline>'')]) \<and>
   MineAssociationRules \<lparr>Input = ''in'', Output = ''out'', MinSupport = Fin (1/2), MinConfidence = Fin (1/2), MinLift = Fin 0, ItemsetsPath = []\<rparr> (\<lambda>_. Opened [''a'', ''a''] None) (\<lambda>_. Created None) = Some (None, [(''out'', ''Antecedent => Consequent,Confidence,Lift,Support\<newline>'')]) \<and>
   (\<exists>it n R R'. mset R' = mset R \<and>
      [(''out'', ''Antecedent => Consequent,Confidence,Lift,Support\<newline>'')] = writeOutputs \<lparr>Input = ''in'', Output = ''out'', MinSupport = Fin (1/2), MinConfidence = Fin (1/2), MinLift = Fin 0, ItemsetsPath = []\<rparr> (\<lambda>_. Created None) it n R \<and>
      [(''out'', ''Antecedent => Consequent,Confidence,Lift,Support\<newline>'')] = writeOutputs \<lparr>Input = ''in'', Output = ''out'', MinSupport = Fin (1/2), MinConfidence = Fin (1/2), MinLift = Fin 0, ItemsetsPath = []\<rparr> (\<lambda>_. Created None) it n R')"
proof -
  let ?A = "\<lparr>Input = ''in'', Output = ''out'', MinSupport = Fin (1/2), MinConfidence = Fin (1/2), MinLift = Fin 0, ItemsetsPath = []\<rparr>"
  let ?F = "\<lambda>_ :: string. Opened [''a'', ''a''] None"
  let ?O = "\<lambda>_ :: string. Created None"
  let ?it = "\<lparr>strToItem = [''a'' \<mapsto> 0], itemToStr = [''a'']\<rparr>"
  let ?t = "Insert (Insert newTree [0] (Suc 0)) [0] (Suc 0)"
  have c: "countItems_cli (?F (Input ?A)) = Inr (?it, makeCounts(0 \<mapsto> 2), 2)"
    by (simp add: countItems_cli_def check_def pass1_eval numeral_2_eq_2)
  have b: "buildTree_cli (?F (Input ?A)) (MinSupport ?A) ?it (makeCounts(0 \<mapsto> 2)) 2 = Inr (?t, Suc 0)"
    by (simp add: buildTree_cli_def check_def minCountOf_f64_Fin frequentTransaction_def itemizer_filter_def
                  lineTokens_def get_def lookup_default_def Let_def)
  have "case run_choices (Suc 0) (master_init ?t (Suc 0)) [MSend, WRun 0, WSend 0, MRecv, MClose] of
          None \<Rightarrow> False | Some s \<Rightarrow> parallel_result s = Some [([0], 2)]"
    by (simp add: sched_eval_simps)
  then obtain s where run: "run_choices (Suc 0) (master_init ?t (Suc 0)) [MSend, WRun 0, WSend 0, MRecv, MClose] = Some s"
    and res: "parallel_result s = Some [([0], 2)]"
    by (rule case_option_SomeE)
  have "parallelFpGrowth ?t (Suc 0) (Inr [([0], 2)])"
    using parallelFpGrowth.closed [OF run_choices_reachable [OF reachable.init run] res] .
  then have g: "generateFrequentItemsets_cli (?F (Input ?A)) (MinSupport ?A) ?it (makeCounts(0 \<mapsto> 2)) 2 (Inr [([0], 2)])"
    by (rule generateFrequentItemsets_cli.mine [OF b])
  have mw: "main_writes ?A ?O ?it 2 [([0], 2)] = (None, [(''out'', ''Antecedent => Consequent,Confidence,Lift,Support\<newline>'')])"
    by (simp add: main_writes_def writeRules_cli_def rules_eval)
  have main: "main_cli ?A ?F ?O (None, [(''out'', ''Antecedent => Consequent,Confidence,Lift,Support\<newline>'')])"
    using main_cli.finished [OF c g, of ?O] mw by simp
  have fp: "fpGrowth ?t [] (Suc 0) = Some [([0], 2)]"
    by code_simp
  have lib: "MineAssociationRules ?A ?F ?O = Some (None, [(''out'', ''Antecedent => Consequent,Confidence,Lift,Support\<newline>'')])"
    by (simp add: driver_eval pass1_eval minCountOf_f64_Fin fp frequentTransaction_def
                  itemizer_filter_def rules_eval writeRules_def)
  from cli_matches_library [OF main lib] main lib show ?thesis by blast
qed

text \<open>
  Claim C12: on an empty input the command-line variant always crashes. With an input
  file that opens and has no line (spec scenario 3, which expects success with no
  itemset), every finished run of part_001's \<open>main\<close> is the index-out-of-range panic
  of \<open>master\<close>, before any file is written, and that panic is reached.
\<close>


theorem cli_empty_input_panics:
  assumes "fs (Input args) = Opened [] None"
  shows "main_cli args fs outs r \<longleftrightarrow> r = (Some PanicIndexOutOfRange, [])"
proof -
  let ?m = "minCountOf_f64 (MinSupport args) 0"
  have c: "countItems_cli (fs (Input args)) = Inr (newItemizer, makeCounts, 0)"
    using assms countItems_cli_Opened_Nil by simp
  have b: "buildTree_cli (fs (Input args)) (MinSupport args) newItemizer makeCounts 0 = Inr (newTree, ?m)"
    using assms by (simp add: buildTree_cli_def check_def)
  have nf: "frequentItemsInTree newTree ?m = []"
    by (simp add: frequentItemsInTree_def headerKeys_def newTree_def rootNode_def)
  show ?thesis
    using main_cli_only_panic [of fs args newItemizer makeCounts 0 PanicIndexOutOfRange outs r, OF c
                               generateFrequentItemsets_cli_no_frequent [OF b nf]] .
qed

theorem cli_empty_input_panics_witness:
  "(\<lambda>_ :: string. Opened [] None) (Input \<lparr>Input = ''in'', Output = ''out'', MinSupport = Fin (1/2), MinConfidence = Fin (1/2), MinLift = Fin 0, ItemsetsPath = []\<rparr>) = Opened [] None \<and>
   main_cli \<lparr>Input = ''in'', Output = ''out'', MinSupport = Fin (1/2), MinConfidence = Fin (1/2), MinLift = Fin 0, ItemsetsPath = []\<rparr> (\<lambda>_. Opened [] None) (\<lambda>_. Created None) (Some PanicIndexOutOfRange, [])"
  using cli_empty_input_panics [of "\<lambda>_. Opened [] None" "\<lparr>Input = ''in'', Output = ''out'', MinSupport = Fin (1/2), MinConfidence = Fin (1/2), MinLift = Fin 0, ItemsetsPath = []\<rparr>" "\<lambda>_. Created None"] by simp

text \<open>
  Claim C13: the command-line variant panics on an unreadable input. When the input
  cannot be opened, every finished run of part_001's \<open>main\<close> is the panic of
  \<open>check\<close> with the open error, before any file is written, and that panic is
  reached; the library returns the same error instead (\<open>MineAssociationRules_errors\<close>).
\<close>

theorem cli_open_error_panics:
  assumes "fs (Input args) = OpenFailed e"
  shows "main_cli args fs outs r \<longleftrightarrow> r = (Some (PanicError (ErrIO e)), [])"
  using assms by (intro main_cli_count_panic) (simp add: countItems_cli_def)

theorem cli_open_error_panics_witness:
  "(\<lambda>_ :: string. OpenFailed ''no such file'') (Input \<lparr>Input = ''in'', Output = ''out'', MinSupport = Fin (1/2), MinConfidence = Fin (1/2), MinLift = Fin 0, ItemsetsPath = []\<rparr>) = OpenFailed ''no such file'' \<and>
   main_cli \<lparr>Input = ''in'', Output = ''out'', MinSupport = Fin (1/2), MinConfidence = Fin (1/2), MinLift = Fin 0, ItemsetsPath = []\<rparr> (\<lambda>_. OpenFailed ''no such file'') (\<lambda>_. Created None)
     (Some (PanicError (ErrIO ''no such file'')), [])"
  using cli_open_error_panics [of "\<lambda>_. OpenFailed ''no such file''" "\<lparr>Input = ''in'', Output = ''out'', MinSupport = Fin (1/2), MinConfidence = Fin (1/2), MinLift = Fin 0, ItemsetsPath = []\<rparr>" "''no such file''" "\<lambda>_. Created None"]
  by simp

text \<open>
  Claim C14: a line of 64 KiB or more stops both programs. When the input has a line of
  at least \<open>maxTokenSize\<close> bytes, \<open>bufio.Scanner\<close> stops with \<open>ErrTooLong\<close>: the
  library returns that error for valid arguments without writing anything, and every
  finished run of part_001's \<open>main\<close> is the \<open>check\<close> panic with it. The spec's input
  format (section 6) puts no bound on the length of a transaction.
\<close>

theorem long_line_fails:
  assumes "Validate args = None"
    and "fs (Input args) = openScan (FileData (unlines ls @ s) e)"
    and "\<forall>l \<in> set ls. CHR ''\<newline>'' \<notin> set l \<and> length l < maxTokenSize"
    and "maxTokenSize \<le> length (takeWhile (\<lambda>c. c \<noteq> CHR ''\<newline>'') s)"
  shows "MineAssociationRules args fs outs = Some (Some (ErrIO ErrTooLong), []) \<and>
         (main_cli args fs outs r \<longleftrightarrow> r = (Some (PanicError (ErrIO ErrTooLong)), []))"
proof -
  have f: "fs (Input args) = Opened (map dropCR ls) (Some ErrTooLong)"
    using assms(2) openScan_too_long [OF assms(3,4)] by simp
  have "countItems_cli (fs (Input args)) = Inl (PanicError (ErrIO ErrTooLong))"
    unfolding f by (simp add: countItems_cli_def check_def split: prod.splits)
  moreover have "MineAssociationRules args fs outs = Some (Some (ErrIO ErrTooLong), [])"
    using assms(1) unfolding MineAssociationRules_def f by (simp add: countItems_def split: prod.splits)
  ultimately show ?thesis using main_cli_count_panic by blast
qed

theorem long_line_fails_witness:
  "Validate \<lparr>Input = ''in'', Output = ''out'', MinSupport = Fin (1/2), MinConfidence = Fin (1/2), MinLift = Fin 0, ItemsetsPath = []\<rparr> = None \<and>
   maxTokenSize \<le> length (takeWhile (\<lambda>c. c \<noteq> CHR ''\<newline>'') (replicate 65536 (CHR ''x''))) \<and>
   MineAssociationRules \<lparr>Input = ''in'', Output = ''out'', MinSupport = Fin (1/2), MinConfidence = Fin (1/2), MinLift = Fin 0, ItemsetsPath = []\<rparr>
     (\<lambda>_. openScan (FileData (unlines [''a,b''] @ replicate 65536 (CHR ''x'')) None)) (\<lambda>_. Created None) =
     Some (Some (ErrIO ErrTooLong), []) \<and>
   main_cli \<lparr>Input = ''in'', Output = ''out'', MinSupport = Fin (1/2), MinConfidence = Fin (1/2), MinLift = Fin 0, ItemsetsPath = []\<rparr>
     (\<lambda>_. openScan (FileData (unlines [''a,b''] @ replicate 65536 (CHR ''x'')) None)) (\<lambda>_. Created None)
     (Some (PanicError (ErrIO ErrTooLong)), [])"
proof -
  have v: "Validate \<lparr>Input = ''in'', Output = ''out'', MinSupport = Fin (1/2), MinConfidence = Fin (1/2), MinLift = Fin 0, ItemsetsPath = []\<rparr> = None"
    by (simp add: Validate_def in_unit_def lift_ok_def)
  have m: "maxTokenSize \<le> length (takeWhile (\<lambda>c. c \<noteq> CHR ''\<newline>'') (replicate 65536 (CHR ''x'')))"
    by (simp add: maxTokenSize_def)
  have l: "\<forall>l \<in> set [''a,b'']. CHR ''\<newline>'' \<notin> set l \<and> length l < maxTokenSize"
    by (simp add: maxTokenSize_def)
  from long_line_fails [OF v _ l m, of "\<lambda>_. openScan (FileData (unlines [''a,b''] @ replicate 65536 (CHR ''x'')) None)" None
      "\<lambda>_. Created None" "(Some (PanicError (ErrIO ErrTooLong)), [])"] v m
  show ?thesis by simp
qed

text \<open>
  Claim C17: every run of part_001's \<open>main\<close> can finish. For all arguments, input and
  output files there is a finished run of \<open>main\<close>: a \<open>check\<close> panic, the master's
  panic, or the mining closing and the writers running. The master and its 28 workers
  may interleave in many ways, and the serial schedule with one job in flight at a time
  reaches a state where the master has stopped, since every step of it lowers the number
  of itemsets still to emit or advances the job in flight.
\<close>

theorem cli_main_finishes: "\<exists>r. main_cli args fs outs r"
proof (cases "countItems_cli (fs (Input args))")
  case (Inl p)
  then show ?thesis by (blast intro: main_cli.count_panic)
next
  case (Inr c)
  then obtain it freq n where c: "countItems_cli (fs (Input args)) = Inr (it, freq, n)"
    by (cases c) auto
  have "itemizer_ok it" using countItems_ok [OF countItems_cli_Inr [OF c]] by simp
  then obtain r where g: "generateFrequentItemsets_cli (fs (Input args)) (MinSupport args) it freq n r"
    using generateFrequentItemsets_cli_exists by blast
  show ?thesis
  proof (cases r)
    case (Inl p)
    with c g show ?thesis by (blast intro: main_cli.mine_panic)
  next
    case (Inr iwcs)
    with c g show ?thesis by (blast intro: main_cli.finished)
  qed
qed

end
