(* ===== verification/Spec2Isabelle.thy ===== *)
theory Spec2Isabelle
  imports Arguments Float64 Pass1 RuleSupports Parallel Driver Cli
begin

text \<open>
  \<^bold>\<open>A verification development of arm-go, association rule mining by FP-Growth.\<close>

  \<^bold>\<open>The program.\<close> \<open>src/arm.go\<close> is the library entry point
  \<open>MineAssociationRules\<close>: it validates its \<open>Arguments\<close>
  (\<open>src/unnamed/part_000\<close>), counts item frequencies in a first pass over the input
  (\<open>countItems\<close>), builds the FP-tree of the frequent items of every transaction in a
  second pass and mines it (\<open>generateFrequentItemsets\<close>, calling the sequential
  \<open>fpGrowth\<close>), then writes itemsets and rules (\<open>writeItemsets\<close>,
  \<open>generateRules\<close>, \<open>writeRules\<close>). \<open>src/unnamed/part_001\<close> is the
  command-line variant: the same passes and writers, with errors turned into panics by
  \<open>check\<close>, and the mining done by \<open>parallelFpGrowth\<close>, a \<open>master\<close> goroutine
  that keeps a stack of mining tasks and 28 \<open>worker\<close> goroutines that build
  conditional trees, connected by two buffered channels. The interner \<open>Itemizer\<close>,
  the counter \<open>itemCount\<close>, the FP-tree, \<open>makeConditionalTree\<close>,
  \<open>appendSorted\<close>, \<open>fpGrowth\<close> and \<open>generateRules\<close> are not under
  \<open>src/\<close>; they are modelled from the specification.

  \<^bold>\<open>Theories, in import order.\<close>
  \<^item> \<open>Prelude\<close>: type names (\<open>item = nat\<close> for Go's \<open>Item int\<close>), generic
    lemmas on sums over lists, maps read with a default, multisets.
  \<^item> \<open>Arguments\<close>: \<open>Arguments\<close>, the three range errors and \<open>Validate\<close>
    (part_000); Go's \<open>float64\<close> is a finite rational, an infinity or NaN, compared as
    IEEE 754 does.
  \<^item> \<open>Float64\<close>: the float64 operations the code performs
    (\<open>float64(n)\<close>, \<open>*\<close>, \<open>/\<close>, \<open>math.Ceil\<close>, \<open>int(x)\<close>), each result rounded
    to nearest even (\<open>f64_round\<close>, with subnormals, and overflow to an infinity);
    \<open>f64_round\<close> is exact on doubles, monotone, and returns a double nearest to its
    argument (\<open>f64_round_nearest\<close>), within half a unit in the last place.
  \<^item> \<open>Reader\<close>: the input file as the lines \<open>bufio.Scanner\<close> yields plus its final
    error (\<open>input_file\<close>), computed from the bytes of the file by \<open>openScan\<close> and
    \<open>scanLines\<close> (Go's \<open>ScanLines\<close>: carriage returns dropped, a last line without
    newline kept, \<open>ErrTooLong\<close> at 64 KiB), with the lines it yields from a file
    (\<open>openScan_lines\<close>); \<open>strings.Split\<close> (\<open>split_sep\<close>) with its inverse
    \<open>join_sep\<close>.
  \<^item> \<open>ItemCount\<close>, \<open>Itemizer\<close>: the counter and the interner with its invariant
    \<open>itemizer_ok\<close>, and the order \<open>cmp\<close> (Go's byte-wise string order), a strict
    total order.
  \<^item> \<open>Pass1\<close>: \<open>countItems\<close> (arm.go 120-144) as the loop \<open>countLines\<close>.
  \<^item> \<open>FPTree\<close>: the FP-tree as an arena of nodes addressed by index (spec section 9),
    \<open>Insert\<close>, and the two pointer walks (header chain, parent chain) run with fuel.
  \<^item> \<open>Patterns\<close>: support, conditional pattern base and the frequent itemsets
    \<open>mined\<close> of a multiset of transactions, and one level of the FP-Growth recursion
    on them (\<open>mined_split\<close>).
  \<^item> \<open>TreeInv\<close>: the arena invariant \<open>tree_wf\<close> and the abstraction
    \<open>represents\<close> from a tree to the multiset of inserted transactions; \<open>Insert\<close>
    refines adding a transaction (\<open>represents_Insert\<close>).
  \<^item> \<open>FPGrowth\<close>: \<open>frequentItemsInTree\<close> (part_001 172-180), conditional trees
    and the recursion \<open>mine_items\<close>, a \<open>partial_function\<close> in the option monad.
  \<^item> \<open>Mining\<close>: on a tree representing sorted transactions, \<open>mine_items\<close> returns
    and emits exactly the frequent itemsets with their supports (\<open>mine_items_correct\<close>,
    by induction on the total length of the transactions), none with a repeated item
    (\<open>mine_items_distinct\<close>).
  \<^item> \<open>Pass2\<close>, \<open>Pass2Correct\<close>: \<open>generateFrequentItemsets\<close> (arm.go 146-183)
    and its correctness: \<open>minCount\<close> in float64 (\<open>minCountOf_f64\<close>), within one of
    the spec's exact \<open>minCount_spec\<close> (\<open>minCount_f64_bounds\<close>), the stable sort, the
    order \<open>freqLess\<close>, the tree \<open>buildTree\<close> builds, and the itemsets returned.
  \<^item> \<open>Supports\<close>: the support of a set of items in the input lines (\<open>lsupp\<close>);
    after pass 1, pass 2 returns every set of items with support above \<open>minCount\<close>
    once, with its support.
  \<^item> \<open>RuleSupports\<close>: the itemsets of pass 2 have no repeated item, and the support
    lookups of \<open>generateRules\<close> on them always succeed with the supports of the input.
  \<^item> \<open>Parallel\<close>: \<open>master\<close>, \<open>worker\<close> and \<open>parallelFpGrowth\<close> (part_001
    119-222) as the inductive step relation \<open>sched_step\<close> on the global state
    \<open>sched\<close>; \<open>reachable\<close> is the set of states of runs; by rule induction the
    bookkeeping invariant \<open>sched_inv\<close> and the work invariant \<open>work_inv\<close>, and from
    them equivalence with the sequential miner, freedom from deadlock, the panic on a
    tree without frequent items, and a serial schedule (one job in flight, ranked by
    \<open>serial_rank\<close>) that always reaches a state where the master has stopped. \<open>step_choice\<close> is an executable scheduler whose runs
    are runs of \<open>sched_step\<close>, used to evaluate concrete interleavings.
  \<^item> \<open>Output\<close>, \<open>Rules\<close>: the writers (arm.go 34-118) with Go's \<open>%f\<close>, their
    decoding (\<open>parse_fixed\<close> reads a decimal with its fraction digits over 10 to their
    number), the accuracy of the support column, and rule generation (spec section 4.5).
  \<^item> \<open>Driver\<close>: \<open>MineAssociationRules\<close> (arm.go 185-229) over a file system given
    as two functions (input contents, output creation results); the CSV fields of the
    rules file.
  \<^item> \<open>Cli\<close>: part_001's \<open>check\<close>, \<open>countItems\<close>,
    \<open>generateFrequentItemsets\<close>, writers and \<open>main\<close>, with panics as values and
    the finished runs as inductive relations; the error paths of both programs on an
    unopenable input and on a line of 64 KiB or more; every run of \<open>main\<close> can finish
    (\<open>cli_main_finishes\<close>).
  \<^item> \<open>Spec2Isabelle\<close> (this theory): properties across components: the parallel miner
    on the trees of pass 2, and the library with \<open>minSupport = 1.0\<close> (spec scenarios
    2 and 4), which mines nothing because \<open>frequentItemsInTree\<close> compares strictly.

  \<^bold>\<open>Fuel and non-termination.\<close> The header-chain and parent walks of the tree are
  run with fuel equal to the number of nodes: on a well-formed arena a walk visits each
  node at most once, so that fuel suffices (\<open>headerNodes_wf\<close>, \<open>prefixPath_wf\<close>),
  and \<open>None\<close> stands for the Go loop not ending on a corrupt structure.
  \<open>mine_items\<close> is a \<open>partial_function\<close>: \<open>None\<close> means that the recursion
  does not return; it is proved to return on every tree pass 2 builds
  (\<open>generateFrequentItemsets_correct\<close>); every other step of
  \<open>MineAssociationRules\<close> is a total function, so the library always returns. The
  parallel miner may run forever under an unfair schedule; \<open>cli_main_finishes\<close> shows
  that some schedule finishes. The theorems of \<open>Parallel\<close> take the
  sequential result as a hypothesis; \<open>parallel_mines_frequent_itemsets\<close> discharges
  it on the trees of pass 2.

  \<^bold>\<open>Abstractions.\<close> Go's iteration over the map \<open>tree.itemList\<close> has no fixed
  order; the model uses node-creation order, and the mining theorems compare results as
  multisets. Counts are unbounded naturals (no overflow at realistic sizes). A finite
  float64 is the rational it denotes and every float64 result is rounded as IEEE 754
  does; the bound \<open>n < 2^53\<close> of \<open>minCount_f64_bounds\<close> is where
  \<open>float64(n)\<close> is exact. The
  channels' blocking is the guard of each step; Go's scheduler is any interleaving.

  \<^bold>\<open>Not modelled.\<close> Logging and timing; the command-line parser
  \<open>parseArgsOrDie\<close> (not in the sources) and the profiler (an external library);
  the growth of \<open>bufio.Scanner\<close>'s buffer up to its limit, which does not change the
  lines it yields; the sign of a float64 zero, on which no result depends.
\<close>

text \<open>
  Claim C6: the command-line variant mines the frequent itemsets. On the tree pass 2 builds
  with a well-formed interner, every run of \<open>parallelFpGrowth\<close> (master and 28
  workers, any interleaving) that closes collects, as a multiset of sets with counts,
  exactly the non-empty itemsets of the filtered transactions with support above
  \<open>minCount\<close>: the hypothesis that the sequential recursion returns, which the parallel
  equivalence takes, is discharged on every tree pass 2 builds.
\<close>

theorem parallel_mines_frequent_itemsets:
  assumes "itemizer_ok it" and "reachable (buildTree it freq minCount newTree ls) minCount s"
    and "parallel_result s = Some out"
  shows "image_mset (\<lambda>(s, c). (set s, c)) (mset out) = mined (pass2_db it freq minCount ls) {} minCount"
proof -
  obtain R where R: "fpGrowth (buildTree it freq minCount newTree ls) [] minCount = Some R"
    and mR: "image_mset (\<lambda>(s, c). (set s, c)) (mset R) = mined (pass2_db it freq minCount ls) {} minCount"
    using fpGrowth_buildTree [OF assms(1)] by blast
  have "mstate s = Closed" and out: "out = itemsets s"
    using assms(3) by (auto simp: parallel_result_def split: if_splits)
  with closed_run_mset [OF R assms(2)] mR show ?thesis by simp
qed

theorem parallel_mines_frequent_itemsets_witness:
  "\<exists>s. itemizer_ok \<lparr>strToItem = [''a'' \<mapsto> 0], itemToStr = [''a'']\<rparr> \<and>
     reachable (buildTree \<lparr>strToItem = [''a'' \<mapsto> 0], itemToStr = [''a'']\<rparr> (makeCounts(0 \<mapsto> 2)) 1 newTree [''a'', ''a'']) 1 s \<and>
     parallel_result s = Some [([0], 2)] \<and>
     image_mset (\<lambda>(s, c). (set s, c)) (mset [([0::nat], 2::nat)]) =
       mined (pass2_db \<lparr>strToItem = [''a'' \<mapsto> 0], itemToStr = [''a'']\<rparr> (makeCounts(0 \<mapsto> 2)) 1 [''a'', ''a'']) {} 1"
proof -
  let ?it = "\<lparr>strToItem = [''a'' \<mapsto> 0], itemToStr = [''a'']\<rparr>"
  let ?t = "buildTree ?it (makeCounts(0 \<mapsto> 2)) 1 newTree [''a'', ''a'']"
  have ok: "itemizer_ok ?it" by (simp add: itemizer_ok_def)
  have "case run_choices 1 (master_init ?t 1) [MSend, WRun 0, WSend 0, MRecv, MClose] of
          None \<Rightarrow> False | Some s \<Rightarrow> parallel_result s = Some [([0], 2)]"
    by (simp add: sched_eval_simps frequentTransaction_def itemizer_filter_def lineTokens_def get_def
                  lookup_default_def)
  then obtain s where run: "run_choices 1 (master_init ?t 1) [MSend, WRun 0, WSend 0, MRecv, MClose] = Some s"
    and res: "parallel_result s = Some [([0], 2)]"
    by (rule case_option_SomeE)
  have reach: "reachable ?t 1 s"
    using run_choices_reachable [OF reachable.init run] .
  from parallel_mines_frequent_itemsets [OF ok reach res] ok reach res show ?thesis by blast
qed

text \<open>
  Claim C2: with \<open>minSupport = 1.0\<close> the library mines nothing. For valid arguments
  with \<open>MinSupport = 1\<close>, any input read without error (fewer than \<open>2^53\<close> lines) and
  outputs that can be written, \<open>minCount\<close> is the number of transactions, no itemset
  has a larger support, and \<open>MineAssociationRules\<close> writes only the header lines. The
  spec's scenarios 2 and 4 (every itemset in every transaction, \<open>minSupport = 1.0\<close>)
  expect every itemset with support 1.0.
\<close>

theorem minSupport_one_no_itemsets:
  assumes v: "Validate args = None" and ms: "MinSupport args = Fin 1"
    and f: "fs (Input args) = Opened ls None" and len: "length ls < 2 ^ 53"
    and o: "\<forall>p. outs p = Created None"
  shows "MineAssociationRules args fs outs =
           Some (None, (if ItemsetsPath args \<noteq> [] then [(ItemsetsPath args, ''Itemset,Support\<newline>'')] else []) @
                       [(Output args, ''Antecedent => Consequent,Confidence,Lift,Support\<newline>'')])"
proof -
  obtain it freq where c: "countItems (Opened ls None) = Inr (it, freq, length ls)"
    using countItems_Opened_None by blast
  have ok: "itemizer_ok it" using countItems_lsupp [OF c] by simp
  let ?m = "minCountOf_f64 (Fin 1) (length ls)"
  obtain R where fp: "fpGrowth (buildTree it freq ?m newTree ls) [] ?m = Some R"
    using fpGrowth_buildTree [OF ok] by blast
  have g: "generateFrequentItemsets (Opened ls None) (Fin 1) it freq (length ls) = Some (Inr R)"
    using fp by (simp add: generateFrequentItemsets_def)
  have "\<forall>S. lsupp it ls S \<le> ?m"
    unfolding minCountOf_f64_one [OF len] by (simp add: le_max_iff_disj lsupp_le_length)
  then have "{S. S \<noteq> {} \<and> S \<subseteq> {..<length (itemToStr it)} \<and> ?m < lsupp it ls S} = {}"
    by (simp add: not_less [symmetric])
  with generateFrequentItemsets_lsupp [OF c g] have "R = []" by simp
  with g have g': "generateFrequentItemsets (fs (Input args)) (MinSupport args) it freq (length ls) = Some (Inr [])"
    using f ms by simp
  have c': "countItems (fs (Input args)) = Inr (it, freq, length ls)" using c f by simp
  show ?thesis using MineAssociationRules_no_itemsets [where args = args and fs = fs and outs = outs, OF v c' g'] o by simp
qed

theorem minSupport_one_no_itemsets_witness:
  "MineAssociationRules \<lparr>Input = ''in'', Output = ''out'', MinSupport = Fin 1, MinConfidence = Fin 1, MinLift = Fin 0, ItemsetsPath = ''sets''\<rparr>
     (\<lambda>_. Opened (replicate 10 ''a,b'') None) (\<lambda>_. Created None) =
   Some (None, [(''sets'', ''Itemset,Support\<newline>''), (''out'', ''Antecedent => Consequent,Confidence,Lift,Support\<newline>'')])"
proof -
  have v: "Validate \<lparr>Input = ''in'', Output = ''out'', MinSupport = Fin 1, MinConfidence = Fin 1, MinLift = Fin 0, ItemsetsPath = ''sets''\<rparr> = None"
    by (simp add: Validate_def in_unit_def lift_ok_def)
  from minSupport_one_no_itemsets [OF v, of "\<lambda>_. Opened (replicate 10 ''a,b'') None" "replicate 10 ''a,b''" "\<lambda>_. Created None"]
  show ?thesis by simp
qed

end
